(* ===== verification/Prelude.thy ===== *)
theory Prelude
  imports Main "HOL-Library.Word" "HOL-Library.Sublist" "HOL-Library.Multiset"
begin

text \<open>
  Shared vocabulary of the development: machine-integer types, the outcome of an operation
  that may throw or run into undefined behaviour, the character constants of the text
  formats, the collections of simplification rules that the component theories extend,
  generic lemmas on lists and maps, and the two interfaces every component theory can use:
  invariants of a step relation, and a journal that records the commands of a store.
\<close>

section \<open>Machine integers and outcomes\<close>

type_synonym u8 = "8 word"
type_synonym u16 = "16 word"
type_synonym size_t = "64 word"

text \<open>
  What an operation of the program ends with. An exception of \<^verbatim>\<open>std::exception\<close> carries
  its \<^verbatim>\<open>what()\<close> text. The C++ behaviours that have no defined result are kept apart from
  exceptions, because no handler catches them: an access outside a vector, a use of a
  reference whose object is gone, the dereference of an empty optional, and
  \<^verbatim>\<open>std::terminate\<close> (an exception that leaves a destructor).
\<close>

datatype fault = Out_of_bounds | Dangling_reference | Empty_optional | Terminated

datatype error = Exception string | Undefined fault

type_synonym 'a outcome = "error + 'a"

abbreviation Ok :: "'a \<Rightarrow> 'a outcome" where "Ok \<equiv> Inr"
abbreviation Throw :: "string \<Rightarrow> 'a outcome" where "Throw e \<equiv> Inl (Exception e)"
abbreviation Fault :: "fault \<Rightarrow> 'a outcome" where "Fault f \<equiv> Inl (Undefined f)"

definition is_fault :: "'a outcome \<Rightarrow> bool" where
  "is_fault r = (case r of Inl (Undefined _) \<Rightarrow> True | _ \<Rightarrow> False)"

lemma is_fault_simps [simp]:
  "is_fault (Ok a) = False" "is_fault (Throw e) = False" "is_fault (Fault f) = True"
  by (simp_all add: is_fault_def)

section \<open>Characters of the text formats\<close>

abbreviation NL :: char where "NL \<equiv> CHR 0x0A"
abbreviation SPACE :: char where "SPACE \<equiv> CHR 0x20"
abbreviation QUOTE :: char where "QUOTE \<equiv> CHR 0x22"

section \<open>Rule collections\<close>

named_theorems std_simps "equations of the C++ library functions"
named_theorems store_simps "what the store operations do to the key-value map"
named_theorems frame_simps "fields an operation leaves alone"

section \<open>Lists\<close>

lemma takeWhile_neq_append [simp]: "d \<notin> set l \<Longrightarrow> takeWhile (\<lambda>c. c \<noteq> d) (l @ d # r) = l"
  by (induction l) auto

lemma dropWhile_neq_append [simp]: "d \<notin> set l \<Longrightarrow> dropWhile (\<lambda>c. c \<noteq> d) (l @ d # r) = d # r"
  by (induction l) auto

lemma takeWhile_neq_all [simp]: "d \<notin> set l \<Longrightarrow> takeWhile (\<lambda>c. c \<noteq> d) l = l"
  by (induction l) auto

lemma dropWhile_neq_all [simp]: "d \<notin> set l \<Longrightarrow> dropWhile (\<lambda>c. c \<noteq> d) l = []"
  by (induction l) auto

lemma length_dropWhile_less: "xs \<noteq> [] \<Longrightarrow> P (hd xs) \<Longrightarrow> length (dropWhile P xs) < length xs"
  by (cases xs) (auto simp: length_dropWhile_le le_imp_less_Suc)

lemma sublist_append_split: "sublist d (xs @ d @ ys)"
  by (auto simp: sublist_def)

lemma distinct_map_permuted: "mset xs = mset ys \<Longrightarrow> distinct (map f xs) = distinct (map f ys)"
  by (metis mset_eq_imp_distinct_iff mset_map)

lemma map_of_permuted:
  assumes "mset xs = mset ys" and "distinct (map fst xs)"
  shows "map_of xs = map_of ys"
proof -
  have "distinct (map fst ys)" using assms distinct_map_permuted by blast
  moreover have "set xs = set ys" using assms(1) by (rule mset_eq_setD)
  ultimately show ?thesis using assms(2) map_of_inject_set by blast
qed

lemma distinct_singleton:
  assumes "distinct xs" and "set xs = {a}"
  shows "xs = [a]"
proof (cases xs)
  case (Cons x ys)
  with assms have "x = a" "set ys \<subseteq> {a}" "a \<notin> set ys" by auto
  then show ?thesis using Cons by (cases ys) auto
qed (use assms in simp)

lemma map_of_single:
  assumes "distinct (map fst t)" and "map_of t = [k \<mapsto> v]"
  shows "t = [(k, v)]"
proof -
  have "map_of t = map_of [(k, v)]" using assms(2) by simp
  then have "set t = {(k, v)}" using assms(1) map_of_inject_set [of t "[(k, v)]"] by simp
  then show ?thesis using assms(1) by (intro distinct_singleton) (simp_all add: distinct_map)
qed

lemma fold_map_upd: "fold (\<lambda>(k, v) f. f(k \<mapsto> v)) kvs m = m ++ map_of (rev kvs)"
  by (induction kvs arbitrary: m) auto

section \<open>Invariants of a step relation\<close>

text \<open>
  A component with steps states its invariant once, for the start states and for one step;
  the locale lifts it to every reachable state.
\<close>

locale step_invariant =
  fixes start :: "'s \<Rightarrow> bool" and step :: "'s \<Rightarrow> 's \<Rightarrow> bool" and inv :: "'s \<Rightarrow> bool"
  assumes inv_start: "start s \<Longrightarrow> inv s"
    and inv_step: "inv s \<Longrightarrow> step s t \<Longrightarrow> inv t"
begin

lemma inv_steps: "step\<^sup>*\<^sup>* s t \<Longrightarrow> inv s \<Longrightarrow> inv t"
  by (induction rule: rtranclp_induct) (auto intro: inv_step)

lemma inv_reachable: "start s \<Longrightarrow> step\<^sup>*\<^sup>* s t \<Longrightarrow> inv t"
  using inv_steps inv_start by blast

end

section \<open>Journals\<close>

text \<open>
  A store that writes a record of each command before it applies it. \<open>apply_entry\<close> is what
  recovery does with one entry of the journal; the law says that the entries of a command
  do to the state what the command does. Recovery from the whole journal then gives the
  state the commands left.
\<close>

locale journal =
  fixes run :: "'c \<Rightarrow> 's \<Rightarrow> 's" and entries :: "'c \<Rightarrow> 'e list"
    and apply_entry :: "'e \<Rightarrow> 's \<Rightarrow> 's" and loggable :: "'c \<Rightarrow> bool"
  assumes entries_run: "loggable c \<Longrightarrow> fold apply_entry (entries c) s = run c s"
begin

lemma recover_all:
  "list_all loggable cs \<Longrightarrow> fold apply_entry (concat (map entries cs)) s = fold run cs s"
  by (induction cs arbitrary: s) (simp_all add: entries_run)

lemma recover_more:
  assumes "fold apply_entry es s0 = s" and "loggable c"
  shows "fold apply_entry (es @ entries c) s0 = run c s"
  using assms by (simp add: entries_run)

end

end
