(* ===== verification/Cxx_Std.thy ===== *)
theory Cxx_Std
  imports Prelude
begin

text \<open>
  The functions of the C++ standard library the program uses on text, over byte strings
  (a \<open>char\<close> is one byte): classification of characters, reading of lines and words from a
  stream, substrings, searching, decimal output and \<^verbatim>\<open>std::stoi\<close>. An input stream is the
  text not read yet; a read that fails is \<open>None\<close>.
\<close>

section \<open>Characters\<close>

text \<open>
  \<^verbatim>\<open>std::isspace\<close> in the C locale. (The program passes it a plain \<^verbatim>\<open>char\<close>; the bytes above 127,
  which are negative there, are not white space in the C locale of the usual libraries.)
\<close>

definition isspace :: "char \<Rightarrow> bool" where
  "isspace c = (c \<in> set [CHR 0x20, CHR 0x09, CHR 0x0A, CHR 0x0B, CHR 0x0C, CHR 0x0D])"

definition isdigit :: "char \<Rightarrow> bool" where
  "isdigit c = (48 \<le> (of_char c :: nat) \<and> (of_char c :: nat) \<le> 57)"

definition tolower_char :: "char \<Rightarrow> char" where
  "tolower_char c =
     (if 65 \<le> (of_char c :: nat) \<and> (of_char c :: nat) \<le> 90 then char_of ((of_char c :: nat) + 32) else c)"

lemma isspace_SPACE [simp]: "isspace SPACE" and isspace_NL [simp]: "isspace NL"
  and not_isspace_QUOTE [simp]: "\<not> isspace QUOTE"
  by (simp_all add: isspace_def)

lemma tolower_char_idem [simp]: "tolower_char (tolower_char c) = tolower_char c"
proof (cases "65 \<le> (of_char c :: nat) \<and> (of_char c :: nat) \<le> 90")
  case True
  then have "(of_char (char_of ((of_char c :: nat) + 32)) :: nat) = of_char c + 32"
    by simp
  with True show ?thesis by (simp add: tolower_char_def)
qed (auto simp: tolower_char_def)

section \<open>Reading from streams\<close>

text \<open>
  \<^verbatim>\<open>std::getline(stream, s, d)\<close>: fails on an exhausted stream, otherwise takes the
  characters up to the next \<open>d\<close>, which is read and dropped, or up to the end.
\<close>

definition getline :: "char \<Rightarrow> string \<Rightarrow> (string \<times> string) option" where
  "getline d s =
     (if s = [] then None
      else Some (takeWhile (\<lambda>c. c \<noteq> d) s, tl (dropWhile (\<lambda>c. c \<noteq> d) s)))"

text \<open>The lines a loop \<^verbatim>\<open>while (getline(in, line))\<close> sees.\<close>

function getlines :: "string \<Rightarrow> string list" where
  "getlines s = (case getline NL s of None \<Rightarrow> [] | Some (l, r) \<Rightarrow> l # getlines r)"
  by pat_completeness auto
termination
proof (relation "measure length")
  fix s :: string and x l r assume "getline NL s = Some x" "(l, r) = x"
  then have "s \<noteq> []" and r: "r = tl (dropWhile (\<lambda>c. c \<noteq> NL) s)"
    by (auto simp: getline_def split: if_splits)
  moreover have "length (dropWhile (\<lambda>c. c \<noteq> NL) s) \<le> length s" by (rule length_dropWhile_le)
  ultimately show "(r, s) \<in> measure length" by (cases s) (auto split: if_splits)
qed simp

declare getlines.simps [simp del]

lemma getlines_Nil [std_simps, simp]: "getlines [] = []"
  by (subst getlines.simps) (simp add: getline_def)

lemma getlines_line [std_simps]: "NL \<notin> set l \<Longrightarrow> getlines (l @ NL # r) = l # getlines r"
  by (subst getlines.simps) (simp add: getline_def)

lemma getlines_last: "NL \<notin> set l \<Longrightarrow> l \<noteq> [] \<Longrightarrow> getlines l = [l]"
  by (subst getlines.simps) (simp add: getline_def)

definition unlines :: "string list \<Rightarrow> string" where
  "unlines ls = concat (map (\<lambda>l. l @ [NL]) ls)"

lemma unlines_simps [simp]: "unlines [] = []" "unlines (l # ls) = l @ NL # unlines ls"
  "unlines (ls @ ms) = unlines ls @ unlines ms"
  by (simp_all add: unlines_def)

lemma getlines_eq_Nil: "getlines t = [] \<longleftrightarrow> t = []"
  by (subst getlines.simps) (auto simp: getline_def split: option.split)

lemma getlines_unlines_append:
  "list_all (\<lambda>l. NL \<notin> set l) ls \<Longrightarrow> getlines (unlines ls @ r) = ls @ getlines r"
  by (induction ls) (simp_all add: std_simps)

lemma getlines_unlines: "list_all (\<lambda>l. NL \<notin> set l) ls \<Longrightarrow> getlines (unlines ls) = ls"
  using getlines_unlines_append [of ls "[]"] by simp

text \<open>\<^verbatim>\<open>stream >> word\<close>: skips white space, fails at the end, takes a run of other characters.\<close>

definition read_word :: "string \<Rightarrow> (string \<times> string) option" where
  "read_word s =
     (let s' = dropWhile isspace s
      in if s' = [] then None
         else Some (takeWhile (\<lambda>c. \<not> isspace c) s', dropWhile (\<lambda>c. \<not> isspace c) s'))"

lemma read_word_shorter: "read_word s = Some (w, r) \<Longrightarrow> length r < length s"
proof -
  assume rw: "read_word s = Some (w, r)"
  define s' where "s' = dropWhile isspace s"
  from rw have "s' \<noteq> []" and r: "r = dropWhile (\<lambda>c. \<not> isspace c) s'"
    by (auto simp: read_word_def s'_def Let_def split: if_splits)
  then have "\<not> isspace (hd s')" using hd_dropWhile [of isspace s] by (simp add: s'_def)
  with \<open>s' \<noteq> []\<close> have "length r < length s'"
    unfolding r by (intro length_dropWhile_less) auto
  moreover have "length s' \<le> length s" by (simp add: s'_def length_dropWhile_le)
  ultimately show ?thesis by simp
qed

section \<open>Substrings and search\<close>

text \<open>\<^verbatim>\<open>s.substr(pos, n)\<close>: \<open>n\<close> characters from \<open>pos\<close>, fewer at the end; throws past the end.\<close>

definition substr :: "string \<Rightarrow> nat \<Rightarrow> size_t \<Rightarrow> string outcome" where
  "substr s pos n =
     (if length s < pos then Throw ''basic_string::substr'' else Ok (take (unat n) (drop pos s)))"

text \<open>\<^verbatim>\<open>s.find(d)\<close>: the first position where \<open>d\<close> occurs, \<open>None\<close> for \<^verbatim>\<open>npos\<close>.\<close>

fun find_sub :: "string \<Rightarrow> string \<Rightarrow> nat option" where
  "find_sub d [] = (if d = [] then Some 0 else None)"
| "find_sub d (c # s) =
     (if prefix d (c # s) then Some 0 else map_option Suc (find_sub d s))"

lemma find_sub_None_iff: "find_sub d s = None \<longleftrightarrow> \<not> sublist d s"
  by (induction s) (auto simp: sublist_Cons_right)

lemma find_sub_Some: "find_sub d s = Some n \<Longrightarrow> n \<le> length s \<and> prefix d (drop n s)"
  by (induction s arbitrary: n) (auto split: if_splits)

lemma find_sub_first:
  "find_sub d s = Some n \<Longrightarrow> m < n \<Longrightarrow> \<not> prefix d (drop m s)"
proof (induction s arbitrary: n m)
  case (Cons c s)
  then obtain n' where n: "n = Suc n'" and f: "find_sub d s = Some n'" and np: "\<not> prefix d (c # s)"
    by (auto split: if_splits)
  show ?case
  proof (cases m)
    case 0
    with np show ?thesis by simp
  next
    case (Suc m')
    with Cons.IH [OF f] Cons.prems n show ?thesis by simp
  qed
qed (auto split: if_splits)

lemma find_sub_eqI:
  assumes "prefix d (drop n s)" and "\<And>m. m < n \<Longrightarrow> \<not> prefix d (drop m s)" and "n \<le> length s"
  shows "find_sub d s = Some n"
proof -
  have "sublist d s"
    using assms(1) by (metis prefix_imp_sublist sublist_drop sublist_order.order.trans)
  then obtain k where k: "find_sub d s = Some k"
    using find_sub_None_iff by (metis not_None_eq)
  have "k = n"
    using find_sub_Some [OF k] find_sub_first [OF k] assms by (metis linorder_neqE_nat)
  with k show ?thesis by simp
qed

section \<open>Decimal numbers\<close>

definition digit_char :: "nat \<Rightarrow> char" where
  "digit_char d = char_of (48 + d)"

fun show_nat :: "nat \<Rightarrow> string" where
  "show_nat n = (if n < 10 then [digit_char n] else show_nat (n div 10) @ [digit_char (n mod 10)])"

declare show_nat.simps [simp del]

definition digit_value :: "char \<Rightarrow> int" where
  "digit_value c = int (of_char c) - 48"

definition digits_value :: "string \<Rightarrow> int" where
  "digits_value ds = foldl (\<lambda>a c. 10 * a + digit_value c) 0 ds"

lemma of_char_digit_char: "d < 10 \<Longrightarrow> (of_char (digit_char d) :: nat) = 48 + d"
  by (simp add: digit_char_def)

lemma isdigit_digit_char [simp]: "d < 10 \<Longrightarrow> isdigit (digit_char d)"
  by (simp add: isdigit_def of_char_digit_char)

lemma digit_value_digit_char [simp]: "d < 10 \<Longrightarrow> digit_value (digit_char d) = int d"
  by (simp add: digit_value_def of_char_digit_char)

lemma digits_value_snoc [simp]: "digits_value (ds @ [c]) = 10 * digits_value ds + digit_value c"
  by (simp add: digits_value_def)

lemma show_nat_not_Nil [simp]: "show_nat n \<noteq> []"
  by (subst show_nat.simps) simp

lemma show_nat_isdigit: "list_all isdigit (show_nat n)"
proof (induction n rule: show_nat.induct)
  case (1 n)
  then show ?case by (subst show_nat.simps) auto
qed

lemma digits_value_show_nat: "digits_value (show_nat n) = int n"
proof (induction n rule: show_nat.induct)
  case (1 n)
  show ?case
  proof (cases "n < 10")
    case True
    then show ?thesis by (subst show_nat.simps) (simp add: digits_value_def)
  next
    case False
    with 1 have "digits_value (show_nat n) = 10 * int (n div 10) + int (n mod 10)"
      by (subst show_nat.simps) simp
    also have "\<dots> = int n" by presburger
    finally show ?thesis .
  qed
qed

lemma isdigit_not_space: "isdigit c \<Longrightarrow> \<not> isspace c"
  by (auto simp: isdigit_def isspace_def)

lemma isdigit_not_sign: "isdigit c \<Longrightarrow> c \<noteq> CHR ''-'' \<and> c \<noteq> CHR ''+''"
  by (auto simp: isdigit_def)

text \<open>
  \<^verbatim>\<open>std::stoi\<close> (\<^verbatim>\<open>strtol\<close> with base 10): leading white space, a sign, digits; what follows the
  digits is ignored. Throws when there is no digit and when the value is not an \<^verbatim>\<open>int\<close>.
\<close>

definition stoi :: "string \<Rightarrow> int outcome" where
  "stoi s =
     (let t = dropWhile isspace s;
          negative = (t \<noteq> [] \<and> hd t = CHR ''-'');
          u = (if t \<noteq> [] \<and> (hd t = CHR ''-'' \<or> hd t = CHR ''+'') then tl t else t);
          ds = takeWhile isdigit u;
          v = (if negative then - digits_value ds else digits_value ds)
      in if ds = [] then Throw ''stoi''
         else if v < - (2 ^ 31) \<or> 2 ^ 31 \<le> v then Throw ''stoi''
         else Ok v)"

lemma stoi_show_nat:
  assumes "n < 2 ^ 31" and "list_all (\<lambda>c. \<not> isdigit c) (take 1 rest)"
  shows "stoi (show_nat n @ rest) = Ok (int n)"
proof -
  obtain c cs where s: "show_nat n = c # cs" by (cases "show_nat n") auto
  have dig: "list_all isdigit (c # cs)" using show_nat_isdigit [of n] s by simp
  have tw: "takeWhile isdigit (show_nat n @ rest) = show_nat n"
  proof (cases rest)
    case Nil
    with show_nat_isdigit [of n] show ?thesis
      by (simp add: takeWhile_eq_all_conv list_all_iff)
  next
    case (Cons r rs)
    with assms(2) show_nat_isdigit [of n] show ?thesis by (auto simp: list_all_iff)
  qed
  have "dropWhile isspace (show_nat n @ rest) = show_nat n @ rest"
    using dig by (simp add: s isdigit_not_space)
  moreover have "c \<noteq> CHR ''-''" "c \<noteq> CHR ''+''" using dig isdigit_not_sign by auto
  moreover have "int n < 2 ^ 31" using assms(1) by (simp flip: of_nat_less_iff)
  ultimately show ?thesis
    using tw s digits_value_show_nat [of n] by (simp add: stoi_def Let_def)
qed

end
