(* ===== verification/Hash_Table.thy ===== *)
theory Hash_Table
  imports Cxx_Std
begin

text \<open>
  \<^verbatim>\<open>std::unordered_map<std::string, std::string>\<close>: the table is the list of its entries in
  iteration order. The standard leaves that order open, and it decides what \<^verbatim>\<open>display\<close>,
  \<^verbatim>\<open>getKeys\<close>, the compacted log and the snapshot contain; so the order after an insertion
  is a parameter of the model, a \<open>layout\<close>, which may put the keys in any order it likes.
  The interface \<open>kv_map\<close> says what the program may rely on whatever the layout is.
\<close>

section \<open>The map interface\<close>

locale kv_map =
  fixes empty :: 'm and insert_kv :: "'k \<Rightarrow> 'v \<Rightarrow> 'm \<Rightarrow> 'm" and erase_k :: "'k \<Rightarrow> 'm \<Rightarrow> 'm"
    and lookup :: "'m \<Rightarrow> 'k \<Rightarrow> 'v option" and items :: "'m \<Rightarrow> ('k \<times> 'v) list"
    and wf_map :: "'m \<Rightarrow> bool"
  assumes wf_empty: "wf_map empty"
    and wf_insert: "wf_map m \<Longrightarrow> wf_map (insert_kv k v m)"
    and wf_erase: "wf_map m \<Longrightarrow> wf_map (erase_k k m)"
    and lookup_empty: "lookup empty = Map.empty"
    and lookup_insert: "wf_map m \<Longrightarrow> lookup (insert_kv k v m) = (lookup m)(k \<mapsto> v)"
    and lookup_erase: "wf_map m \<Longrightarrow> lookup (erase_k k m) = (lookup m)(k := None)"
    and items_lookup: "wf_map m \<Longrightarrow> map_of (items m) = lookup m"
    and items_distinct: "wf_map m \<Longrightarrow> distinct (map fst (items m))"
begin

lemma items_empty_iff: "wf_map m \<Longrightarrow> items m = [] \<longleftrightarrow> lookup m = Map.empty"
  using items_lookup [of m] by (metis map_of.simps(1) map_of_eq_empty_iff)

lemma length_items: "wf_map m \<Longrightarrow> length (items m) = card (dom (lookup m))"
  using items_lookup [of m] items_distinct [of m] by (metis distinct_card dom_map_of_conv_image_fst length_map list.set_map)

text \<open>Inserting the entries of a table into an empty one rebuilds the map, in any order.\<close>

lemma wf_insert_all: "wf_map m \<Longrightarrow> wf_map (fold (\<lambda>(k, v). insert_kv k v) kvs m)"
  by (induction kvs arbitrary: m) (auto simp: wf_insert)

lemma lookup_insert_all:
  "wf_map m \<Longrightarrow> lookup (fold (\<lambda>(k, v). insert_kv k v) kvs m) = fold (\<lambda>(k, v) f. f(k \<mapsto> v)) kvs (lookup m)"
  by (induction kvs arbitrary: m) (auto simp: wf_insert lookup_insert)

lemma wf_erase_all: "wf_map m \<Longrightarrow> wf_map (fold erase_k ks m)"
  by (induction ks arbitrary: m) (auto simp: wf_erase)

lemma lookup_erase_all: "wf_map m \<Longrightarrow> lookup (fold erase_k ks m) = (lookup m) |` (- set ks)"
proof (induction ks arbitrary: m)
  case (Cons k ks)
  then have "lookup (fold erase_k (k # ks) m) = lookup (erase_k k m) |` (- set ks)"
    by (simp add: wf_erase)
  also have "\<dots> = lookup m |` (- set (k # ks))"
    using Cons.prems by (intro ext) (simp add: restrict_map_def lookup_erase)
  finally show ?case .
qed (simp add: restrict_map_def)

lemma lookup_rebuild:
  assumes "wf_map m"
  shows "fold (\<lambda>(k, v) f. f(k \<mapsto> v)) (items m) Map.empty = lookup m"
proof -
  have "map_of (rev (items m)) = map_of (items m)"
    by (rule map_of_permuted) (simp_all add: items_distinct [OF assms] flip: rev_map)
  then show ?thesis by (simp add: fold_map_upd items_lookup [OF assms])
qed

end

section \<open>The table\<close>

type_synonym table = "(string \<times> string) list"

text \<open>
  A layout gives, from the keys in the table, the place of each of them in the iteration.
\<close>

type_synonym layout = "string list \<Rightarrow> string \<Rightarrow> nat"

definition umap_wf :: "table \<Rightarrow> bool" where
  "umap_wf t = distinct (map fst t)"

text \<open>\<^verbatim>\<open>store[key] = value\<close>: assigns in place, or inserts a new entry where the layout puts it.\<close>

definition umap_set :: "layout \<Rightarrow> string \<Rightarrow> string \<Rightarrow> table \<Rightarrow> table" where
  "umap_set h k v t =
     (if k \<in> set (map fst t) then map (\<lambda>(a, b). if a = k then (a, v) else (a, b)) t
      else sort_key (\<lambda>p. h (k # map fst t) (fst p)) ((k, v) # t))"

text \<open>\<^verbatim>\<open>store.erase(key)\<close> keeps the order of the other entries and returns how many it removed.\<close>

definition umap_erase :: "string \<Rightarrow> table \<Rightarrow> table" where
  "umap_erase k t = filter (\<lambda>p. fst p \<noteq> k) t"

definition umap_count :: "string \<Rightarrow> table \<Rightarrow> nat" where
  "umap_count k t = length (filter (\<lambda>p. fst p = k) t)"

lemma umap_wf_Nil [simp]: "umap_wf []"
  by (simp add: umap_wf_def)

lemma map_of_replace:
  "k \<in> set (map fst t) \<Longrightarrow> map_of (map (\<lambda>(a, b). if a = k then (a, v) else (a, b)) t) = (map_of t)(k \<mapsto> v)"
proof (induction t)
  case (Cons p t)
  obtain a b where p: "p = (a, b)" by (cases p)
  show ?case
  proof (cases "k \<in> set (map fst t)")
    case True
    with Cons.IH show ?thesis by (auto simp: p)
  next
    case False
    then have "map (\<lambda>(a, b). if a = k then (a, v) else (a, b)) t = t"
      by (intro map_idI) force
    with False Cons.prems show ?thesis by (auto simp: p)
  qed
qed simp

lemma map_fst_replace [simp]:
  "map fst (map (\<lambda>(a, b). if a = k then (a, v) else (a, b)) t) = map fst t"
  by (induction t) auto

lemma umap_wf_set: "umap_wf t \<Longrightarrow> umap_wf (umap_set h k v t)"
proof (cases "k \<in> set (map fst t)")
  case True
  assume "umap_wf t"
  with True show ?thesis unfolding umap_wf_def umap_set_def by (simp only: if_True map_fst_replace)
next
  case False
  assume "umap_wf t"
  with False have "distinct (map fst ((k, v) # t))" by (simp add: umap_wf_def)
  then have "distinct (map fst (sort_key (\<lambda>p. h (k # map fst t) (fst p)) ((k, v) # t)))"
    using distinct_map_permuted [OF mset_sort [of "\<lambda>p. h (k # map fst t) (fst p)" "(k, v) # t"]]
    by blast
  with False show ?thesis by (simp add: umap_wf_def umap_set_def del: sort_key_simps)
qed

lemma map_of_umap_set [store_simps]:
  assumes "umap_wf t"
  shows "map_of (umap_set h k v t) = (map_of t)(k \<mapsto> v)"
proof (cases "k \<in> set (map fst t)")
  case True
  then show ?thesis by (simp only: umap_set_def if_True map_of_replace)
next
  case False
  have "distinct (map fst ((k, v) # t))" using False assms by (simp add: umap_wf_def)
  then have "map_of ((k, v) # t) = map_of (sort_key (\<lambda>p. h (k # map fst t) (fst p)) ((k, v) # t))"
    by (intro map_of_permuted) simp_all
  with False show ?thesis by (simp add: umap_set_def del: sort_key_simps)
qed

lemma umap_wf_erase: "umap_wf t \<Longrightarrow> umap_wf (umap_erase k t)"
  by (simp add: umap_wf_def umap_erase_def distinct_map_filter)

lemma map_of_umap_erase [store_simps]: "map_of (umap_erase k t) = (map_of t)(k := None)"
  by (induction t) (auto simp: umap_erase_def)

lemma umap_count_fresh: "map_of t k = None \<Longrightarrow> umap_count k t = 0"
  by (induction t) (auto simp: umap_count_def split: if_splits)

lemma umap_count_wf: "umap_wf t \<Longrightarrow> umap_count k t = (if map_of t k = None then 0 else 1)"
proof (induction t)
  case (Cons p t)
  then have "umap_wf t" and "map_of t (fst p) = None"
    by (auto simp: umap_wf_def map_of_eq_None_iff)
  with Cons.IH umap_count_fresh [of t k] show ?case
    by (cases "fst p = k") (simp_all add: umap_count_def)
qed (simp add: umap_count_def)

lemma umap_wf_distinct: "umap_wf t \<Longrightarrow> distinct (map fst t)"
  by (simp add: umap_wf_def)

interpretation umap: kv_map "[]" "umap_set h" umap_erase map_of "\<lambda>t. t" umap_wf for h
  by unfold_locales (simp_all add: umap_wf_set umap_wf_erase store_simps umap_wf_distinct)

lemmas umap_wf_intros = umap_wf_Nil umap_wf_set umap_wf_erase

end
