(* ===== verification/Utils.thy ===== *)
theory Utils
  imports Hash_Table
begin

text \<open>
  \<^verbatim>\<open>src/utils.cpp\<close> and \<^verbatim>\<open>include/taproot/utils.h\<close>: the tokenizer every command line and
  every line of the log goes through, and the small text helpers. The tokenizer is first
  translated as the loop over the stream it is, then shown to be a function of the words
  of the line; \<open>replayable\<close> tokens are those that survive being written to the log and
  tokenized again.
\<close>

section \<open>Definitions\<close>

fun isAllSpace :: "string \<Rightarrow> bool" where
  "isAllSpace [] = True"
| "isAllSpace (ch # input) = (if \<not> isspace ch then False else isAllSpace input)"

text \<open>The inner loop: \<^verbatim>\<open>while (token.back() != DELIMITER && iss >> token) buffer << " " << token;\<close>\<close>

function quoted_loop :: "string \<Rightarrow> string \<Rightarrow> string \<Rightarrow> string \<times> string" where
  "quoted_loop buffer token iss =
     (if last token \<noteq> QUOTE
      then case read_word iss of
             None \<Rightarrow> (buffer, [])
           | Some (token', iss') \<Rightarrow> quoted_loop (buffer @ SPACE # token') token' iss'
      else (buffer, iss))"
  by pat_completeness auto
termination
  by (relation "measure (\<lambda>(_, _, iss). length iss)") (auto dest: read_word_shorter)

declare quoted_loop.simps [simp del]

text \<open>\<^verbatim>\<open>multiwordToken.substr(1, multiwordToken.size() - 2)\<close>, with the subtraction on \<^verbatim>\<open>size_t\<close>.\<close>

definition strip_quotes :: "string \<Rightarrow> string" where
  "strip_quotes t = take (unat ((of_nat (length t) :: size_t) - 2)) (drop 1 t)"

lemma strip_quotes_substr: "t \<noteq> [] \<Longrightarrow> substr t 1 (of_nat (length t) - 2) = Ok (strip_quotes t)"
  by (cases t) (simp_all add: substr_def strip_quotes_def)

lemma quoted_loop_shorter: "length (snd (quoted_loop buffer token iss)) \<le> length iss"
proof (induction buffer token iss rule: quoted_loop.induct)
  case (1 buffer token iss)
  show ?case
    by (subst quoted_loop.simps)
      (use 1 in \<open>force split: option.split dest: read_word_shorter\<close>)
qed

function tokens_from :: "string \<Rightarrow> string list" where
  "tokens_from iss =
     (case read_word iss of
        None \<Rightarrow> []
      | Some (token, iss') \<Rightarrow>
          if token \<noteq> [] \<and> hd token = QUOTE
          then let r = quoted_loop token token iss'
               in (if SPACE \<notin> set (fst r) then strip_quotes (fst r) else fst r) # tokens_from (snd r)
          else token # tokens_from iss')"
  by pat_completeness auto
termination
proof (relation "measure length")
  fix iss p token iss' r
  assume "read_word iss = Some p" "(token, iss') = p" "r = quoted_loop token token iss'"
  then show "(snd r, iss) \<in> measure length"
    using quoted_loop_shorter [of token token iss'] by (auto dest: read_word_shorter)
qed (auto dest: read_word_shorter)

declare tokens_from.simps [simp del]

definition tokenize :: "string \<Rightarrow> string list" where
  "tokenize input = tokens_from input"

definition toLower :: "string \<Rightarrow> string" where
  "toLower input = map tolower_char input"

definition printVector :: "string list \<Rightarrow> string" where
  "printVector v = concat (map (\<lambda>elem. elem @ [NL]) v)"

definition printVector_opt :: "string option list \<Rightarrow> string" where
  "printVector_opt v =
     concat (map (\<lambda>elem. case elem of Some e \<Rightarrow> e @ [NL] | None \<Rightarrow> ''(null)'' @ [NL]) v)"

definition contains :: "'a list \<Rightarrow> 'a \<Rightarrow> bool" where
  "contains v value = list_ex (\<lambda>e. e = value) v"

definition contains_opt :: "'a option list \<Rightarrow> 'a \<Rightarrow> bool" where
  "contains_opt v value = list_ex (\<lambda>e. case e of Some x \<Rightarrow> x = value | None \<Rightarrow> False) v"

text \<open>\<^verbatim>\<open>std::put_time\<close> with \<^verbatim>\<open>%y%m%dT%H%M%S\<close>, for the local time that the clock gives.\<close>

record tm =
  tm_year :: nat
  tm_mon :: nat
  tm_mday :: nat
  tm_hour :: nat
  tm_min :: nat
  tm_sec :: nat

definition two_digits :: "nat \<Rightarrow> string" where
  "two_digits n = [digit_char (n div 10 mod 10), digit_char (n mod 10)]"

definition getTimestamp :: "tm \<Rightarrow> string" where
  "getTimestamp time =
     two_digits (tm_year time) @ two_digits (tm_mon time + 1) @ two_digits (tm_mday time) @ ''T''
     @ two_digits (tm_hour time) @ two_digits (tm_min time) @ two_digits (tm_sec time)"

text \<open>Time stamps of different seconds differ within a century.\<close>

lemma two_digits_value: "n < 100 \<Longrightarrow> digits_value (two_digits n) = int n"
proof -
  assume "n < 100"
  then have d: "n div 10 mod 10 = n div 10" by simp
  have "10 * int (n div 10) + int (n mod 10) = int n" by presburger
  then show "digits_value (two_digits n) = int n"
    using digits_value_snoc [of "[digit_char (n div 10 mod 10)]"] digits_value_snoc [of "[]"] d
    by (simp add: two_digits_def digits_value_def)
qed

lemma two_digits_inject: "a < 100 \<Longrightarrow> b < 100 \<Longrightarrow> two_digits a = two_digits b \<longleftrightarrow> a = b"
  by (metis two_digits_value of_nat_eq_iff)

definition calendar :: "tm \<Rightarrow> bool" where
  "calendar time = (tm_mon time < 12 \<and> tm_mday time \<le> 31 \<and> tm_hour time < 24 \<and> tm_min time < 60 \<and> tm_sec time \<le> 60)"

lemma getTimestamp_inject:
  assumes "calendar s" and "calendar t" and "tm_year s div 100 = tm_year t div 100"
  shows "getTimestamp s = getTimestamp t \<longleftrightarrow> s = t"
proof -
  have y: "two_digits n = two_digits (n mod 100)" for n
  proof -
    have m: "n mod 100 = 10 * (n div 10 mod 10) + n mod 10" using mod_mult2_eq [of n 10 10] by simp
    have "n mod 100 div 10 mod 10 = n div 10 mod 10" "n mod 100 mod 10 = n mod 10" unfolding m by simp_all
    then show ?thesis by (simp only: two_digits_def)
  qed
  have len: "length (two_digits n) = 2" for n by (simp add: two_digits_def)
  have "getTimestamp s = getTimestamp t \<longleftrightarrow>
      two_digits (tm_year s) = two_digits (tm_year t)
      \<and> tm_mon s = tm_mon t \<and> tm_mday s = tm_mday t \<and> tm_hour s = tm_hour t \<and> tm_min s = tm_min t \<and> tm_sec s = tm_sec t"
  proof -
    have cut: "two_digits a @ x = two_digits b @ y \<longleftrightarrow> two_digits a = two_digits b \<and> x = y" for a b x y
      by (intro append_eq_append_conv) (simp add: len)
    have small: "a < 100 \<Longrightarrow> b < 100 \<Longrightarrow> (two_digits a = two_digits b) = (a = b)" for a b
      by (rule two_digits_inject)
    show ?thesis
      unfolding getTimestamp_def cut same_append_eq
      using assms(1,2) by (simp add: small calendar_def)
  qed
  also have "\<dots> \<longleftrightarrow> s = t"
  proof -
    have "two_digits (tm_year s) = two_digits (tm_year t) \<longleftrightarrow> tm_year s = tm_year t"
      using y [of "tm_year s"] y [of "tm_year t"] assms(3)
      by (metis two_digits_inject mod_less_divisor zero_less_numeral div_mult_mod_eq)
    then show ?thesis by (auto intro: tm.equality)
  qed
  finally show ?thesis .
qed

section \<open>Words of a line\<close>

function words :: "string \<Rightarrow> string list" where
  "words s = (case read_word s of None \<Rightarrow> [] | Some (w, r) \<Rightarrow> w # words r)"
  by pat_completeness auto
termination
  by (relation "measure length") (auto dest: read_word_shorter)

declare words.simps [simp del]

definition is_word :: "string \<Rightarrow> bool" where
  "is_word w = (w \<noteq> [] \<and> list_all (\<lambda>c. \<not> isspace c) w)"

fun join_words :: "string list \<Rightarrow> string" where
  "join_words [] = []"
| "join_words [w] = w"
| "join_words (w # v # ws) = w @ SPACE # join_words (v # ws)"

lemma join_words_Cons: "ws \<noteq> [] \<Longrightarrow> join_words (w # ws) = w @ SPACE # join_words ws"
  by (cases ws) auto

lemma isAllSpace_iff: "isAllSpace s = list_all isspace s"
  by (induction s) auto

lemma read_word_None: "read_word s = None \<longleftrightarrow> isAllSpace s"
  by (auto simp: read_word_def Let_def isAllSpace_iff dropWhile_eq_Nil_conv list_all_iff)

lemma read_word_is_word: "read_word s = Some (w, r) \<Longrightarrow> is_word w"
proof -
  assume rw: "read_word s = Some (w, r)"
  define s' where "s' = dropWhile isspace s"
  from rw have s': "s' \<noteq> []" and w: "w = takeWhile (\<lambda>c. \<not> isspace c) s'"
    by (auto simp: read_word_def s'_def Let_def split: if_splits)
  then have "\<not> isspace (hd s')" using hd_dropWhile [of isspace s] by (simp add: s'_def)
  with s' w show ?thesis
    by (cases s') (auto simp: is_word_def list_all_iff dest: set_takeWhileD)
qed

lemma words_eq_Nil_iff: "words s = [] \<longleftrightarrow> isAllSpace s"
  by (subst words.simps) (auto split: option.split simp flip: read_word_None)

lemma words_are_words: "list_all is_word (words s)"
proof (induction s rule: words.induct)
  case (1 s)
  then show ?case
    by (subst words.simps) (auto split: option.split intro: read_word_is_word)
qed

lemma read_word_space: "isspace c \<Longrightarrow> read_word (c # s) = read_word s"
  by (simp add: read_word_def)

lemma words_space [simp]: "isspace c \<Longrightarrow> words (c # s) = words s"
  by (simp add: words.simps [of "c # s"] words.simps [of s] read_word_space)

lemma words_Nil [simp]: "words [] = []"
  by (simp add: words_eq_Nil_iff)

lemma read_word_word:
  "is_word w \<Longrightarrow> isspace c \<Longrightarrow> read_word (w @ c # s) = Some (w, c # s)"
  by (cases w) (auto simp: read_word_def is_word_def list_all_iff takeWhile_append2 dropWhile_append2)

lemma read_word_last: "is_word w \<Longrightarrow> read_word w = Some (w, [])"
  by (cases w) (auto simp: read_word_def is_word_def list_all_iff takeWhile_eq_all_conv dropWhile_eq_Nil_conv)

lemma words_word: "is_word w \<Longrightarrow> isspace c \<Longrightarrow> words (w @ c # s) = w # words s"
  by (subst words.simps) (simp add: read_word_word)

lemma words_last: "is_word w \<Longrightarrow> words w = [w]"
  by (subst words.simps) (simp add: read_word_last)

lemma words_join: "list_all is_word ws \<Longrightarrow> words (join_words ws) = ws"
  by (induction ws rule: join_words.induct) (auto simp: words_word words_last)

lemma read_word_split:
  assumes "read_word s = Some (w, r)"
  obtains b where "isAllSpace b" and "s = b @ w @ r" and "r = [] \<or> isspace (hd r)"
proof
  define s' where "s' = dropWhile isspace s"
  from assms have w: "w = takeWhile (\<lambda>c. \<not> isspace c) s'" and r: "r = dropWhile (\<lambda>c. \<not> isspace c) s'"
    by (auto simp: read_word_def s'_def Let_def split: if_splits)
  show "isAllSpace (takeWhile isspace s)"
    by (auto simp: isAllSpace_iff list_all_iff dest: set_takeWhileD)
  show "s = takeWhile isspace s @ w @ r" by (simp add: w r s'_def)
  show "r = [] \<or> isspace (hd r)" using hd_dropWhile [of "\<lambda>c. \<not> isspace c" s'] by (auto simp: r)
qed

lemma words_append_space:
  "isspace c \<Longrightarrow> words (s @ c # r) = words s @ words r"
proof (induction s rule: words.induct)
  case (1 s)
  show ?case
  proof (cases "read_word s")
    case None
    then have "isAllSpace s" by (simp add: read_word_None)
    then have "words (s @ c # r) = words r" using "1.prems" by (induction s) (auto split: if_splits)
    with None show ?thesis by (simp add: words_eq_Nil_iff read_word_None [symmetric])
  next
    case (Some p)
    obtain w q where p: "p = (w, q)" by (cases p)
    obtain b where b: "isAllSpace b" "s = b @ w @ q" "q = [] \<or> isspace (hd q)"
      using read_word_split Some p by blast
    have w: "is_word w" using Some p by (auto intro: read_word_is_word)
    have skip: "words (b @ t) = words t" for t
      using b(1) by (induction b) (auto split: if_splits)
    have "words (s @ c # r) = w # words (q @ c # r)"
    proof (cases q)
      case Nil
      then show ?thesis by (simp add: b(2) skip words_word w "1.prems")
    next
      case (Cons d q')
      then have "isspace d" using b(3) by simp
      with Cons show ?thesis by (simp add: b(2) skip words_word w)
    qed
    also have "\<dots> = w # words q @ words r" using "1.IH" [OF Some] p "1.prems" by simp
    also have "\<dots> = words s @ words r" using Some p by (simp add: words.simps [of s])
    finally show ?thesis .
  qed
qed

lemma words_join_concat: "words (join_words ts) = concat (map words ts)"
  by (induction ts rule: join_words.induct) (auto simp: words_append_space)

end
