(* ===== verification/Tokens.thy ===== *)
theory Tokens
  imports Utils
begin

text \<open>
  What the tokenizer of \<^verbatim>\<open>src/utils.cpp\<close> computes, as a function of the words of a line,
  and when a token survives the way through a line of the log.
\<close>

section \<open>The tokenizer on words\<close>

fun quoted_words :: "string \<Rightarrow> string \<Rightarrow> string list \<Rightarrow> string \<times> string list" where
  "quoted_words b t [] = (b, [])"
| "quoted_words b t (w # ws) =
     (if last t \<noteq> QUOTE then quoted_words (b @ SPACE # w) w ws else (b, w # ws))"

lemma quoted_words_shorter: "length (snd (quoted_words b t ws)) \<le> length ws"
  by (induction b t ws rule: quoted_words.induct) (auto intro: le_SucI)

function group_words :: "string list \<Rightarrow> string list" where
  "group_words [] = []"
| "group_words (w # ws) =
     (if hd w = QUOTE
      then let r = quoted_words w w ws
           in (if SPACE \<notin> set (fst r) then strip_quotes (fst r) else fst r) # group_words (snd r)
      else w # group_words ws)"
  by pat_completeness auto
termination
  by (relation "measure length") (simp_all add: le_imp_less_Suc quoted_words_shorter)

lemma quoted_loop_words:
  "quoted_words b t (words s) = (fst (quoted_loop b t s), words (snd (quoted_loop b t s)))"
proof (induction b t s rule: quoted_loop.induct)
  case (1 b t s)
  show ?case
  proof (cases "read_word s")
    case None
    then have "words s = []" by (simp add: words_eq_Nil_iff read_word_None [symmetric])
    with None show ?thesis by (subst (1 2) quoted_loop.simps) simp
  next
    case (Some p)
    obtain w r where p: "p = (w, r)" by (cases p)
    have ws: "words s = w # words r" using Some p by (simp add: words.simps [of s])
    show ?thesis
      using 1 Some p by (subst (1 2) quoted_loop.simps) (simp add: ws)
  qed
qed

theorem tokenize_group_words: "tokenize s = group_words (words s)"
proof -
  have "tokens_from s = group_words (words s)" for s
  proof (induction s rule: tokens_from.induct)
    case (1 s)
    show ?case
    proof (cases "read_word s")
      case None
      then have "words s = []" by (simp add: words_eq_Nil_iff read_word_None [symmetric])
      with None show ?thesis by (subst tokens_from.simps) simp
    next
      case (Some p)
      obtain w r where p: "p = (w, r)" by (cases p)
      have w: "w \<noteq> []" using Some p by (auto dest: read_word_is_word simp: is_word_def)
      have ws: "words s = w # words r" using Some p by (simp add: words.simps [of s])
      show ?thesis
        using 1 Some p w
        by (subst tokens_from.simps) (simp add: ws Let_def quoted_loop_words)
    qed
  qed
  then show ?thesis by (simp add: tokenize_def)
qed

section \<open>Tokens that survive the log\<close>

text \<open>
  A plain word does not begin with a quotation mark. A quoted group is a list of two or more
  words of which the first begins with a quotation mark and the last, alone, ends with one.
\<close>

definition plain_word :: "string \<Rightarrow> bool" where
  "plain_word w = (is_word w \<and> hd w \<noteq> QUOTE)"

definition quoted_group :: "string list \<Rightarrow> bool" where
  "quoted_group ws =
     (2 \<le> length ws \<and> list_all is_word ws \<and> hd (hd ws) = QUOTE
      \<and> list_all (\<lambda>w. last w \<noteq> QUOTE) (butlast ws) \<and> last (last ws) = QUOTE)"

definition replayable :: "string \<Rightarrow> bool" where
  "replayable t = (plain_word t \<or> (quoted_group (words t) \<and> t = join_words (words t)))"

lemma plain_word_replayable [simp]: "plain_word t \<Longrightarrow> replayable t"
  by (simp add: replayable_def)

lemma words_replayable: "replayable t \<Longrightarrow> words t \<noteq> []"
  by (auto simp: replayable_def plain_word_def quoted_group_def words_last)

lemma quoted_words_group:
  assumes "list_all (\<lambda>w. last w \<noteq> QUOTE) (butlast (t # ws))" and "ws \<noteq> []"
    and "last (last ws) = QUOTE"
  shows "quoted_words b t (ws @ r) = (b @ SPACE # join_words ws, r)"
  using assms
proof (induction ws arbitrary: b t)
  case (Cons w ws)
  show ?case
  proof (cases ws)
    case Nil
    with Cons.prems show ?thesis by (cases r) auto
  next
    case (Cons w' ws')
    then show ?thesis using Cons.prems Cons.IH [of w "b @ SPACE # w"] by (simp add: join_words_Cons)
  qed
qed simp

lemma SPACE_join: "2 \<le> length ws \<Longrightarrow> SPACE \<in> set (join_words ws)"
  by (cases ws rule: join_words.cases) auto

lemma group_words_token:
  assumes "replayable t"
  shows "group_words (words t @ r) = t # group_words r"
proof (cases "plain_word t")
  case True
  then show ?thesis by (auto simp: plain_word_def words_last)
next
  case False
  with assms have q: "quoted_group (words t)" and t: "t = join_words (words t)"
    by (auto simp: replayable_def)
  then obtain w ws where ws: "words t = w # ws" "ws \<noteq> []"
    by (cases "words t" rule: join_words.cases) (auto simp: quoted_group_def)
  have hd: "hd w = QUOTE" using q ws by (simp add: quoted_group_def)
  have "quoted_words w w (ws @ r) = (w @ SPACE # join_words ws, r)"
    using q ws by (intro quoted_words_group) (auto simp: quoted_group_def)
  moreover have "w @ SPACE # join_words ws = t" using t ws by (simp add: join_words_Cons)
  moreover have "SPACE \<in> set t" using t q SPACE_join [of "words t"] by (simp add: quoted_group_def)
  ultimately show ?thesis by (simp add: ws(1) hd)
qed

lemma group_words_tokens:
  "list_all replayable ts \<Longrightarrow> group_words (concat (map words ts) @ r) = ts @ group_words r"
  by (induction ts) (simp_all add: group_words_token)

lemma tokenize_join: "list_all replayable ts \<Longrightarrow> tokenize (join_words ts) = ts"
  using group_words_tokens [of ts "[]"] by (simp add: tokenize_group_words words_join_concat)

text \<open>C18. Writing replayable tokens on a line, one space between them, and tokenizing the
  line gives the tokens back, multi-word quoted tokens included.\<close>
theorem tokenize_roundtrip:
  assumes "list_all replayable ts"
  shows "tokenize (join_words ts) = ts"
  using assms by (rule tokenize_join)

theorem tokenize_roundtrip_witness:
  "tokenize (join_words [''put'', QUOTE # ''hello world'' @ [QUOTE], ''goodbye''])
     = [''put'', QUOTE # ''hello world'' @ [QUOTE], ''goodbye'']"
  by (rule tokenize_roundtrip)
    (simp add: replayable_def plain_word_def quoted_group_def is_word_def isspace_def
      words.simps read_word_def)

section \<open>Which lines give replayable tokens\<close>

lemma group_words_plain:
  "list_all (\<lambda>w. hd w \<noteq> QUOTE) ws \<Longrightarrow> group_words ws = ws"
  by (induction ws) auto

lemma words_chars: "w \<in> set (words s) \<Longrightarrow> set w \<subseteq> set s"
proof (induction s rule: words.induct)
  case (1 s)
  show ?case
  proof (cases "read_word s")
    case None
    with "1.prems" show ?thesis by (simp add: words.simps [of s])
  next
    case (Some p)
    obtain v r where p: "p = (v, r)" by (cases p)
    obtain b where s: "s = b @ v @ r" using Some p by (auto elim: read_word_split)
    have "words s = v # words r" using Some p by (simp add: words.simps [of s])
    with "1.prems" consider "w = v" | "w \<in> set (words r)" by auto
    then show ?thesis using "1.IH" [OF Some] p by cases (auto simp: s)
  qed
qed

lemma no_quote_plain:
  assumes "QUOTE \<notin> set s"
  shows "list_all plain_word (words s)"
proof -
  have "is_word w" if "w \<in> set (words s)" for w
    using words_are_words [of s] that by (simp add: list_all_iff)
  moreover have "hd w \<noteq> QUOTE" if "w \<in> set (words s)" for w
    using words_chars [OF that] assms calculation [OF that] by (cases w) (auto simp: is_word_def)
  ultimately show ?thesis by (simp add: list_all_iff plain_word_def)
qed

text \<open>On a line without quotation marks the tokens are the words of the line, and every
  one of them is replayable.\<close>

lemma tokenize_unquoted:
  assumes "QUOTE \<notin> set s"
  shows "(tokenize s = words s)
    \<and> (list_all replayable (tokenize s))"
proof (intro conjI)
  have plain: "list_all plain_word (words s)" using assms by (rule no_quote_plain)
  then have "group_words (words s) = words s"
    by (intro group_words_plain) (auto simp: plain_word_def list_all_iff)
  then show "tokenize s = words s" by (simp add: tokenize_group_words)
  with plain show "list_all replayable (tokenize s)" by (auto simp: list_all_iff)
qed

lemma group_words_eq_Nil_iff: "group_words ws = [] \<longleftrightarrow> ws = []"
  by (cases ws) (auto simp: Let_def)

text \<open>The tokenizer returns no token exactly for the lines of white space only, so
  \<^verbatim>\<open>parseCommand\<close>, which tests \<^verbatim>\<open>isAllSpace\<close> first, always has a token to read.\<close>

lemma tokenize_empty_iff: "tokenize s = [] \<longleftrightarrow> isAllSpace s"
  by (simp add: tokenize_group_words group_words_eq_Nil_iff words_eq_Nil_iff)

text \<open>A word that opens a quotation and does not close it, at the end of a line, loses
  its last character.\<close>
lemma tokenize_unclosed:
  assumes "is_word w" and "last w \<noteq> QUOTE" and "length w < 2 ^ 63"
  shows "tokenize (QUOTE # w) = [butlast w]"
proof -
  have q: "is_word (QUOTE # w)" using assms(1) by (simp add: is_word_def)
  have "SPACE \<notin> set w" using assms(1) by (auto simp: is_word_def list_all_iff)
  moreover have "strip_quotes (QUOTE # w) = butlast w"
  proof -
    obtain n where n: "length w = Suc n" using assms(1) by (cases w) (auto simp: is_word_def)
    have "(of_nat (length (QUOTE # w)) :: size_t) - 2 = of_nat n" by (simp add: n)
    moreover have "unat (of_nat n :: size_t) = n"
      using assms(3) n by (simp add: unat_of_nat)
    ultimately show ?thesis using n by (simp add: strip_quotes_def butlast_conv_take)
  qed
  ultimately show ?thesis using assms(2) by (simp add: tokenize_group_words words_last [OF q])
qed

end
