(* ===== verification/Operations.thy ===== *)
theory Operations
  imports Tokens
begin

text \<open>\<^verbatim>\<open>include/taproot/operations.h\<close> and \<^verbatim>\<open>src/operations.cpp\<close>: the enumeration of the
  commands that have a record in the log, and its tables.\<close>

datatype Ops = PUT | DEL | GET | MGET

definition strToOp :: "string \<rightharpoonup> Ops" where
  "strToOp = map_of [(''put'', PUT), (''del'', DEL), (''get'', GET), (''mget'', MGET)]"

definition opToStr :: "Ops \<rightharpoonup> string" where
  "opToStr = map_of [(PUT, ''put''), (DEL, ''del''), (GET, ''get''), (MGET, ''mget'')]"

definition convertStr :: "string \<Rightarrow> Ops outcome" where
  "convertStr str =
     (let str = toLower str
      in case strToOp str of
           Some op \<Rightarrow> Ok op
         | None \<Rightarrow> Throw (''Unknown operation: '' @ str))"

text \<open>The scoped enumeration is ordered by its enumerators, as C++ compares them.\<close>

primrec ops_rank :: "Ops \<Rightarrow> nat" where
  "ops_rank PUT = 0" | "ops_rank DEL = 1" | "ops_rank GET = 2" | "ops_rank MGET = 3"

instantiation Ops :: linorder
begin

definition less_eq_Ops :: "Ops \<Rightarrow> Ops \<Rightarrow> bool" where
  "less_eq_Ops a b = (ops_rank a \<le> ops_rank b)"

definition less_Ops :: "Ops \<Rightarrow> Ops \<Rightarrow> bool" where
  "less_Ops a b = (ops_rank a < ops_rank b)"

instance
proof
  fix a b :: Ops
  show "a \<le> b \<Longrightarrow> b \<le> a \<Longrightarrow> a = b"
    by (cases a; cases b) (simp_all add: less_eq_Ops_def)
qed (auto simp: less_eq_Ops_def less_Ops_def)

end

lemma convertStr_simps [simp]:
  "convertStr ''put'' = Ok PUT" "convertStr ''del'' = Ok DEL"
  by (simp_all add: convertStr_def strToOp_def toLower_def tolower_char_def)

lemma toLower_idem: "toLower (toLower s) = toLower s"
  by (simp add: toLower_def)

text \<open>The two tables are inverse to each other, conversion accepts exactly the names of
  the table in any case of letters, and reports the lower-case name otherwise.\<close>
lemma convertStr_correct:
  "(opToStr op = Some s \<longleftrightarrow> strToOp s = Some op)
    \<and> (convertStr s = Ok op \<longleftrightarrow> opToStr op = Some (toLower s))
    \<and> (convertStr (toLower s) = convertStr s)
    \<and> (strToOp (toLower s) = None \<longrightarrow> convertStr s = Throw (''Unknown operation: '' @ toLower s))"
proof (intro conjI)
  have inv: "opToStr op = Some s \<longleftrightarrow> strToOp s = Some op" for op s
    by (cases op) (auto simp: opToStr_def strToOp_def)
  then show "opToStr op = Some s \<longleftrightarrow> strToOp s = Some op" .
  show "convertStr s = Ok op \<longleftrightarrow> opToStr op = Some (toLower s)"
    by (simp add: inv convertStr_def Let_def split: option.split)
  show "convertStr (toLower s) = convertStr s" by (simp add: convertStr_def toLower_idem)
  show "strToOp (toLower s) = None \<longrightarrow> convertStr s = Throw (''Unknown operation: '' @ toLower s)"
    by (simp add: convertStr_def)
qed

end
