(* ===== verification/File_System.thy ===== *)
theory File_System
  imports Operations
begin

text \<open>
  The part of the POSIX file system and of \<^verbatim>\<open>std::ofstream\<close>, \<^verbatim>\<open>std::ifstream\<close> and
  \<^verbatim>\<open>std::filesystem\<close> the program uses. A directory entry names an inode and an open
  stream holds an inode, not a name: renaming another file over a path leaves a stream that
  was opened before attached to the old inode. Opening for writing can fail (the \<^verbatim>\<open>logs\<close>
  directory is missing, no permission); a write to an open file does not.
\<close>

record fs =
  dirents :: "string \<rightharpoonup> nat"
  inodes :: "nat \<Rightarrow> string"
  fresh :: nat
  writable :: "string \<Rightarrow> bool"

definition wf_fs :: "fs \<Rightarrow> bool" where
  "wf_fs s = ((\<forall>p i. dirents s p = Some i \<longrightarrow> i < fresh s)
     \<and> (\<forall>p q i. dirents s p = Some i \<longrightarrow> dirents s q = Some i \<longrightarrow> p = q))"

definition fs_create :: "string \<Rightarrow> fs \<Rightarrow> fs" where
  "fs_create p s = s\<lparr>dirents := (dirents s)(p \<mapsto> fresh s),
     inodes := (inodes s)(fresh s := []), fresh := Suc (fresh s)\<rparr>"

text \<open>\<^verbatim>\<open>open(p, O_WRONLY | O_CREAT | O_APPEND)\<close> and \<^verbatim>\<open>ofstream(p, ios::app)\<close>: the inode, if it opens.\<close>

definition open_append :: "string \<Rightarrow> fs \<Rightarrow> nat option \<times> fs" where
  "open_append p s =
     (if \<not> writable s p then (None, s)
      else case dirents s p of
             Some i \<Rightarrow> (Some i, s)
           | None \<Rightarrow> (Some (fresh s), fs_create p s))"

text \<open>\<^verbatim>\<open>ofstream(p)\<close>, \<^verbatim>\<open>ofstream(p, ios::out | ios::trunc)\<close>: the file is emptied or created.\<close>

definition open_trunc :: "string \<Rightarrow> fs \<Rightarrow> nat option \<times> fs" where
  "open_trunc p s =
     (if \<not> writable s p then (None, s)
      else case dirents s p of
             Some i \<Rightarrow> (Some i, s\<lparr>inodes := (inodes s)(i := [])\<rparr>)
           | None \<Rightarrow> (Some (fresh s), fs_create p s))"

definition append_inode :: "nat \<Rightarrow> string \<Rightarrow> fs \<Rightarrow> fs" where
  "append_inode i t s = s\<lparr>inodes := (inodes s)(i := inodes s i @ t)\<rparr>"

text \<open>A write through a stream that may be closed: a closed stream drops it.\<close>

definition stream_write :: "nat option \<Rightarrow> string \<Rightarrow> fs \<Rightarrow> fs" where
  "stream_write h t s = (case h of None \<Rightarrow> s | Some i \<Rightarrow> append_inode i t s)"

definition read_file :: "string \<Rightarrow> fs \<Rightarrow> string option" where
  "read_file p s = map_option (inodes s) (dirents s p)"

definition fs_rename :: "string \<Rightarrow> string \<Rightarrow> fs \<Rightarrow> unit outcome \<times> fs" where
  "fs_rename p q s =
     (case dirents s p of
        None \<Rightarrow> (Throw ''filesystem error: cannot rename: No such file or directory'', s)
      | Some i \<Rightarrow> (Ok (), if p = q then s else s\<lparr>dirents := (dirents s)(p := None, q \<mapsto> i)\<rparr>))"

text \<open>A file written from scratch: what opening with truncation, writing and closing leave.\<close>

definition write_file :: "string \<Rightarrow> string \<Rightarrow> fs \<Rightarrow> fs" where
  "write_file p t s = (let r = open_trunc p s in stream_write (fst r) t (snd r))"

text \<open>A file system without files in which every path can be written.\<close>

definition empty_fs :: fs where
  "empty_fs = \<lparr>dirents = Map.empty, inodes = (\<lambda>_. []), fresh = 0, writable = (\<lambda>_. True)\<rparr>"

lemma empty_fs_simps [simp]:
  "wf_fs empty_fs" "writable empty_fs p" "dirents empty_fs = Map.empty" "fresh empty_fs = 0"
  by (simp_all add: wf_fs_def empty_fs_def)

section \<open>Laws\<close>

lemma wf_fs_inj: "wf_fs s \<Longrightarrow> dirents s p = Some i \<Longrightarrow> dirents s q = Some i \<Longrightarrow> p = q"
  by (auto simp: wf_fs_def)

lemma wf_fs_fresh: "wf_fs s \<Longrightarrow> dirents s p = Some i \<Longrightarrow> i < fresh s"
  by (auto simp: wf_fs_def)

lemma wf_fs_not_fresh: "wf_fs s \<Longrightarrow> dirents s p \<noteq> Some (fresh s)"
  by (auto simp: wf_fs_def)

lemma wf_fs_create: "wf_fs s \<Longrightarrow> wf_fs (fs_create p s)"
  unfolding wf_fs_def fs_create_def by (auto simp: less_Suc_eq)

lemma wf_open_append: "wf_fs s \<Longrightarrow> wf_fs (snd (open_append p s))"
  by (auto simp: open_append_def wf_fs_create split: option.split)

lemma wf_inodes_update [simp]: "wf_fs (s\<lparr>inodes := c\<rparr>) = wf_fs s"
  by (simp add: wf_fs_def)

lemma wf_open_trunc: "wf_fs s \<Longrightarrow> wf_fs (snd (open_trunc p s))"
  by (auto simp: open_trunc_def wf_fs_create split: option.split)

lemma wf_append_inode [simp]: "wf_fs (append_inode i t s) = wf_fs s"
  by (simp add: append_inode_def)

lemma wf_stream_write [simp]: "wf_fs (stream_write h t s) = wf_fs s"
  by (simp add: stream_write_def split: option.split)

lemma wf_write_file: "wf_fs s \<Longrightarrow> wf_fs (write_file p t s)"
  by (simp add: write_file_def Let_def wf_open_trunc)

lemma wf_fs_rename: "wf_fs s \<Longrightarrow> wf_fs (snd (fs_rename p q s))"
  by (auto simp: fs_rename_def wf_fs_def split: option.split)

lemmas wf_fs_intros = wf_open_append wf_open_trunc wf_write_file wf_fs_rename

lemma writable_simps [frame_simps, simp]:
  "writable (fs_create p s) = writable s"
  "writable (snd (open_append p s)) = writable s"
  "writable (snd (open_trunc p s)) = writable s"
  "writable (append_inode i t s) = writable s"
  "writable (stream_write h t s) = writable s"
  "writable (write_file p t s) = writable s"
  "writable (snd (fs_rename p q s)) = writable s"
  by (simp_all add: fs_create_def open_append_def open_trunc_def append_inode_def stream_write_def
      write_file_def fs_rename_def Let_def split: option.split)

lemma dirents_simps [frame_simps, simp]:
  "dirents (append_inode i t s) = dirents s"
  "dirents (stream_write h t s) = dirents s"
  by (simp_all add: append_inode_def stream_write_def split: option.split)

lemma read_file_None: "dirents s p = None \<Longrightarrow> read_file p s = None"
  and read_file_Some: "dirents s p = Some i \<Longrightarrow> read_file p s = Some (inodes s i)"
  by (simp_all add: read_file_def)

lemma read_write_file:
  "wf_fs s \<Longrightarrow> read_file q (write_file p t s) = (if p = q \<and> writable s p then Some t else read_file q s)"
  by (cases "dirents s p")
    (auto simp: read_file_def write_file_def open_trunc_def fs_create_def stream_write_def
      append_inode_def Let_def wf_fs_not_fresh dest: wf_fs_inj
      intro!: option.map_cong0)

lemma read_append_inode:
  assumes "wf_fs s" and "dirents s p = Some i"
  shows "read_file q (append_inode i t s) = (if p = q then map_option (\<lambda>c. c @ t) (read_file q s) else read_file q s)"
  using assms by (cases "dirents s q") (auto simp: read_file_def append_inode_def dest: wf_fs_inj)

lemma read_append_orphan:
  "\<forall>p. dirents s p \<noteq> Some i \<Longrightarrow> read_file q (append_inode i t s) = read_file q s"
  by (cases "dirents s q") (auto simp: read_file_def append_inode_def)

lemma read_open_append:
  assumes "wf_fs s"
  shows "read_file q (snd (open_append p s)) =
    (if p = q \<and> writable s p \<and> dirents s p = None then Some [] else read_file q s)"
  using assms wf_fs_not_fresh [OF assms, of q]
  by (cases "dirents s p"; cases "dirents s q") (auto simp: read_file_def open_append_def fs_create_def)

lemma open_append_entry:
  "fst (open_append p s) = Some i \<Longrightarrow> dirents (snd (open_append p s)) p = Some i"
  by (auto simp: open_append_def fs_create_def split: if_splits option.splits)

lemma open_append_again: "fst (open_append p s) = Some i \<Longrightarrow>
    open_append p (snd (open_append p s)) = (Some i, snd (open_append p s))"
  by (auto simp: open_append_def fs_create_def split: if_splits option.splits)

lemma fst_open_append: "(fst (open_append p s) = None) = (\<not> writable s p)"
  by (simp add: open_append_def split: option.split)

lemma fst_open_trunc: "(fst (open_trunc p s) = None) = (\<not> writable s p)"
  by (simp add: open_trunc_def split: option.split)

lemma read_rename:
  "dirents s p = Some i \<Longrightarrow> p \<noteq> q \<Longrightarrow>
   read_file r (snd (fs_rename p q s)) =
     (if r = q then read_file p s else if r = p then None else read_file r s)"
  by (simp add: fs_rename_def read_file_def)

end
