(* ===== verification/Log.thy ===== *)
theory Log
  imports File_System
begin

text \<open>
  The class \<^verbatim>\<open>Log\<close> of \<^verbatim>\<open>include/taproot/log.h\<close> and \<^verbatim>\<open>src/log.cpp\<close> without its snapshot
  (theory Snapshot) and with one iteration of the flush thread as an atomic operation; the
  steps of the threads on the buffer are in theory Log_Threads.
  \<^verbatim>\<open>keyspaceName\<close> is a reference in the code: the model keeps the text it refers to, or
  \<open>None\<close> once that string object is gone.
\<close>

section \<open>State\<close>

record Log =
  keyspaceName :: "string option"
  logFilepath :: string
  dbFilepath :: string
  logfile :: "nat option"
  logBuffer :: string
  stopFlushThread :: bool
  fileDescriptor :: "nat option"

definition db_path :: "string \<Rightarrow> string" where
  "db_path keyspace = ''logs/'' @ keyspace @ ''.db''"

definition aof_path :: "string \<Rightarrow> string" where
  "aof_path keyspace = ''logs/'' @ keyspace @ ''.aof''"

definition temp_path :: "string \<Rightarrow> string" where
  "temp_path keyspace = ''logs/'' @ keyspace @ ''_temp.aof''"

section \<open>Operations\<close>

definition Log_ctor :: "string \<Rightarrow> fs \<Rightarrow> Log outcome \<times> fs" where
  "Log_ctor keyspace s =
     (let dbp = db_path keyspace;
          logp = aof_path keyspace;
          (fd, s1) = open_append logp s
      in case fd of
           None \<Rightarrow> (Throw ''Failed to open log file descriptor.'', s1)
         | Some i \<Rightarrow>
             (let (lf, s2) = open_append logp s1
              in (Ok \<lparr>keyspaceName = Some keyspace, logFilepath = logp, dbFilepath = dbp,
                      logfile = lf, logBuffer = [], stopFlushThread = False,
                      fileDescriptor = Some i\<rparr>, s2)))"

definition getDbFilepath :: "Log \<Rightarrow> string" where "getDbFilepath L = dbFilepath L"

definition getLogFilepath :: "Log \<Rightarrow> string" where "getLogFilepath L = logFilepath L"

text \<open>One iteration of the loop in \<^verbatim>\<open>startAppendFlusher\<close>.\<close>

definition flush_iteration :: "Log \<times> fs \<Rightarrow> Log \<times> fs" where
  "flush_iteration = (\<lambda>(L, s).
     if stopFlushThread L then (L, s)
     else if logBuffer L = [] then (L, s)
     else (L\<lparr>logBuffer := []\<rparr>, stream_write (logfile L) (logBuffer L) s))"

text \<open>The record of a command: the \<^verbatim>\<open>switch\<close> of \<^verbatim>\<open>appendCommand\<close>.\<close>

fun log_line :: "Ops \<Rightarrow> string \<Rightarrow> string \<Rightarrow> string outcome" where
  "log_line PUT key value = Ok (''put '' @ key @ '' '' @ value @ [NL])"
| "log_line DEL key value = Ok (''del '' @ key @ [NL])"
| "log_line _ key value = Throw ''Cannot recognize command to be appended.''"

definition appendCommand :: "Ops \<Rightarrow> string \<Rightarrow> string \<Rightarrow> Log \<Rightarrow> unit outcome \<times> Log" where
  "appendCommand op key value L =
     (if logfile L = None
      then (case keyspaceName L of None \<Rightarrow> Fault Dangling_reference | Some _ \<Rightarrow> Ok (), L)
      else case log_line op key value of
             Inl e \<Rightarrow> (Inl e, L)
           | Inr line \<Rightarrow> (Ok (), L\<lparr>logBuffer := logBuffer L @ line\<rparr>))"

text \<open>The text of a compacted log.\<close>

definition compact_text :: "table \<Rightarrow> string" where
  "compact_text state = concat (map (\<lambda>(k, v). ''put '' @ k @ '' '' @ v @ [NL]) state)"

definition compactLog :: "table \<Rightarrow> size_t \<Rightarrow> Log \<Rightarrow> fs \<Rightarrow> unit outcome \<times> fs" where
  "compactLog state dirty L s =
     (if dirty \<le> 0 \<or> state = [] then (Ok (), s)
      else case keyspaceName L of
             None \<Rightarrow> (Fault Dangling_reference, s)
           | Some keyspace \<Rightarrow>
               (let tempAof = temp_path keyspace;
                    s1 = write_file tempAof (compact_text state) s
                in fs_rename tempAof (logFilepath L) s1))"

definition closeLog :: "Log \<Rightarrow> fs \<Rightarrow> Log \<times> fs" where
  "closeLog L s =
     (let L1 = L\<lparr>stopFlushThread := True\<rparr>;
          (L2, s2) = (if logBuffer L1 \<noteq> []
                      then (L1\<lparr>logBuffer := []\<rparr>, stream_write (logfile L1) (logBuffer L1) s)
                      else (L1, s))
      in (L2\<lparr>logfile := None, fileDescriptor := None\<rparr>, s2))"

definition Log_dtor :: "Log \<Rightarrow> fs \<Rightarrow> Log \<times> fs" where
  "Log_dtor L s = (if \<not> stopFlushThread L then closeLog L s else (L, s))"

section \<open>Basic facts\<close>

lemma path_simps [simp]:
  "aof_path a = aof_path b \<longleftrightarrow> a = b" "db_path a = db_path b \<longleftrightarrow> a = b"
  "temp_path a = temp_path b \<longleftrightarrow> a = b"
  by (simp_all add: aof_path_def db_path_def temp_path_def)

lemma last_paths [simp]: "last (aof_path a) = CHR ''f''" "last (db_path a) = CHR ''b''"
  "last (temp_path a) = CHR ''f''"
  by (simp_all add: aof_path_def db_path_def temp_path_def)

lemma last_neqI: "last p \<noteq> last q \<Longrightarrow> p \<noteq> q"
  by auto

lemma path_neq [simp]:
  "aof_path a \<noteq> db_path b" "db_path b \<noteq> aof_path a" "temp_path a \<noteq> db_path b" "db_path b \<noteq> temp_path a"
  by (rule last_neqI, simp)+

lemma temp_path_aof: "temp_path a = aof_path (a @ ''_temp'')"
  by (simp add: temp_path_def aof_path_def)

lemma temp_path_neq [simp]: "temp_path a \<noteq> aof_path a" "aof_path a \<noteq> temp_path a"
  by (simp_all add: temp_path_aof)

lemma log_line_words:
  "log_line PUT k v = Ok (join_words [''put'', k, v] @ [NL])"
  "log_line DEL k v = Ok (join_words [''del'', k] @ [NL])"
  by simp_all

lemma compact_text_unlines:
  "compact_text state = unlines (map (\<lambda>(k, v). join_words [''put'', k, v]) state)"
  by (induction state) (auto simp: compact_text_def)

lemma appendCommand_open:
  "logfile L = Some i \<Longrightarrow> appendCommand PUT k v L =
     (Ok (), L\<lparr>logBuffer := logBuffer L @ join_words [''put'', k, v] @ [NL]\<rparr>)"
  "logfile L = Some i \<Longrightarrow> appendCommand DEL k v L =
     (Ok (), L\<lparr>logBuffer := logBuffer L @ join_words [''del'', k] @ [NL]\<rparr>)"
  by (simp_all add: appendCommand_def)

end
