(* ===== verification/Snapshot.thy ===== *)
theory Snapshot
  imports Log
begin

text \<open>
  \<^verbatim>\<open>Log::writeBinarySnapshot\<close> and \<^verbatim>\<open>Log::compress\<close> of \<^verbatim>\<open>src/log.cpp\<close>. Sizes are 64-bit
  and are written in the byte order of a little-endian machine; a file is a string of bytes.
  The compressor is a parameter here (theory LZ4 has the one that is linked): it takes the source, the
  size it is told, and the capacity of the destination, and returns what the function
  returns together with the destination buffer. The program has no reader of snapshots; the
  reader here is the specification the written bytes are measured against.
\<close>

section \<open>Writing\<close>

definition le64 :: "size_t \<Rightarrow> string" where
  "le64 w = map (\<lambda>i. char_of (unat (drop_bit (8 * i) w))) [0..<8]"

definition enc_string :: "string \<Rightarrow> string" where
  "enc_string s = le64 (of_nat (length s)) @ s"

definition enc_entry :: "string \<times> string \<Rightarrow> string" where
  "enc_entry = (\<lambda>(key, value). enc_string key @ enc_string value)"

definition serialize :: "table \<Rightarrow> string" where
  "serialize state = ''TDB'' @ le64 (of_nat (length state)) @ concat (map enc_entry state)"

definition COMPRESSION_THRESHOLD :: nat where
  "COMPRESSION_THRESHOLD = 10 * 1024 * 1024"

definition to_u8 :: "string \<Rightarrow> u8 list" where "to_u8 s = map (\<lambda>c. of_nat (of_char c)) s"
definition from_u8 :: "u8 list \<Rightarrow> string" where "from_u8 bs = map (\<lambda>b. char_of (unat b)) bs"

text \<open>A conversion of a \<^verbatim>\<open>size_t\<close> to \<^verbatim>\<open>int\<close> keeps the low 32 bits.\<close>

definition to_int32 :: "nat \<Rightarrow> int" where
  "to_int32 n = sint (of_nat n :: 32 word)"

definition LZ4_MAX_INPUT_SIZE :: int where
  "LZ4_MAX_INPUT_SIZE = 0x7E000000"

definition LZ4_compressBound :: "int \<Rightarrow> int" where
  "LZ4_compressBound isize =
     (if uint (of_int isize :: 32 word) > LZ4_MAX_INPUT_SIZE then 0 else isize + isize div 255 + 16)"

type_synonym lz4 = "u8 list \<Rightarrow> int \<Rightarrow> int \<Rightarrow> int \<times> u8 list"

definition compress :: "lz4 \<Rightarrow> u8 list \<Rightarrow> u8 list outcome" where
  "compress lz4 input =
     (if input = [] then Ok []
      else let maxCompressedSize = LZ4_compressBound (to_int32 (length input));
               (compressedSize, compressed) = lz4 input (to_int32 (length input)) maxCompressedSize
           in if compressedSize \<le> 0 then Throw ''Cannot compress data.''
              else Ok (take (nat compressedSize)
                        (compressed @ replicate (nat compressedSize - length compressed) 0)))"

definition snapshot_bytes :: "lz4 \<Rightarrow> string \<Rightarrow> string outcome" where
  "snapshot_bytes lz4 serialized =
     (if length serialized > COMPRESSION_THRESHOLD
      then let input = to_u8 serialized
           in case compress lz4 input of
                Inl e \<Rightarrow> Inl e
              | Inr compressed \<Rightarrow>
                  if length compressed < length input
                  then Ok (CHR 0x01 # le64 (of_nat (length input)) @ from_u8 compressed)
                  else Ok (CHR 0x00 # from_u8 input)
      else Ok serialized)"

definition writeBinarySnapshot :: "lz4 \<Rightarrow> table \<Rightarrow> Log \<Rightarrow> fs \<Rightarrow> unit outcome \<times> fs" where
  "writeBinarySnapshot lz4 state L s =
     (let serialized = serialize state;
          (writer, s1) = open_trunc (dbFilepath L) s
      in case writer of
           None \<Rightarrow> (Ok (), s1)
         | Some i \<Rightarrow>
             (case snapshot_bytes lz4 serialized of
                Inl e \<Rightarrow> (Inl e, s1)
              | Inr out \<Rightarrow> (Ok (), append_inode i out s1)))"

section \<open>Codecs\<close>

text \<open>
  An encoding with a decoder that reads one value off the front of the bytes and returns the
  rest. The laws compose: pairs and counted lists of encoded values are encodings again.
\<close>

type_synonym 'a decoder = "string \<Rightarrow> ('a \<times> string) option"

fun dec_list :: "'a decoder \<Rightarrow> nat \<Rightarrow> string \<Rightarrow> ('a list \<times> string) option" where
  "dec_list dec 0 bytes = Some ([], bytes)"
| "dec_list dec (Suc n) bytes =
     (case dec bytes of
        None \<Rightarrow> None
      | Some (a, rest) \<Rightarrow> map_option (\<lambda>(as, r). (a # as, r)) (dec_list dec n rest))"

definition dec_pair :: "'a decoder \<Rightarrow> 'b decoder \<Rightarrow> ('a \<times> 'b) decoder" where
  "dec_pair da db bytes =
     (case da bytes of
        None \<Rightarrow> None
      | Some (a, rest) \<Rightarrow> map_option (\<lambda>(b, r). ((a, b), r)) (db rest))"

locale codec =
  fixes enc :: "'a \<Rightarrow> string" and dec :: "'a decoder" and ok :: "'a \<Rightarrow> bool"
  assumes dec_enc: "ok a \<Longrightarrow> dec (enc a @ r) = Some (a, r)"
begin

lemma dec_list_enc: "list_all ok xs \<Longrightarrow> dec_list dec (length xs) (concat (map enc xs) @ r) = Some (xs, r)"
proof (induction xs)
  case (Cons x xs)
  have "dec (enc x @ concat (map enc xs) @ r) = Some (x, concat (map enc xs) @ r)"
    using Cons.prems by (intro dec_enc) simp
  then show ?case using Cons by simp
qed simp

lemma enc_unique: "ok a \<Longrightarrow> ok b \<Longrightarrow> enc a @ r = enc b @ r' \<Longrightarrow> a = b \<and> r = r'"
  by (metis dec_enc option.inject prod.inject)

end

locale codec_pair = A: codec enc_a dec_a ok_a + B: codec enc_b dec_b ok_b
  for enc_a :: "'a \<Rightarrow> string" and dec_a ok_a and enc_b :: "'b \<Rightarrow> string" and dec_b ok_b

sublocale codec_pair \<subseteq> codec "\<lambda>(a, b). enc_a a @ enc_b b" "dec_pair dec_a dec_b" "\<lambda>(a, b). ok_a a \<and> ok_b b"
proof unfold_locales
  fix p :: "'a \<times> 'b" and r
  assume ok: "case p of (a, b) \<Rightarrow> ok_a a \<and> ok_b b"
  obtain a b where p: "p = (a, b)" by (cases p)
  have "dec_a (enc_a a @ enc_b b @ r) = Some (a, enc_b b @ r)" and "dec_b (enc_b b @ r) = Some (b, r)"
    using ok p A.dec_enc B.dec_enc by simp_all
  then show "dec_pair dec_a dec_b ((case p of (a, b) \<Rightarrow> enc_a a @ enc_b b) @ r) = Some (p, r)"
    by (simp only: p prod.case append_assoc dec_pair_def option.case option.map)
qed

section \<open>Reading\<close>

definition word_of_le :: "string \<Rightarrow> size_t" where
  "word_of_le bs = of_nat (\<Sum>i<8. of_char (bs ! i) * 256 ^ i)"

definition dec64 :: "size_t decoder" where
  "dec64 bytes = (if length bytes < 8 then None else Some (word_of_le (take 8 bytes), drop 8 bytes))"

definition dec_string :: "string decoder" where
  "dec_string bytes =
     (case dec64 bytes of
        None \<Rightarrow> None
      | Some (n, rest) \<Rightarrow>
          if length rest < unat n then None else Some (take (unat n) rest, drop (unat n) rest))"

definition deserialize :: "string \<Rightarrow> table option" where
  "deserialize bytes =
     (if take 3 bytes \<noteq> ''TDB'' then None
      else case dec64 (drop 3 bytes) of
             None \<Rightarrow> None
           | Some (n, rest) \<Rightarrow>
               (case dec_list (dec_pair dec_string dec_string) (unat n) rest of
                  Some (state, []) \<Rightarrow> Some state
                | _ \<Rightarrow> None))"

text \<open>\<open>unlz4 payload n\<close> is decompression to \<open>n\<close> bytes.\<close>

definition read_snapshot :: "(u8 list \<Rightarrow> nat \<Rightarrow> u8 list option) \<Rightarrow> string \<Rightarrow> table option" where
  "read_snapshot unlz4 bytes =
     (case bytes of
        [] \<Rightarrow> None
      | c # rest \<Rightarrow>
          if c = CHR 0x00 then deserialize rest
          else if c = CHR 0x01
          then (case dec64 rest of
                  None \<Rightarrow> None
                | Some (n, payload) \<Rightarrow>
                    (case unlz4 (to_u8 payload) (unat n) of
                       None \<Rightarrow> None
                     | Some raw \<Rightarrow> deserialize (from_u8 raw)))
          else deserialize bytes)"

section \<open>Correctness of the format\<close>

lemma length_le64 [simp]: "length (le64 w) = 8"
  by (simp add: le64_def)

lemma sum_bytes: "(\<Sum>i<k. (n div 256 ^ i) mod 256 * 256 ^ i) = n mod 256 ^ k" for n :: nat
proof (induction k)
  case (Suc k)
  have "n mod 256 ^ Suc k = n mod (256 ^ k * 256)" by (simp add: mult.commute)
  also have "\<dots> = 256 ^ k * (n div 256 ^ k mod 256) + n mod 256 ^ k" by (rule mod_mult2_eq)
  finally show ?case using Suc by (simp add: mult.commute)
qed simp

lemma nth_le64: "i < 8 \<Longrightarrow> (of_char (le64 w ! i) :: nat) = unat w div 256 ^ i mod 256"
proof -
  assume i: "i < 8"
  have "(2::nat) ^ (8 * i) = 256 ^ i" by (simp add: power_mult)
  moreover have "(of_char (le64 w ! i) :: nat) = drop_bit (8 * i) (unat w) mod 256"
    using i by (simp add: le64_def unat_drop_bit_eq)
  ultimately show ?thesis by (simp add: drop_bit_eq_div)
qed

lemma word_of_le64 [simp]: "word_of_le (le64 w) = w"
proof -
  have "(\<Sum>i<8. of_char (le64 w ! i) * 256 ^ i) = (\<Sum>i<8. unat w div 256 ^ i mod 256 * 256 ^ i)"
    by (rule sum.cong) (simp_all add: nth_le64)
  also have "\<dots> = unat w mod 256 ^ 8" by (rule sum_bytes)
  also have "\<dots> = unat w" using unsigned_less [of w, where ?'a = nat] by simp
  finally show ?thesis by (simp add: word_of_le_def)
qed

interpretation size_codec: codec le64 dec64 "\<lambda>_. True"
  by unfold_locales (simp add: dec64_def)

definition fits :: "string \<Rightarrow> bool" where
  "fits s = (length s < 2 ^ 64)"

lemma unat_of_length: "n < 2 ^ 64 \<Longrightarrow> unat (of_nat n :: size_t) = n"
  by (simp add: unat_of_nat)

interpretation string_codec: codec enc_string dec_string fits
  by unfold_locales
    (simp add: enc_string_def dec_string_def size_codec.dec_enc fits_def unat_of_length)

interpretation entry_codec: codec_pair enc_string dec_string fits enc_string dec_string fits
  by unfold_locales

lemma enc_entry_pair: "enc_entry = (\<lambda>(a, b). enc_string a @ enc_string b)"
  by (simp add: enc_entry_def)

definition table_fits :: "table \<Rightarrow> bool" where
  "table_fits state = (length state < 2 ^ 64 \<and> list_all (\<lambda>(k, v). fits k \<and> fits v) state)"

lemma deserialize_serialize: "table_fits state \<Longrightarrow> deserialize (serialize state) = Some state"
  using entry_codec.dec_list_enc [of state "[]"]
  by (simp add: deserialize_def serialize_def size_codec.dec_enc table_fits_def unat_of_length
      enc_entry_pair)

lemma u8_roundtrip [simp]: "from_u8 (to_u8 s) = s" "to_u8 (from_u8 bs) = bs"
proof -
  have c: "char_of (unat (of_nat (of_char c) :: u8)) = c" for c
    by (simp add: unat_of_nat)
  have b: "(of_nat (of_char (char_of (unat b) :: char)) :: u8) = b" for b :: u8
    using unsigned_less [of b, where ?'a = nat] by simp
  show "from_u8 (to_u8 s) = s" by (simp add: from_u8_def to_u8_def o_def c)
  show "to_u8 (from_u8 bs) = bs" unfolding from_u8_def to_u8_def map_map o_def by (rule map_idI) (rule b)
qed

lemma length_u8 [simp]: "length (to_u8 s) = length s" "length (from_u8 bs) = length bs"
  by (simp_all add: to_u8_def from_u8_def)

section \<open>Properties of the snapshot\<close>

lemma to_int32_small: "n < 2 ^ 31 \<Longrightarrow> to_int32 n = int n"
  by (simp add: to_int32_def signed_of_nat signed_take_bit_int_eq_self)

lemma read_plain: "length state < 2 ^ 64 \<Longrightarrow> read_snapshot unlz4 (serialize state) = deserialize (serialize state)"
  by (simp add: read_snapshot_def serialize_def)

lemma length_serialize: "length (serialize state) = 11 + (\<Sum>(k, v)\<leftarrow>state. 16 + length k + length v)"
proof -
  have "length (concat (map enc_entry state)) = (\<Sum>(k, v)\<leftarrow>state. 16 + length k + length v)"
    by (induction state) (auto simp: enc_entry_def enc_string_def)
  then show ?thesis by (simp add: serialize_def)
qed

text \<open>The size of a snapshot: 11 bytes and 16 for each entry besides the text, and what
  is written to the file exceeds that by at most 8 bytes whatever LZ4 answers; up to the
  threshold of 10 MiB it is the serialized state itself.\<close>

lemma snapshot_size:
  "(length (serialize state) = 11 + (\<Sum>(k, v)\<leftarrow>state. 16 + length k + length v))
    \<and> (length (serialize state) \<le> COMPRESSION_THRESHOLD \<longrightarrow>
     snapshot_bytes lz4 (serialize state) = Ok (serialize state))
    \<and> (snapshot_bytes lz4 (serialize state) = Ok out \<longrightarrow> length out \<le> length (serialize state) + 8)"
proof (intro conjI)
  show "length (serialize state) = 11 + (\<Sum>(k, v)\<leftarrow>state. 16 + length k + length v)"
    by (rule length_serialize)
  show "length (serialize state) \<le> COMPRESSION_THRESHOLD \<longrightarrow>
      snapshot_bytes lz4 (serialize state) = Ok (serialize state)"
    by (simp add: snapshot_bytes_def)
  show "snapshot_bytes lz4 (serialize state) = Ok out \<longrightarrow> length out \<le> length (serialize state) + 8"
    by (auto simp: snapshot_bytes_def Let_def split: if_splits sum.splits)
qed

lemma uint_to_int32: "uint (of_int (to_int32 n) :: 32 word) = int n mod 2 ^ 32"
  by (simp add: to_int32_def flip: take_bit_eq_mod) (simp add: unsigned_of_nat take_bit_nat_def zmod_int)

text \<open>What the program expects of a compressor within LZ4's range of sizes: with room for the
  bound, compression succeeds, stays in the buffer, and decompression undoes it; beyond the range it
  refuses.\<close>

locale compressor =
  fixes lz4 :: lz4 and unlz4 :: "u8 list \<Rightarrow> nat \<Rightarrow> u8 list option"
  assumes compresses: "src \<noteq> [] \<Longrightarrow> int (length src) \<le> LZ4_MAX_INPUT_SIZE
      \<Longrightarrow> LZ4_compressBound (int (length src)) \<le> cap \<Longrightarrow> lz4 src (int (length src)) cap = (n, dst)
      \<Longrightarrow> 0 < n \<and> nat n \<le> length dst \<and> unlz4 (take (nat n) dst) (length src) = Some src"
    and refuses: "LZ4_MAX_INPUT_SIZE < uint (of_int k :: 32 word) \<Longrightarrow> fst (lz4 src k cap) = 0"
begin

lemma compress_contract:
  assumes "src \<noteq> []" and "int (length src) \<le> LZ4_MAX_INPUT_SIZE"
  shows "\<exists>out. compress lz4 src = Ok out \<and> unlz4 out (length src) = Some src"
proof -
  have small: "to_int32 (length src) = int (length src)"
    using assms(2) by (intro to_int32_small) (simp add: LZ4_MAX_INPUT_SIZE_def)
  obtain n dst where r: "lz4 src (int (length src)) (LZ4_compressBound (int (length src))) = (n, dst)"
    by fastforce
  have "0 < n \<and> nat n \<le> length dst \<and> unlz4 (take (nat n) dst) (length src) = Some src"
    by (rule compresses [OF assms order_refl r])
  then show ?thesis using assms(1) by (simp add: compress_def small r)
qed

lemma snapshot_bytes_read:
  assumes "table_fits state" and "int (length (serialize state)) \<le> LZ4_MAX_INPUT_SIZE"
  shows "\<exists>out. snapshot_bytes lz4 (serialize state) = Ok out \<and> read_snapshot unlz4 out = Some state"
proof (cases "length (serialize state) > COMPRESSION_THRESHOLD")
  case False
  then show ?thesis
    using assms(1) by (simp add: snapshot_bytes_def read_plain deserialize_serialize table_fits_def)
next
  case True
  define input where "input = to_u8 (serialize state)"
  have "input \<noteq> []" using True unfolding input_def by (metis length_0_conv length_u8(1) not_less0)
  then obtain out where c: "compress lz4 input = Ok out" "unlz4 out (length input) = Some input"
    using compress_contract [OF \<open>input \<noteq> []\<close>] assms(2) by (auto simp: input_def)
  have len: "unat (of_nat (length input) :: size_t) = length input"
    using assms(2) by (intro unat_of_length) (simp add: input_def LZ4_MAX_INPUT_SIZE_def)
  show ?thesis
  proof (cases "length out < length input")
    case True
    then show ?thesis
      using \<open>COMPRESSION_THRESHOLD < _\<close> c len assms(1)
      by (simp add: snapshot_bytes_def Let_def read_snapshot_def size_codec.dec_enc
          deserialize_serialize flip: input_def) (simp add: input_def deserialize_serialize)
  next
    case False
    then show ?thesis
      using \<open>COMPRESSION_THRESHOLD < _\<close> c assms(1)
      by (simp add: snapshot_bytes_def Let_def read_snapshot_def flip: input_def)
        (simp add: input_def deserialize_serialize)
  qed
qed

text \<open>The snapshot file that is left by \<^verbatim>\<open>writeBinarySnapshot\<close> determines the state, whether it
  was written plain, with the flag 0 or compressed: reading the bytes back gives the table,
  entry by entry and in the order of the hash table.\<close>
lemma snapshot_reads:
  assumes "table_fits state" and "wf_fs s"
    and "int (length (serialize state)) \<le> LZ4_MAX_INPUT_SIZE" and "writable s (dbFilepath L)"
  shows "(fst (writeBinarySnapshot lz4 state L s) = Ok ())
    \<and> (Option.bind (read_file (dbFilepath L) (snd (writeBinarySnapshot lz4 state L s)))
           (read_snapshot unlz4) = Some state)"
proof (intro conjI)
  obtain out where out: "snapshot_bytes lz4 (serialize state) = Ok out" "read_snapshot unlz4 out = Some state"
    using snapshot_bytes_read [OF assms(1,3)] by blast
  obtain i s1 where i: "open_trunc (dbFilepath L) s = (Some i, s1)"
    using assms(4) fst_open_trunc by (metis not_None_eq prod.collapse)
  have eq: "writeBinarySnapshot lz4 state L s = (Ok (), write_file (dbFilepath L) out s)"
    by (simp add: writeBinarySnapshot_def write_file_def stream_write_def out(1) i)
  show "fst (writeBinarySnapshot lz4 state L s) = Ok ()" by (simp add: eq)
  show "Option.bind (read_file (dbFilepath L) (snd (writeBinarySnapshot lz4 state L s)))
      (read_snapshot unlz4) = Some state"
    using assms(2,4) by (simp add: eq read_write_file out(2))
qed

text \<open>LZ4 is told the size modulo 4 GiB. Where that is past LZ4's largest input (2,113,929,216 bytes)
  the snapshot fails: LZ4 is offered no room and refuses, so the exception is thrown after the
  old snapshot file has been emptied.\<close>
lemma snapshot_refused:
  assumes "LZ4_MAX_INPUT_SIZE < int (length (serialize state) mod 2 ^ 32)"
    and "wf_fs s" and "writable s (dbFilepath L)"
  shows "(fst (writeBinarySnapshot lz4 state L s) = Throw ''Cannot compress data.'')
    \<and> (read_file (dbFilepath L) (snd (writeBinarySnapshot lz4 state L s)) = Some [])"
proof (intro conjI)
  let ?n = "length (serialize state)"
  have u: "LZ4_MAX_INPUT_SIZE < uint (of_int (to_int32 ?n) :: 32 word)"
    using assms(1) by (simp only: uint_to_int32 zmod_int of_nat_power of_nat_numeral)
  have "length (serialize state) mod 2 ^ 32 \<le> length (serialize state)" by (rule mod_less_eq_dividend)
  then have big: "LZ4_MAX_INPUT_SIZE < int (length (serialize state))" using assms(1) by linarith
  have "to_u8 (serialize state) \<noteq> []" by (simp add: to_u8_def serialize_def)
  then have "compress lz4 (to_u8 (serialize state)) = Throw ''Cannot compress data.''"
    using refuses [OF u] by (simp add: compress_def Let_def split: prod.split) (metis fst_conv order_refl)
  then have f: "snapshot_bytes lz4 (serialize state) = Throw ''Cannot compress data.''"
    using big by (simp add: snapshot_bytes_def COMPRESSION_THRESHOLD_def LZ4_MAX_INPUT_SIZE_def)
  obtain i s1 where i: "open_trunc (dbFilepath L) s = (Some i, s1)"
    using assms(3) fst_open_trunc by (metis not_None_eq prod.collapse)
  have w: "writeBinarySnapshot lz4 state L s = (Throw ''Cannot compress data.'', s1)"
    by (simp add: writeBinarySnapshot_def i f)
  have "s1 = write_file (dbFilepath L) [] s"
    by (simp add: write_file_def i stream_write_def append_inode_def)
  with w assms(2,3) show "fst (writeBinarySnapshot lz4 state L s) = Throw ''Cannot compress data.''"
    and "read_file (dbFilepath L) (snd (writeBinarySnapshot lz4 state L s)) = Some []"
    by (simp_all add: read_write_file)
qed

end

text \<open>From 4 GiB on the size handed to LZ4 is what is left of it in 32 bits. A compressor
  that reads no more than it is told then gives the same snapshot for inputs that differ
  after that point.\<close>

lemma compress_drops_tail:
  assumes "length a = 2 ^ 32 + n" and "length b = 2 ^ 32 + n" and "n < 2 ^ 31" and "take n a = take n b"
    and "\<And>src k cap. 0 \<le> k \<Longrightarrow> lz4 src k cap = lz4 (take (nat k) src) k cap"
  shows "compress lz4 a = compress lz4 b"
proof -
  have n: "to_int32 (2 ^ 32 + n) = int n"
  proof -
    have "(of_nat (2 ^ 32 + n) :: 32 word) = of_nat n" by simp
    then show ?thesis using to_int32_small [OF assms(3)] by (simp only: to_int32_def)
  qed
  have "lz4 a (int n) cap = lz4 b (int n) cap" for cap
    using assms(4) assms(5) [of "int n" a cap] assms(5) [of "int n" b cap] by simp
  moreover have "a \<noteq> []" "b \<noteq> []" using assms(1,2) by auto
  ultimately show ?thesis by (simp only: compress_def if_False assms(1,2) n)
qed

end
