(* ===== verification/DB_Spec.thy ===== *)
theory DB_Spec
  imports Snapshot
begin

text \<open>
  What the store promises, independent of hash table, buffers and files: a key-value map and
  six commands on it, given by their tokens. Every command has an effect, an answer, the
  entries it leaves in the log and the number of changes it counts. A log is replayed line
  by line, and the commands form a journal in the sense of the interface of theory Prelude.
\<close>

section \<open>Commands\<close>

type_synonym kv = "string \<rightharpoonup> string"

datatype command =
    Put string string
  | Del string
  | Get string
  | Mput "(string \<times> string) list"
  | Mdel "string list"
  | Mget "string list"
  | Invalid

fun pairs :: "string list \<Rightarrow> (string \<times> string) list" where
  "pairs (k # v # rest) = (k, v) # pairs rest"
| "pairs _ = []"

text \<open>The grammar: a command name in lower case and the right number of arguments.\<close>

fun parse :: "string list \<Rightarrow> command" where
  "parse [] = Invalid"
| "parse (op # args) =
     (if op = ''put'' \<and> length args = 2 then Put (args ! 0) (args ! 1)
      else if op = ''del'' \<and> length args = 1 then Del (args ! 0)
      else if op = ''get'' \<and> length args = 1 then Get (args ! 0)
      else if op = ''mput'' \<and> 4 \<le> length args \<and> even (length args) then Mput (pairs args)
      else if op = ''mdel'' \<and> 2 \<le> length args then Mdel args
      else if op = ''mget'' \<and> 2 \<le> length args then Mget args
      else Invalid)"

fun effect :: "command \<Rightarrow> kv \<Rightarrow> kv" where
  "effect (Put k v) m = m(k \<mapsto> v)"
| "effect (Del k) m = m(k := None)"
| "effect (Mput kvs) m = m ++ map_of (rev kvs)"
| "effect (Mdel ks) m = m |` (- set ks)"
| "effect _ m = m"

fun answer :: "command \<Rightarrow> kv \<Rightarrow> string list" where
  "answer (Get k) m = (case m k of None \<Rightarrow> [] | Some v \<Rightarrow> [v])"
| "answer (Mget ks) m = List.map_filter m ks"
| "answer _ m = []"

text \<open>The number of changes a command counts: a deletion counts if the key is there.\<close>

fun changes :: "command \<Rightarrow> kv \<Rightarrow> nat" where
  "changes (Put k v) m = 1"
| "changes (Del k) m = (if m k = None then 0 else 1)"
| "changes (Mput kvs) m = length kvs"
| "changes (Mdel ks) m = card (set ks \<inter> dom m)"
| "changes _ m = 0"

section \<open>Log entries\<close>

fun entries :: "command \<Rightarrow> command list" where
  "entries (Put k v) = [Put k v]"
| "entries (Del k) = [Del k]"
| "entries (Mput kvs) = map (\<lambda>(k, v). Put k v) kvs"
| "entries (Mdel ks) = map Del ks"
| "entries _ = []"

fun line_of :: "command \<Rightarrow> string" where
  "line_of (Put k v) = join_words [''put'', k, v]"
| "line_of (Del k) = join_words [''del'', k]"
| "line_of _ = []"

definition replay_line :: "string \<Rightarrow> kv \<Rightarrow> kv" where
  "replay_line line m = effect (parse (tokenize line)) m"

definition recover :: "string \<Rightarrow> kv" where
  "recover text = fold replay_line (getlines text) Map.empty"

text \<open>The commands whose entries are read back from the log as they were written.\<close>

fun loggable :: "command \<Rightarrow> bool" where
  "loggable (Put k v) = (replayable k \<and> replayable v)"
| "loggable (Del k) = replayable k"
| "loggable (Mput kvs) = list_all (\<lambda>(k, v). replayable k \<and> replayable v) kvs"
| "loggable (Mdel ks) = list_all replayable ks"
| "loggable _ = True"

lemma plain_word_names [simp]: "plain_word ''put''" "plain_word ''del''"
  by (simp_all add: plain_word_def is_word_def isspace_def)

lemma tokenize_line_of:
  "replayable k \<Longrightarrow> replayable v \<Longrightarrow> tokenize (line_of (Put k v)) = [''put'', k, v]"
  "replayable k \<Longrightarrow> tokenize (line_of (Del k)) = [''del'', k]"
  using tokenize_join [of "[''put'', k, v]"] tokenize_join [of "[''del'', k]"] by simp_all

lemma replay_line_of:
  "replayable k \<Longrightarrow> replayable v \<Longrightarrow> replay_line (line_of (Put k v)) m = m(k \<mapsto> v)"
  "replayable k \<Longrightarrow> replay_line (line_of (Del k)) m = m(k := None)"
  by (simp_all only: replay_line_def tokenize_line_of) simp_all

lemma fold_replay_puts:
  "list_all (\<lambda>(k, v). replayable k \<and> replayable v) kvs \<Longrightarrow>
   fold (\<lambda>e. replay_line (line_of e)) (map (\<lambda>(k, v). Put k v) kvs) m = fold (\<lambda>(k, v) f. f(k \<mapsto> v)) kvs m"
  by (induction kvs arbitrary: m) (auto simp: replay_line_of simp del: line_of.simps)

lemma fold_replay_dels:
  "list_all replayable ks \<Longrightarrow>
   fold (\<lambda>e. replay_line (line_of e)) (map Del ks) m = m |` (- set ks)"
proof (induction ks arbitrary: m)
  case (Cons k ks)
  then show ?case
    by (auto simp: replay_line_of restrict_map_def fun_eq_iff simp del: line_of.simps)
qed (simp add: restrict_map_def)

interpretation commands: journal effect entries "\<lambda>e. replay_line (line_of e)" loggable
proof
  fix c m assume "loggable c"
  then show "fold (\<lambda>e. replay_line (line_of e)) (entries c) m = effect c m"
    by (cases c) (simp_all add: replay_line_of fold_replay_puts fold_replay_dels fold_map_upd del: line_of.simps)
qed

section \<open>Texts of logs\<close>

text \<open>A log in which the last line is finished, so that another line can follow it.\<close>

definition finished :: "string \<Rightarrow> bool" where
  "finished text = (text = [] \<or> last text = NL)"

lemma finished_simps [simp]: "finished []" "finished (t @ [NL])"
  by (simp_all add: finished_def)

lemma finished_append: "finished t \<Longrightarrow> finished u \<Longrightarrow> finished (t @ u)"
  by (auto simp: finished_def last_append)

lemma finished_unlines [simp]: "finished (unlines ls)"
  by (induction ls) (auto simp: finished_def)

lemma finished_cases:
  assumes "finished t"
  obtains ls where "t = unlines ls" and "list_all (\<lambda>l. NL \<notin> set l) ls"
proof -
  have "\<exists>ls. t = unlines ls \<and> list_all (\<lambda>l. NL \<notin> set l) ls" using assms
  proof (induction t rule: getlines.induct)
    case (1 t)
    show ?case
    proof (cases "NL \<in> set t")
      case False
      with "1.prems" have "t = []" by (metis finished_def last_in_set)
      then show ?thesis by (intro exI [of _ "[]"]) simp
    next
      case True
      then obtain l r where t: "t = l @ NL # r" "NL \<notin> set l" by (meson split_list_first)
      then have "getline NL t = Some (l, r)" by (simp add: getline_def)
      moreover have "finished r" using "1.prems" t by (auto simp: finished_def split: if_splits)
      ultimately obtain ls where "r = unlines ls" "list_all (\<lambda>l. NL \<notin> set l) ls"
        using "1.IH" by blast
      with t show ?thesis by (intro exI [of _ "l # ls"]) simp
    qed
  qed
  with that show ?thesis by blast
qed

lemma getlines_append: "finished t \<Longrightarrow> getlines (t @ u) = getlines t @ getlines u"
  by (erule finished_cases) (simp add: getlines_unlines_append getlines_unlines)

lemma recover_append: "finished t \<Longrightarrow> recover (t @ u) = fold replay_line (getlines u) (recover t)"
  by (simp add: recover_def getlines_append)

lemma recover_Nil [simp]: "recover [] = Map.empty"
  by (simp add: recover_def)

lemma replayable_no_NL: "replayable t \<Longrightarrow> NL \<notin> set t"
proof -
  have w: "is_word w \<Longrightarrow> NL \<notin> set w" for w by (auto simp: is_word_def list_all_iff)
  have j: "list_all is_word ws \<Longrightarrow> NL \<notin> set (join_words ws)" for ws
    by (induction ws rule: join_words.induct) (auto dest: w)
  show "replayable t \<Longrightarrow> NL \<notin> set t"
    using w j [of "words t"] by (auto simp: replayable_def plain_word_def quoted_group_def)
qed

lemma entries_lines:
  "loggable c \<Longrightarrow> list_all (\<lambda>l. NL \<notin> set l) (map line_of (entries c))"
  by (cases c) (auto simp: list_all_iff dest!: replayable_no_NL)

lemma fold_replay_map: "fold replay_line (map line_of es) m = fold (\<lambda>e. replay_line (line_of e)) es m"
  by (simp add: fold_map o_def)

text \<open>Appending the entries of a command to a finished log appends the command.\<close>

lemma recover_entries:
  assumes "finished t" and "loggable c"
  shows "recover (t @ unlines (map line_of (entries c))) = effect c (recover t)"
  using assms commands.entries_run [OF assms(2), of "recover t"]
  by (simp add: recover_append getlines_unlines entries_lines fold_replay_map)

lemma recover_all_entries:
  assumes "finished t" and "list_all loggable cs"
  shows "recover (t @ unlines (map line_of (concat (map entries cs)))) = fold effect cs (recover t)"
proof -
  have "list_all (\<lambda>l. NL \<notin> set l) (map line_of (concat (map entries cs)))"
    using assms(2) by (induction cs) (auto dest: entries_lines)
  then show ?thesis
    using assms commands.recover_all [OF assms(2), of "recover t"]
    by (simp add: recover_append getlines_unlines fold_replay_map)
qed

text \<open>The texts the program itself writes to a log: entries for a put or a deletion, each on
  its line, that can be read back.\<close>

definition is_entry :: "command \<Rightarrow> bool" where
  "is_entry e = (entries e = [e] \<and> loggable e)"

definition written :: "string \<Rightarrow> bool" where
  "written text = (\<exists>es. list_all is_entry es \<and> text = unlines (map line_of es))"

lemma is_entry_cases:
  assumes "is_entry e"
  obtains k v where "e = Put k v" "replayable k" "replayable v" | k where "e = Del k" "replayable k"
  using assms by (cases e) (auto simp: is_entry_def)

lemma entries_are_entries: "loggable c \<Longrightarrow> list_all is_entry (entries c)"
  by (cases c) (auto simp: is_entry_def list_all_iff)

lemma written_Nil [simp]: "written []"
  by (auto simp: written_def intro: exI [of _ "[]"])

lemma written_append: "written t \<Longrightarrow> written u \<Longrightarrow> written (t @ u)"
  unfolding written_def by (metis (no_types, lifting) list_all_append map_append unlines_simps(3))

lemma written_entries: "loggable c \<Longrightarrow> written (unlines (map line_of (entries c)))"
  unfolding written_def using entries_are_entries by blast

lemma written_finished: "written t \<Longrightarrow> finished t"
  by (auto simp: written_def)

lemma parse_line_of_entry: "is_entry e \<Longrightarrow> parse (tokenize (line_of e)) = e"
  by (erule is_entry_cases) (simp_all add: tokenize_line_of del: line_of.simps)

lemma written_getlines:
  assumes "written t"
  obtains es where "list_all is_entry es" and "getlines t = map line_of es"
proof -
  obtain es where es: "list_all is_entry es" "t = unlines (map line_of es)"
    using assms by (auto simp: written_def)
  have "list_all (\<lambda>l. NL \<notin> set l) (map line_of es)"
    using es(1) entries_lines by (auto simp: list_all_iff is_entry_def)
  with es show ?thesis using that by (simp add: getlines_unlines)
qed

section \<open>Compaction on the level of texts\<close>

definition table_replayable :: "table \<Rightarrow> bool" where
  "table_replayable t = list_all (\<lambda>(k, v). replayable k \<and> replayable v) t"

lemma compact_text_entries: "compact_text t = unlines (map line_of (entries (Mput t)))"
  by (simp add: compact_text_unlines o_def case_prod_unfold)

lemma recover_compact:
  assumes "umap_wf t" and "table_replayable t"
  shows "recover (compact_text t) = map_of t"
  using recover_entries [of "[]" "Mput t"] assms umap.lookup_rebuild [OF assms(1)]
  by (simp add: compact_text_entries table_replayable_def fold_map_upd del: entries.simps)

lemma written_compact: "table_replayable t \<Longrightarrow> written (compact_text t)"
  using written_entries [of "Mput t"]
  by (simp add: compact_text_entries table_replayable_def del: entries.simps)

lemma finished_compact [simp]: "finished (compact_text t)"
  by (simp add: compact_text_unlines)

end
