(* ===== verification/DB.thy ===== *)
theory DB
  imports DB_Spec
begin

text \<open>
  The class \<^verbatim>\<open>DB\<close> of \<^verbatim>\<open>include/taproot/db.h\<close> and \<^verbatim>\<open>src/db.cpp\<close>: the record of its
  fields and its operations, in the order of the source. Output to \<^verbatim>\<open>std::cerr\<close> is not
  modelled. \<^verbatim>\<open>replaying\<close> has no initializer in the class and none in the constructors, and
  the second constructor leaves \<^verbatim>\<open>dirty\<close> out too; the values these fields then hold are
  the \<open>junk\<close> arguments of the constructors.
\<close>

section \<open>State\<close>

record DB =
  store :: table
  name :: string
  logger :: Log
  replaying :: bool
  dirty :: size_t

section \<open>The store\<close>

definition put :: "layout \<Rightarrow> string \<Rightarrow> string \<Rightarrow> DB \<Rightarrow> DB" where
  "put h key value db =
     (let db = db\<lparr>store := umap_set h key value (store db)\<rparr>
      in if \<not> replaying db then db\<lparr>dirty := dirty db + 1\<rparr> else db)"

definition del :: "string \<Rightarrow> DB \<Rightarrow> bool \<times> DB" where
  "del key db =
     (let status = umap_count key (store db);
          db = db\<lparr>store := umap_erase key (store db)\<rparr>
      in if status \<ge> 1
         then (True, if \<not> replaying db then db\<lparr>dirty := dirty db + 1\<rparr> else db)
         else (False, db))"

definition get :: "string \<Rightarrow> DB \<Rightarrow> string option" where
  "get key db = map_of (store db) key"

text \<open>\<^verbatim>\<open>items[i+1]\<close> of a list of odd length is outside the vector.\<close>

fun mput :: "layout \<Rightarrow> string list \<Rightarrow> DB \<Rightarrow> unit outcome \<times> DB" where
  "mput h [] db = (Ok (), db)"
| "mput h [k] db = (Fault Out_of_bounds, db)"
| "mput h (k # v # items) db = mput h items (put h k v db)"

fun mdel_loop :: "bool \<Rightarrow> string list \<Rightarrow> DB \<Rightarrow> bool \<times> DB" where
  "mdel_loop status [] db = (status, db)"
| "mdel_loop status (key # keys) db =
     (let (ok, db) = del key db in mdel_loop (if \<not> ok then False else status) keys db)"

definition mdel :: "string list \<Rightarrow> DB \<Rightarrow> bool \<times> DB" where
  "mdel keys db = mdel_loop True keys db"

definition mget :: "string list \<Rightarrow> DB \<Rightarrow> string option list" where
  "mget keys db = map (\<lambda>key. get key db) keys"

definition clearData :: "DB \<Rightarrow> fs \<Rightarrow> DB \<times> fs" where
  "clearData db s =
     (let db = db\<lparr>store := []\<rparr>;
          s = snd (open_trunc (getLogFilepath (logger db)) s);
          s = snd (open_trunc (getDbFilepath (logger db)) s)
      in (db, s))"

definition isReplaying :: "DB \<Rightarrow> bool" where
  "isReplaying db = replaying db"

section \<open>The command parser\<close>

text \<open>\<^verbatim>\<open>logger->appendCommand(Operation::convertStr(op), key, value)\<close>\<close>

definition append_named :: "string \<Rightarrow> string \<Rightarrow> string \<Rightarrow> Log \<Rightarrow> unit outcome \<times> Log" where
  "append_named op key value L =
     (case convertStr op of Inl e \<Rightarrow> (Inl e, L) | Inr opn \<Rightarrow> appendCommand opn key value L)"

definition append_to_log :: "string \<Rightarrow> string \<Rightarrow> string \<Rightarrow> DB \<Rightarrow> string list outcome \<times> DB" where
  "append_to_log op key value db =
     (let (r, L) = append_named op key value (logger db)
      in (case r of Inl e \<Rightarrow> Inl e | Inr _ \<Rightarrow> Ok [], db\<lparr>logger := L\<rparr>))"

text \<open>The loop of \<^verbatim>\<open>mput\<close> over the tokens: collects the items and appends each pair to the log.\<close>

fun mput_items :: "string \<Rightarrow> string list \<Rightarrow> string list \<Rightarrow> Log \<Rightarrow> string list outcome \<times> Log" where
  "mput_items op [] items L = (Ok items, L)"
| "mput_items op [k] items L = (Fault Out_of_bounds, L)"
| "mput_items op (k # v # tokens) items L =
     (case append_named (drop 1 op) k v L of
        (Inl e, L) \<Rightarrow> (Inl e, L)
      | (Inr _, L) \<Rightarrow> mput_items op tokens (items @ [k, v]) L)"

fun mdel_keys :: "string \<Rightarrow> string list \<Rightarrow> string list \<Rightarrow> Log \<Rightarrow> string list outcome \<times> Log" where
  "mdel_keys op [] keys L = (Ok keys, L)"
| "mdel_keys op (k # tokens) keys L =
     (case append_named (drop 1 op) k [] L of
        (Inl e, L) \<Rightarrow> (Inl e, L)
      | (Inr _, L) \<Rightarrow> mdel_keys op tokens (keys @ [k]) L)"

text \<open>The values that are there, in order.\<close>

fun non_null :: "string option list \<Rightarrow> string list" where
  "non_null [] = []"
| "non_null (v # vs) = (case v of Some x \<Rightarrow> x # non_null vs | None \<Rightarrow> non_null vs)"

definition parseCommand :: "layout \<Rightarrow> string \<Rightarrow> DB \<Rightarrow> string list outcome \<times> DB" where
  "parseCommand h command db =
     (if length command = 0 \<or> isAllSpace command then (Ok [], db)
      else case tokenize command of
        [] \<Rightarrow> (Fault Out_of_bounds, db)
      | op # args \<Rightarrow>
          (let tokens = op # args in
           if op = ''put'' \<and> length tokens = 3 then
             (let db = put h (tokens ! 1) (tokens ! 2) db
              in if \<not> isReplaying db then append_to_log op (tokens ! 1) (tokens ! 2) db else (Ok [], db))
           else if op = ''del'' \<and> length tokens = 2 then
             (let db = snd (del (tokens ! 1) db)
              in if \<not> isReplaying db then append_to_log op (tokens ! 1) [] db else (Ok [], db))
           else if op = ''get'' \<and> length tokens = 2 then
             (case get (tokens ! 1) db of Some value \<Rightarrow> (Ok [value], db) | None \<Rightarrow> (Ok [], db))
           else if op = ''mput'' \<and> length tokens \<ge> 5 \<and> length tokens mod 2 \<noteq> 0 then
             (case mput_items op (drop 1 tokens) [] (logger db) of
                (Inl e, L) \<Rightarrow> (Inl e, db\<lparr>logger := L\<rparr>)
              | (Inr items, L) \<Rightarrow>
                  (let (r, db) = mput h items (db\<lparr>logger := L\<rparr>)
                   in (case r of Inl e \<Rightarrow> Inl e | Inr _ \<Rightarrow> Ok [], db)))
           else if op = ''mdel'' \<and> length tokens \<ge> 3 then
             (case mdel_keys op (drop 1 tokens) [] (logger db) of
                (Inl e, L) \<Rightarrow> (Inl e, db\<lparr>logger := L\<rparr>)
              | (Inr keys, L) \<Rightarrow> (Ok [], snd (mdel keys (db\<lparr>logger := L\<rparr>))))
           else if op = ''mget'' \<and> length tokens \<ge> 3 then
             (Ok (non_null (mget (drop 1 tokens) db)), db)
           else (Ok [], db)))"

section \<open>Loading, construction, shutdown\<close>

fun load_lines :: "layout \<Rightarrow> string list \<Rightarrow> DB \<Rightarrow> unit outcome \<times> DB" where
  "load_lines h [] db = (Ok (), db)"
| "load_lines h (line # lines) db =
     (case parseCommand h line (db\<lparr>replaying := True\<rparr>) of
        (Inl e, db) \<Rightarrow> (Inl e, db)
      | (Inr _, db) \<Rightarrow> load_lines h lines (db\<lparr>replaying := False\<rparr>))"

definition loadFromLog :: "layout \<Rightarrow> fs \<Rightarrow> DB \<Rightarrow> unit outcome \<times> DB" where
  "loadFromLog h s db =
     (case read_file (aof_path (name db)) s of
        Some text \<Rightarrow> if store db = [] then load_lines h (getlines text) db else (Ok (), db)
      | None \<Rightarrow> (Ok (), db))"

text \<open>An exception in the body of the constructor destroys the logger again.\<close>

definition DB_ctor :: "layout \<Rightarrow> bool \<Rightarrow> string \<Rightarrow> fs \<Rightarrow> DB outcome \<times> fs" where
  "DB_ctor h junk keyspace s =
     (case Log_ctor keyspace s of
        (Inl e, s) \<Rightarrow> (Inl e, s)
      | (Inr L, s) \<Rightarrow>
          (case loadFromLog h s \<lparr>store = [], name = keyspace, logger = L, replaying = junk, dirty = 0\<rparr> of
             (Inl e, db) \<Rightarrow> (Inl e, snd (Log_dtor (logger db) s))
           | (Inr _, db) \<Rightarrow> (Ok db, s)))"

definition DB_ctor_store :: "bool \<Rightarrow> size_t \<Rightarrow> string \<Rightarrow> table \<Rightarrow> fs \<Rightarrow> DB outcome \<times> fs" where
  "DB_ctor_store junk junk_dirty keyspace st s =
     (case Log_ctor keyspace s of
        (Inl e, s) \<Rightarrow> (Inl e, s)
      | (Inr L, s) \<Rightarrow>
          (Ok \<lparr>store = st, name = keyspace, logger = L, replaying = junk, dirty = junk_dirty\<rparr>, s))"

definition shutdown :: "lz4 \<Rightarrow> DB \<Rightarrow> fs \<Rightarrow> unit outcome \<times> DB \<times> fs" where
  "shutdown lz4 db s =
     (let (L, s) = closeLog (logger db) s;
          db = db\<lparr>logger := L\<rparr>
      in case compactLog (store db) (dirty db) L s of
           (Inl e, s) \<Rightarrow> (Inl e, db, s)
         | (Inr _, s) \<Rightarrow>
             (let (r, s) = writeBinarySnapshot lz4 (store db) L s in (r, db, s)))"

text \<open>The destructor: \<^verbatim>\<open>shutdown\<close>, an exception of which ends the program, then the logger's.\<close>

definition DB_dtor :: "lz4 \<Rightarrow> DB \<Rightarrow> fs \<Rightarrow> unit outcome \<times> fs" where
  "DB_dtor lz4 db s =
     (case shutdown lz4 db s of
        (Inl (Exception _), db, s) \<Rightarrow> (Fault Terminated, s)
      | (Inl (Undefined f), db, s) \<Rightarrow> (Fault f, s)
      | (Inr _, db, s) \<Rightarrow> (Ok (), snd (Log_dtor (logger db) s)))"

text \<open>One pass of the flush thread of the logger.\<close>

definition flush_db :: "DB \<times> fs \<Rightarrow> DB \<times> fs" where
  "flush_db = (\<lambda>(db, s). let (L, s) = flush_iteration (logger db, s) in (db\<lparr>logger := L\<rparr>, s))"

section \<open>Getters and display\<close>

definition getKeys :: "DB \<Rightarrow> string list" where "getKeys db = map fst (store db)"
definition getValues :: "DB \<Rightarrow> string list" where "getValues db = map snd (store db)"
definition getItems :: "DB \<Rightarrow> (string \<times> string) list" where "getItems db = store db"

definition getItems_of :: "string list \<Rightarrow> DB \<Rightarrow> (string \<times> string option) list" where
  "getItems_of keys db = map (\<lambda>key. (key, get key db)) keys"

definition rule_line :: string where
  "rule_line = ''============'' @ [NL]"

definition heading :: "string \<Rightarrow> DB \<Rightarrow> string" where
  "heading what db =
     ''| '' @ what @ '' for keyspace: '' @ [CHR 0x27] @ name db @ [CHR 0x27, NL]"

definition display :: "DB \<Rightarrow> string" where
  "display db =
     [NL] @ rule_line @ heading ''Key-values'' db
     @ concat (map (\<lambda>item. fst item @ '': '' @ snd item @ [NL]) (store db)) @ rule_line"

definition display_key :: "string \<Rightarrow> DB \<Rightarrow> string outcome" where
  "display_key key db =
     (case get key db of
        None \<Rightarrow> Fault Empty_optional
      | Some v \<Rightarrow> Ok ([NL] @ rule_line @ v @ [NL] @ rule_line))"

definition display_keys_of :: "string list \<Rightarrow> DB \<Rightarrow> string" where
  "display_keys_of keys db =
     [NL] @ rule_line @ heading ''Key-values'' db
     @ concat (map (\<lambda>item. if contains keys (fst item) then fst item @ '': '' @ snd item @ [NL] else [])
         (store db)) @ rule_line"

definition displayKeys :: "DB \<Rightarrow> string" where
  "displayKeys db =
     [NL] @ rule_line @ heading ''Keys'' db @ concat (map (\<lambda>key. key @ [NL]) (getKeys db)) @ rule_line"

definition displayValues :: "DB \<Rightarrow> string" where
  "displayValues db =
     [NL] @ rule_line @ heading ''Values'' db @ concat (map (\<lambda>v. v @ [NL]) (getValues db)) @ rule_line"

definition total_bytes :: "table \<Rightarrow> size_t" where
  "total_bytes st =
     fold (\<lambda>(key, value) totalBytes. totalBytes + (of_nat (length key) + of_nat (length value))) st 0"

definition displayStats :: "DB \<Rightarrow> string" where
  "displayStats db =
     [NL] @ rule_line @ heading ''Stats'' db
     @ ''Total keys: '' @ show_nat (length (store db)) @ [NL]
     @ ''Total bytes: '' @ show_nat (unat (total_bytes (store db))) @ [NL] @ rule_line"

end
