(* ===== verification/DB_Correct.thy ===== *)
theory DB_Correct
  imports DB
begin

text \<open>
  The operations of theory DB against the specification of theory DB_Spec: what one command
  does to the table, the counter of changes and the buffer of the logger, on every branch
  of \<^verbatim>\<open>parseCommand\<close>, and what loading a log rebuilds.
\<close>

section \<open>Entries in the buffer\<close>

text \<open>A logger that can take an entry without touching a dangling reference: it is open, or it
  is closed and the name for the error message is still there.\<close>

definition usable :: "Log \<Rightarrow> bool" where
  "usable L = (logfile L \<noteq> None \<or> keyspaceName L \<noteq> None)"

definition add_entries :: "command list \<Rightarrow> Log \<Rightarrow> Log" where
  "add_entries es L =
     (if logfile L = None then L else L\<lparr>logBuffer := logBuffer L @ unlines (map line_of es)\<rparr>)"

lemma add_entries_simps [simp]:
  "add_entries [] L = L"
  "add_entries fs (add_entries es L) = add_entries (es @ fs) L"
  "usable (add_entries es L) = usable L"
  "logfile (add_entries es L) = logfile L"
  by (simp_all add: add_entries_def usable_def)

lemma append_named_entry:
  "usable L \<Longrightarrow> append_named ''put'' k v L = (Ok (), add_entries [Put k v] L)"
  "usable L \<Longrightarrow> append_named ''del'' k v L = (Ok (), add_entries [Del k] L)"
  by (auto simp: append_named_def appendCommand_def usable_def add_entries_def)

lemma mput_items_eq:
  "usable L \<Longrightarrow> even (length ts) \<Longrightarrow>
   mput_items ''mput'' ts items L = (Ok (items @ ts), add_entries (entries (Mput (pairs ts))) L)"
  by (induction ts arbitrary: items L rule: pairs.induct) (simp_all add: append_named_entry)

lemma mdel_keys_eq:
  "usable L \<Longrightarrow> mdel_keys ''mdel'' ts ks L = (Ok (ks @ ts), add_entries (entries (Mdel ts)) L)"
  by (induction ts arbitrary: ks L) (simp_all add: append_named_entry)

section \<open>Changes of the table\<close>

abbreviation counted :: "DB \<Rightarrow> nat \<Rightarrow> size_t" where
  "counted db n \<equiv> dirty db + (if replaying db then 0 else of_nat n)"

lemma put_eq: "put h k v db = db\<lparr>store := umap_set h k v (store db), dirty := counted db 1\<rparr>"
  by (simp add: put_def Let_def)

lemma mput_eq:
  "even (length ts) \<Longrightarrow> mput h ts db =
     (Ok (), db\<lparr>store := fold (\<lambda>(k, v). umap_set h k v) (pairs ts) (store db),
                dirty := counted db (length (pairs ts))\<rparr>)"
  by (induction ts arbitrary: db rule: pairs.induct) (auto simp: put_eq)

lemma del_eq:
  "umap_wf (store db) \<Longrightarrow> del k db =
     (map_of (store db) k \<noteq> None,
      db\<lparr>store := umap_erase k (store db),
         dirty := counted db (if map_of (store db) k = None then 0 else 1)\<rparr>)"
  by (simp add: del_def Let_def umap_count_wf)

lemma mdel_loop_eq:
  "umap_wf (store db) \<Longrightarrow> mdel_loop st ks db =
     (st \<and> distinct ks \<and> set ks \<subseteq> dom (map_of (store db)),
      db\<lparr>store := fold umap_erase ks (store db),
         dirty := counted db (card (set ks \<inter> dom (map_of (store db))))\<rparr>)"
proof (induction ks arbitrary: st db)
  case (Cons k ks)
  let ?m = "map_of (store db)"
  have dom': "dom (map_of (umap_erase k (store db))) = dom ?m - {k}"
    by (simp add: store_simps)
  have wf': "umap_wf (umap_erase k (store db))" using Cons.prems by (rule umap_wf_erase)
  have card: "card (set (k # ks) \<inter> dom ?m)
      = (if ?m k = None then 0 else 1) + card (set ks \<inter> (dom ?m - {k}))"
  proof (cases "?m k")
    case None
    then have "set (k # ks) \<inter> dom ?m = set ks \<inter> (dom ?m - {k})" by auto
    with None show ?thesis by simp
  next
    case (Some v)
    then have "set (k # ks) \<inter> dom ?m = insert k (set ks \<inter> (dom ?m - {k}))" by auto
    with Some show ?thesis by simp
  qed
  have sub: "(distinct (k # ks) \<and> set (k # ks) \<subseteq> dom ?m)
      = (?m k \<noteq> None \<and> distinct ks \<and> set ks \<subseteq> dom ?m - {k})"
    by auto
  show ?case
    using Cons.IH wf' unfolding mdel_loop.simps del_eq [OF Cons.prems] card sub
    by (auto simp: dom' add.assoc)
qed simp

lemma non_null_map: "non_null (map f ks) = List.map_filter f ks"
  by (induction ks) (auto simp: map_filter_simps split: option.split)

section \<open>One command\<close>

text \<open>What a command writes to the buffer. While a log is replayed \<^verbatim>\<open>put\<close> and \<^verbatim>\<open>del\<close> write
  nothing; \<^verbatim>\<open>mput\<close> and \<^verbatim>\<open>mdel\<close> do not look at the flag.\<close>

fun logged :: "bool \<Rightarrow> command \<Rightarrow> command list" where
  "logged r (Put k v) = (if r then [] else [Put k v])"
| "logged r (Del k) = (if r then [] else [Del k])"
| "logged r c = entries c"

lemma logged_False [simp]: "logged False c = entries c"
  by (cases c) simp_all

abbreviation kv_of :: "DB \<Rightarrow> kv" where "kv_of db \<equiv> map_of (store db)"

definition after_command :: "command \<Rightarrow> table \<Rightarrow> DB \<Rightarrow> DB" where
  "after_command c st db =
     db\<lparr>store := st, dirty := counted db (changes c (kv_of db)),
        logger := add_entries (logged (replaying db) c) (logger db)\<rparr>"

lemma after_command_simps [simp]:
  "store (after_command c st db) = st" "name (after_command c st db) = name db"
  "replaying (after_command c st db) = replaying db"
  "logger (after_command c st db) = add_entries (logged (replaying db) c) (logger db)"
  "dirty (after_command c st db) = counted db (changes c (kv_of db))"
  by (simp_all add: after_command_def)

definition command_of :: "string \<Rightarrow> command" where
  "command_of line = parse (tokenize line)"

lemma parseCommand_blank: "isAllSpace c \<Longrightarrow> parseCommand h c db = (Ok [], db)"
  by (simp add: parseCommand_def)

lemma pairs_Cons2: "2 \<le> length ts \<Longrightarrow> pairs ts = (ts ! 0, ts ! 1) # pairs (drop 2 ts)"
  by (cases ts rule: pairs.cases) auto

text \<open>The state a line leaves the store in is a table with the effect of the command, and everything
  else of the answer and the object follows from it.\<close>

definition obeys :: "layout \<Rightarrow> string \<Rightarrow> DB \<Rightarrow> table \<Rightarrow> bool" where
  "obeys h cmd db st =
     (umap_wf st \<and> map_of st = effect (command_of cmd) (kv_of db)
      \<and> parseCommand h cmd db = (Ok (answer (command_of cmd) (kv_of db)), after_command (command_of cmd) st db))"

lemma tokens_not_blank:
  assumes "tokenize cmd = op # args"
  shows "\<not> isAllSpace cmd" and "cmd \<noteq> []"
  using assms by (auto simp: tokenize_group_words group_words_eq_Nil_iff simp flip: words_eq_Nil_iff)

lemmas parse_one = obeys_def parseCommand_def command_of_def isReplaying_def after_command_def

lemma obeys_single:
  assumes "umap_wf (store db)" and "usable (logger db)" and t: "tokenize cmd = op # args"
  shows "op = ''put'' \<Longrightarrow> length args = 2 \<Longrightarrow> obeys h cmd db (umap_set h (args ! 0) (args ! 1) (store db))"
    and "op = ''del'' \<Longrightarrow> length args = 1 \<Longrightarrow> obeys h cmd db (umap_erase (args ! 0) (store db))"
    and "op = ''get'' \<Longrightarrow> length args = 1 \<Longrightarrow> obeys h cmd db (store db)"
  using assms(1,2)
  by (simp_all add: parse_one t tokens_not_blank [OF t] append_to_log_def append_named_entry put_eq del_eq DB.get_def
      umap_wf_set umap_wf_erase store_simps split: option.split)

lemma obeys_multi:
  assumes wf: "umap_wf (store db)" and us: "usable (logger db)" and t: "tokenize cmd = op # args"
  shows "op = ''mput'' \<Longrightarrow> 4 \<le> length args \<Longrightarrow> even (length args)
      \<Longrightarrow> obeys h cmd db (fold (\<lambda>(k, v). umap_set h k v) (pairs args) (store db))"
    and "op = ''mdel'' \<Longrightarrow> 2 \<le> length args \<Longrightarrow> obeys h cmd db (fold umap_erase args (store db))"
    and "op = ''mget'' \<Longrightarrow> 2 \<le> length args \<Longrightarrow> obeys h cmd db (store db)"
proof -
  note pc = parse_one t tokens_not_blank [OF t]
  show "obeys h cmd db (fold (\<lambda>(k, v). umap_set h k v) (pairs args) (store db))"
    if "op = ''mput''" "4 \<le> length args" "even (length args)"
  proof -
    have "Suc (length args) mod 2 = Suc 0" using that(3) by presburger
    with that wf us show ?thesis
      using umap.lookup_insert_all [OF wf, of h "pairs args"] umap.wf_insert_all [OF wf, of h "pairs args"]
      by (simp add: pc Let_def mput_items_eq mput_eq fold_map_upd)
  qed
  show "obeys h cmd db (fold umap_erase args (store db))" if "op = ''mdel''" "2 \<le> length args"
    using that wf us umap.lookup_erase_all [OF wf, of args] umap.wf_erase_all [OF wf, of args]
    by (simp add: pc mdel_keys_eq mdel_def mdel_loop_eq)
  show "obeys h cmd db (store db)" if "op = ''mget''" "2 \<le> length args"
    using that wf by (simp add: pc mget_def DB.get_def non_null_map)
qed

lemma obeys_invalid:
  assumes "umap_wf (store db)" and t: "tokenize cmd = op # args"
    and bad: "\<not> (op = ''put'' \<and> length args = 2)" "\<not> (op = ''del'' \<and> length args = 1)"
      "\<not> (op = ''get'' \<and> length args = 1)" "\<not> (op = ''mput'' \<and> 4 \<le> length args \<and> even (length args))"
      "\<not> (op = ''mdel'' \<and> 2 \<le> length args)" "\<not> (op = ''mget'' \<and> 2 \<le> length args)"
  shows "obeys h cmd db (store db)"
proof -
  have lens: "length (op # args) = 3 \<longleftrightarrow> length args = 2" "length (op # args) = 2 \<longleftrightarrow> length args = 1"
    "5 \<le> length (op # args) \<longleftrightarrow> 4 \<le> length args" "3 \<le> length (op # args) \<longleftrightarrow> 2 \<le> length args"
    "length (op # args) mod 2 \<noteq> 0 \<longleftrightarrow> even (length args)"
    by (simp_all add: mod_Suc even_iff_mod_2_eq_zero)
  have "parseCommand h cmd db = (Ok [], db)"
    by (simp only: parseCommand_def Let_def t list.case lens bad tokens_not_blank [OF t] length_0_conv
        if_False simp_thms)
  moreover have "parse (op # args) = Invalid" by (simp only: parse.simps bad if_False)
  ultimately show ?thesis
    using assms(1) by (simp add: obeys_def command_of_def t after_command_def del: parse.simps)
qed

lemma obeys_ex:
  assumes "umap_wf (store db)" and "usable (logger db)"
  shows "\<exists>st. obeys h cmd db st"
proof (cases "tokenize cmd")
  case Nil
  then have "isAllSpace cmd" by (simp add: tokenize_empty_iff)
  with Nil assms(1) have "obeys h cmd db (store db)"
    by (simp add: obeys_def parseCommand_blank command_of_def after_command_def)
  then show ?thesis ..
next
  case (Cons op args)
  note known = obeys_single [OF assms Cons] obeys_multi [OF assms Cons] and unknown = obeys_invalid [OF assms(1) Cons]
  consider (put) "op = ''put''" "length args = 2"
    | (del) "op = ''del''" "length args = 1"
    | (get) "op = ''get''" "length args = 1"
    | (mput) "op = ''mput''" "4 \<le> length args" "even (length args)"
    | (mdel) "op = ''mdel''" "2 \<le> length args"
    | (mget) "op = ''mget''" "2 \<le> length args"
    | (bad) "\<not> (op = ''put'' \<and> length args = 2)" "\<not> (op = ''del'' \<and> length args = 1)"
      "\<not> (op = ''get'' \<and> length args = 1)" "\<not> (op = ''mput'' \<and> 4 \<le> length args \<and> even (length args))"
      "\<not> (op = ''mdel'' \<and> 2 \<le> length args)" "\<not> (op = ''mget'' \<and> 2 \<le> length args)"
    by argo
  then show ?thesis by cases (rule exI, rule known unknown; assumption)+
qed

theorem parseCommand_eq:
  assumes "umap_wf (store db)" and "usable (logger db)"
  shows "\<exists>st. umap_wf st \<and> map_of st = effect (command_of cmd) (kv_of db) \<and>
    parseCommand h cmd db = (Ok (answer (command_of cmd) (kv_of db)), after_command (command_of cmd) st db)"
  using obeys_ex [OF assms] by (simp only: obeys_def)

end
