(* ===== verification/DB_Properties.thy ===== *)
theory DB_Properties
  imports DB_Correct
begin

text \<open>
  The promises of the class \<^verbatim>\<open>DB\<close>, stated on the map its table stands for: one command
  against the specification, the counter of changes, multiple deletion, the displays, and
  independence of the order in which the hash table keeps its entries.
\<close>

text \<open>C8. The command parser implements the specification. For every line, valid or not, it
  answers what the specification answers, changes the table as the specification changes
  the map, counts the changes unless a log is being replayed, and adds the entries of the
  command to the buffer; it never indexes outside a vector and never throws.\<close>
theorem parseCommand_refines:
  assumes "umap_wf (store db)" and "usable (logger db)"
  shows "(fst (parseCommand h line db) = Ok (answer (command_of line) (kv_of db)))
    \<and> (umap_wf (store (snd (parseCommand h line db))))
    \<and> (kv_of (snd (parseCommand h line db)) = effect (command_of line) (kv_of db))
    \<and> (dirty (snd (parseCommand h line db))
      = dirty db + (if replaying db then 0 else of_nat (changes (command_of line) (kv_of db))))
    \<and> (logger (snd (parseCommand h line db))
      = add_entries (logged (replaying db) (command_of line)) (logger db))
    \<and> (name (snd (parseCommand h line db)) = name db)
    \<and> (replaying (snd (parseCommand h line db)) = replaying db)"
proof (intro conjI)
  obtain st where st: "umap_wf st" "map_of st = effect (command_of line) (kv_of db)"
    "parseCommand h line db = (Ok (answer (command_of line) (kv_of db)), after_command (command_of line) st db)"
    using parseCommand_eq [OF assms] by blast
  show "fst (parseCommand h line db) = Ok (answer (command_of line) (kv_of db))" by (simp only: st(3) fst_conv)
  show "umap_wf (store (snd (parseCommand h line db)))" by (simp only: st(1,3) snd_conv after_command_simps)
  show "kv_of (snd (parseCommand h line db)) = effect (command_of line) (kv_of db)"
    by (simp only: st(2,3) snd_conv after_command_simps)
qed (use parseCommand_eq [OF assms] in \<open>metis snd_conv after_command_simps(5)\<close>,
    use parseCommand_eq [OF assms] in \<open>metis snd_conv after_command_simps(4)\<close>,
    use parseCommand_eq [OF assms] in \<open>metis snd_conv after_command_simps(2)\<close>,
    use parseCommand_eq [OF assms] in \<open>metis snd_conv after_command_simps(3)\<close>)

definition sample_db :: DB where
  "sample_db = \<lparr>store = [(''a'', ''1''), (''b'', ''2'')], name = ''k'',
     logger = \<lparr>keyspaceName = Some ''k'', logFilepath = aof_path ''k'', dbFilepath = db_path ''k'',
       logfile = Some 0, logBuffer = [], stopFlushThread = False, fileDescriptor = Some 0\<rparr>,
     replaying = False, dirty = 0\<rparr>"

lemma sample_db_simps [simp]:
  "umap_wf (store sample_db)" "usable (logger sample_db)" "kv_of sample_db = [''a'' \<mapsto> ''1'', ''b'' \<mapsto> ''2'']"
  "replaying sample_db = False" "dirty sample_db = 0"
  by (auto simp: sample_db_def umap_wf_def usable_def)

theorem parseCommand_refines_witness:
  "fst (parseCommand (\<lambda>_ _. 0) ''mget b x a'' sample_db) = Ok [''2'', ''1'']"
proof -
  have "command_of ''mget b x a'' = Mget [''b'', ''x'', ''a'']" by code_simp
  then show ?thesis
    using parseCommand_refines [of sample_db "\<lambda>_ _. 0" "''mget b x a''"]
    by (simp add: map_filter_simps)
qed

text \<open>Multiple deletion. \<^verbatim>\<open>mdel\<close> removes exactly the given keys, counts each key that was there
  once, and reports success only if every key was there and none was given twice.\<close>
lemma mdel_correct:
  assumes "umap_wf (store db)"
  shows "(fst (mdel keys db) = (distinct keys \<and> set keys \<subseteq> dom (kv_of db)))
    \<and> (kv_of (snd (mdel keys db)) = kv_of db |` (- set keys))
    \<and> (umap_wf (store (snd (mdel keys db))))
    \<and> (dirty (snd (mdel keys db))
      = dirty db + (if replaying db then 0 else of_nat (card (set keys \<inter> dom (kv_of db)))))"
  using umap.lookup_erase_all [OF assms, of keys] umap.wf_erase_all [OF assms, of keys]
  by (simp_all add: mdel_def mdel_loop_eq [OF assms])

section \<open>Displays\<close>

lemma total_bytes_sum:
  "total_bytes st = of_nat (\<Sum>(k, v) \<leftarrow> st. length k + length v)"
proof -
  have "fold (\<lambda>(key, value) n. n + (of_nat (length key) + of_nat (length value))) st (n :: size_t)
      = n + of_nat (\<Sum>(k, v) \<leftarrow> st. length k + length v)" for n
    by (induction st arbitrary: n) (auto simp: algebra_simps)
  then show ?thesis by (simp add: total_bytes_def)
qed

lemma sum_list_map_of:
  "distinct (map fst t) \<Longrightarrow> (\<Sum>(k, v) \<leftarrow> t. g k v) = (\<Sum>k\<in>dom (map_of t). g k (the (map_of t k)) :: nat)"
proof (induction t)
  case (Cons p t)
  obtain k v where p: "p = (k, v)" by fastforce
  have k: "k \<notin> dom (map_of t)" using Cons.prems p by (auto simp: dom_map_of_conv_image_fst)
  have "(\<Sum>j\<in>dom (map_of t). g j (the (map_of (p # t) j))) = (\<Sum>j\<in>dom (map_of t). g j (the (map_of t j)))"
    using k by (intro sum.cong) (auto simp: p)
  moreover have "dom (map_of (p # t)) = insert k (dom (map_of t))" by (auto simp: p split: if_splits)
  ultimately have "(\<Sum>j\<in>dom (map_of (p # t)). g j (the (map_of (p # t) j)))
      = g k v + (\<Sum>j\<in>dom (map_of t). g j (the (map_of t j)))"
    using k sum.insert [of "dom (map_of t)" k "\<lambda>j. g j (the (map_of (p # t) j))"]
    by (simp add: finite_dom_map_of p)
  moreover have "(\<Sum>(k, v) \<leftarrow> t. g k v) = (\<Sum>j\<in>dom (map_of t). g j (the (map_of t j)))"
    using Cons by simp
  moreover have "(\<Sum>(k, v) \<leftarrow> p # t. g k v) = g k v + (\<Sum>(k, v) \<leftarrow> t. g k v)" by (simp add: p)
  ultimately show ?case by (simp only:)
qed simp

lemma card_dom_map_of: "distinct (map fst t) \<Longrightarrow> card (dom (map_of t)) = length t"
  by (metis distinct_card dom_map_of_conv_image_fst length_map list.set_map)

text \<open>The statistics. \<^verbatim>\<open>stats\<close> reports the number of keys and the number of bytes of keys and
  values, modulo \<open>2 ^ 64\<close>: both are functions of the map, whatever the order of the table.\<close>

lemma displayStats_correct:
  assumes "umap_wf (store db)" and "card (dom (kv_of db)) = n"
    and "(\<Sum>k\<in>dom (kv_of db). length k + length (the (kv_of db k))) = b"
  shows "displayStats db = [NL] @ rule_line @ heading ''Stats'' db
    @ ''Total keys: '' @ show_nat n @ [NL] @ ''Total bytes: '' @ show_nat (b mod 2 ^ 64) @ [NL] @ rule_line"
proof -
  have "length (store db) = n" using assms(1,2) by (simp add: umap_wf_def card_dom_map_of)
  moreover have "total_bytes (store db) = of_nat b"
    using sum_list_map_of [of "store db" "\<lambda>k v. length k + length v"] assms(1,3)
    by (simp only: total_bytes_sum umap_wf_def)
  ultimately show ?thesis by (simp add: displayStats_def unat_of_nat)
qed

text \<open>The order of the hash table shows only as an order: two databases with the same map under
  different layouts give the same answers to every command and stay equal as maps, and what
  they list is the same up to order.\<close>
lemma layout_invisible:
  assumes "umap_wf (store db)" and "umap_wf (store db')" and "usable (logger db)" and "usable (logger db')"
    and "kv_of db = kv_of db'"
  shows "(fst (parseCommand h line db) = fst (parseCommand h' line db'))
    \<and> (kv_of (snd (parseCommand h line db)) = kv_of (snd (parseCommand h' line db')))
    \<and> (mset (getItems db) = mset (getItems db'))
    \<and> (set (getKeys db) = dom (kv_of db'))"
proof (intro conjI)
  obtain st st' where st: "map_of st = effect (command_of line) (kv_of db)"
    "parseCommand h line db = (Ok (answer (command_of line) (kv_of db)), after_command (command_of line) st db)"
    "map_of st' = effect (command_of line) (kv_of db')"
    "parseCommand h' line db' = (Ok (answer (command_of line) (kv_of db')), after_command (command_of line) st' db')"
    using parseCommand_eq [OF assms(1,3)] parseCommand_eq [OF assms(2,4)] by metis
  show "fst (parseCommand h line db) = fst (parseCommand h' line db')"
    by (simp only: st(2,4) fst_conv assms(5))
  show "kv_of (snd (parseCommand h line db)) = kv_of (snd (parseCommand h' line db'))"
    by (simp only: st snd_conv after_command_simps assms(5))
  have d: "distinct (map fst (store db))" "distinct (map fst (store db'))"
    using assms(1,2) by (simp_all add: umap_wf_def)
  then have "set (store db) = set (store db')" using assms(5) by (simp add: map_of_inject_set)
  then show "mset (getItems db) = mset (getItems db')"
    using d by (simp add: getItems_def set_eq_iff_mset_eq_distinct distinct_map)
  show "set (getKeys db) = dom (kv_of db')"
    by (simp only: getKeys_def set_map dom_map_of_conv_image_fst [symmetric] assms(5))
qed

end
