(* ===== verification/Persistence.thy ===== *)
theory Persistence
  imports DB_Properties
begin

text \<open>
  The life of a keyspace on disk: construction loads the log, commands fill the buffer, the
  flush thread moves the buffer to the file, shutdown compacts. The invariant
  \<open>journalled\<close> ties the table to the text of the log; from it follow recovery after a crash
  and after a shutdown.
\<close>

section \<open>Loading\<close>

text \<open>The entries that lines of a log put into the buffer while they are replayed.\<close>

definition relogged :: "string list \<Rightarrow> command list" where
  "relogged ls = concat (map (\<lambda>l. logged True (command_of l)) ls)"

lemma replay_line_command: "replay_line l m = effect (command_of l) m"
  by (simp add: replay_line_def command_of_def)

lemma load_lines_eq:
  assumes "umap_wf (store db)" and "usable (logger db)"
  shows "\<exists>st. umap_wf st \<and> map_of st = fold replay_line ls (kv_of db) \<and>
    load_lines h ls db = (Ok (), db\<lparr>store := st, replaying := (replaying db \<and> ls = []),
      logger := add_entries (relogged ls) (logger db)\<rparr>)"
  using assms
proof (induction ls arbitrary: db)
  case Nil
  then show ?case by (intro exI [of _ "store db"]) (simp add: relogged_def)
next
  case (Cons l ls)
  let ?c = "command_of l"
  obtain st where st: "umap_wf st" "map_of st = effect ?c (kv_of db)"
    "parseCommand h l (db\<lparr>replaying := True\<rparr>)
       = (Ok (answer ?c (kv_of db)), after_command ?c st (db\<lparr>replaying := True\<rparr>))"
    using parseCommand_eq [of "db\<lparr>replaying := True\<rparr>" l h] Cons.prems by auto
  let ?db = "(after_command ?c st (db\<lparr>replaying := True\<rparr>))\<lparr>replaying := False\<rparr>"
  obtain st' where st': "umap_wf st'" "map_of st' = fold replay_line ls (kv_of ?db)"
    "load_lines h ls ?db = (Ok (), ?db\<lparr>store := st', replaying := (replaying ?db \<and> ls = []),
       logger := add_entries (relogged ls) (logger ?db)\<rparr>)"
    using Cons.IH [of ?db] st(1) Cons.prems by auto
  show ?case
    using st st' by (intro exI [of _ st'])
      (simp add: replay_line_command [of l] after_command_def relogged_def)
qed

definition file_text :: "string \<Rightarrow> fs \<Rightarrow> string" where
  "file_text p s = (case read_file p s of None \<Rightarrow> [] | Some t \<Rightarrow> t)"

text \<open>A logger that is open on the log of a keyspace.\<close>

definition log_open :: "string \<Rightarrow> Log \<Rightarrow> fs \<Rightarrow> bool" where
  "log_open ks L s =
     (keyspaceName L = Some ks \<and> logFilepath L = aof_path ks \<and> dbFilepath L = db_path ks
      \<and> \<not> stopFlushThread L \<and> fileDescriptor L = logfile L
      \<and> (\<exists>i. logfile L = Some i \<and> dirents s (aof_path ks) = Some i))"

lemma log_open_add [simp]: "log_open ks (add_entries es L) s = log_open ks L s"
  by (simp add: log_open_def add_entries_def)

lemma logBuffer_add: "log_open ks L s \<Longrightarrow> logBuffer (add_entries es L) = logBuffer L @ unlines (map line_of es)"
  by (auto simp: log_open_def add_entries_def)

lemma Log_ctor_ok:
  assumes "writable s (aof_path ks)"
  shows "\<exists>L. Log_ctor ks s = (Ok L, snd (open_append (aof_path ks) s))
    \<and> log_open ks L (snd (open_append (aof_path ks) s)) \<and> logBuffer L = []"
proof -
  obtain i s1 where o: "open_append (aof_path ks) s = (Some i, s1)"
    using fst_open_append assms by (metis not_None_eq prod.collapse)
  then have "open_append (aof_path ks) s1 = (Some i, s1)" "dirents s1 (aof_path ks) = Some i"
    using open_append_again [of "aof_path ks" s i] open_append_entry [of "aof_path ks" s i] by simp_all
  with o show ?thesis by (simp add: Log_ctor_def log_open_def)
qed

lemma file_text_open:
  "wf_fs s \<Longrightarrow> file_text p (snd (open_append q s)) = file_text p s"
  by (auto simp: file_text_def read_open_append read_file_None)

lemma file_text_empty_fs [simp]: "file_text p empty_fs = []"
  by (simp add: file_text_def read_file_def)

lemma read_open_self:
  assumes "wf_fs s" and "writable s p"
  shows "read_file p (snd (open_append p s)) = Some (file_text p s)"
  using assms by (cases "dirents s p") (simp_all add: read_open_append file_text_def read_file_None read_file_Some)

theorem DB_ctor_ok:
  assumes "wf_fs s" and "writable s (aof_path ks)"
  shows "\<exists>db. DB_ctor h junk ks s = (Ok db, snd (open_append (aof_path ks) s))
    \<and> umap_wf (store db) \<and> kv_of db = recover (file_text (aof_path ks) s)
    \<and> name db = ks \<and> dirty db = 0
    \<and> replaying db = (junk \<and> getlines (file_text (aof_path ks) s) = [])
    \<and> log_open ks (logger db) (snd (open_append (aof_path ks) s))
    \<and> logBuffer (logger db) = unlines (map line_of (relogged (getlines (file_text (aof_path ks) s))))"
proof -
  let ?s = "snd (open_append (aof_path ks) s)" and ?ls = "getlines (file_text (aof_path ks) s)"
  obtain L where L: "Log_ctor ks s = (Ok L, ?s)" "log_open ks L ?s" "logBuffer L = []"
    using Log_ctor_ok [OF assms(2)] by blast
  let ?db = "\<lparr>store = [], name = ks, logger = L, replaying = junk, dirty = 0\<rparr>"
  have "usable L" using L(2) by (simp add: usable_def log_open_def)
  then obtain st where st: "umap_wf st" "map_of st = fold replay_line ?ls Map.empty"
    "load_lines h ?ls ?db = (Ok (), ?db\<lparr>store := st, replaying := (junk \<and> ?ls = []),
       logger := add_entries (relogged ?ls) L\<rparr>)"
    using load_lines_eq [of ?db ?ls h] by auto
  have "loadFromLog h ?s ?db = load_lines h ?ls ?db"
    using read_open_self [OF assms] by (simp add: loadFromLog_def)
  with L st logBuffer_add [OF L(2)] show ?thesis by (simp add: DB_ctor_def recover_def)
qed

section \<open>The invariant\<close>

definition journalled :: "string \<Rightarrow> DB \<Rightarrow> fs \<Rightarrow> bool" where
  "journalled ks db s =
     (wf_fs s \<and> umap_wf (store db) \<and> name db = ks \<and> \<not> replaying db \<and> log_open ks (logger db) s
      \<and> table_replayable (store db)
      \<and> written (file_text (aof_path ks) s) \<and> written (logBuffer (logger db))
      \<and> recover (file_text (aof_path ks) s @ logBuffer (logger db)) = kv_of db)"

lemma journalled_finished: "journalled ks db s \<Longrightarrow> finished (file_text (aof_path ks) s)"
  by (simp add: journalled_def written_finished)

lemma journalled_usable: "journalled ks db s \<Longrightarrow> usable (logger db)"
  by (simp add: journalled_def log_open_def usable_def)

text \<open>Events of a session: a command line of a client, or a pass of the flush thread.\<close>

datatype event = Command string | Flush

fun run_event :: "layout \<Rightarrow> event \<Rightarrow> DB \<times> fs \<Rightarrow> DB \<times> fs" where
  "run_event h (Command line) (db, s) = (snd (parseCommand h line db), s)"
| "run_event h Flush (db, s) = flush_db (db, s)"

fun run_session :: "layout \<Rightarrow> event list \<Rightarrow> DB \<times> fs \<Rightarrow> DB \<times> fs" where
  "run_session h [] w = w"
| "run_session h (e # es) w = run_session h es (run_event h e w)"

fun loggable_event :: "event \<Rightarrow> bool" where
  "loggable_event (Command line) = loggable (command_of line)"
| "loggable_event Flush = True"

lemma table_replayable_map: "umap_wf t \<Longrightarrow> table_replayable t \<longleftrightarrow>
    (\<forall>k v. map_of t k = Some v \<longrightarrow> replayable k \<and> replayable v)"
  by (auto simp: table_replayable_def list_all_iff umap_wf_def)

lemma effect_replayable:
  assumes "loggable c" and "\<forall>k v. m k = Some v \<longrightarrow> replayable k \<and> replayable v"
  shows "\<forall>k v. effect c m k = Some v \<longrightarrow> replayable k \<and> replayable v"
proof (cases c)
  case (Mput kvs)
  then have "\<forall>(k, v) \<in> set kvs. replayable k \<and> replayable v" using assms(1) by (simp add: list_all_iff)
  then show ?thesis using Mput assms(2) by (auto simp: map_add_Some_iff dest!: map_of_SomeD)
qed (use assms in \<open>auto simp: restrict_map_def split: if_splits\<close>)

lemma journalled_command:
  assumes j: "journalled ks db s" and l: "loggable (command_of line)"
  shows "journalled ks (snd (parseCommand h line db)) s"
    and "kv_of (snd (parseCommand h line db)) = effect (command_of line) (kv_of db)"
    and "logBuffer (logger (snd (parseCommand h line db)))
           = logBuffer (logger db) @ unlines (map line_of (entries (command_of line)))"
proof -
  let ?c = "command_of line"
  obtain st where st: "umap_wf st" "map_of st = effect ?c (kv_of db)"
    "parseCommand h line db = (Ok (answer ?c (kv_of db)), after_command ?c st db)"
    using parseCommand_eq [of db line h] j journalled_usable [OF j] by (auto simp: journalled_def)
  have rep: "table_replayable st"
  proof -
    have "umap_wf (store db)" "table_replayable (store db)" using j by (simp_all add: journalled_def)
    then have "\<forall>k v. kv_of db k = Some v \<longrightarrow> replayable k \<and> replayable v"
      by (simp add: table_replayable_map)
    from effect_replayable [OF l this] show ?thesis
      unfolding table_replayable_map [OF st(1)] st(2) .
  qed
  have lo: "logfile (logger db) \<noteq> None" "\<not> replaying db" using j by (auto simp: journalled_def log_open_def)
  then show buf: "logBuffer (logger (snd (parseCommand h line db)))
           = logBuffer (logger db) @ unlines (map line_of (entries ?c))"
    by (auto simp: st(3) add_entries_def)
  show eff: "kv_of (snd (parseCommand h line db)) = effect ?c (kv_of db)" by (simp add: st)
  have fin: "finished (file_text (aof_path ks) s @ logBuffer (logger db))"
    using j by (auto simp: journalled_def intro: finished_append written_finished)
  have "recover (file_text (aof_path ks) s @ logBuffer (logger (snd (parseCommand h line db)))) = effect ?c (kv_of db)"
    using recover_entries [OF fin l] j by (simp add: buf journalled_def)
  moreover have "log_open ks (logger (after_command ?c st db)) s"
    using j by (simp add: journalled_def)
  moreover have "written (logBuffer (logger (snd (parseCommand h line db))))"
    using j by (auto simp: buf journalled_def intro: written_append written_entries [OF l])
  ultimately show "journalled ks (snd (parseCommand h line db)) s"
    using j rep st by (simp add: journalled_def)
qed

lemma read_write_open:
  assumes "wf_fs s" and "log_open ks L s"
  shows "file_text q (stream_write (logfile L) t s) = file_text q s @ (if q = aof_path ks then t else [])"
proof -
  obtain i where i: "logfile L = Some i" "dirents s (aof_path ks) = Some i"
    using assms(2) by (auto simp: log_open_def)
  then show ?thesis
    using read_append_inode [OF assms(1) i(2), of q t]
    by (auto simp: stream_write_def file_text_def read_file_def split: option.splits if_splits)
qed

lemma flush_db_eq:
  assumes "log_open ks (logger db) s"
  shows "flush_db (db, s) = (db\<lparr>logger := (logger db)\<lparr>logBuffer := []\<rparr>\<rparr>,
    if logBuffer (logger db) = [] then s else stream_write (logfile (logger db)) (logBuffer (logger db)) s)"
  using assms by (simp add: flush_db_def flush_iteration_def log_open_def)

lemma journalled_flush:
  assumes j: "journalled ks db s" and f: "flush_db (db, s) = (db', s')"
  shows "journalled ks db' s'" and "kv_of db' = kv_of db" and "logBuffer (logger db') = []"
    and "file_text (aof_path ks) s' = file_text (aof_path ks) s @ logBuffer (logger db)"
proof -
  have w: "wf_fs s" "log_open ks (logger db) s" using j by (auto simp: journalled_def)
  from f flush_db_eq [OF w(2)] have db': "db' = db\<lparr>logger := (logger db)\<lparr>logBuffer := []\<rparr>\<rparr>"
    and s': "s' = (if logBuffer (logger db) = [] then s
                   else stream_write (logfile (logger db)) (logBuffer (logger db)) s)"
    by simp_all
  show a: "kv_of db' = kv_of db" and b: "logBuffer (logger db') = []" by (simp_all add: db')
  show t: "file_text (aof_path ks) s' = file_text (aof_path ks) s @ logBuffer (logger db)"
    using read_write_open [OF w] by (simp add: s')
  have "log_open ks (logger db') s'" "wf_fs s'" using w by (auto simp: db' s' log_open_def)
  with j t show "journalled ks db' s'" by (auto simp: journalled_def db' intro: written_append)
qed

text \<open>Opening a keyspace whose log the program has written establishes the invariant, unless the
  field \<^verbatim>\<open>replaying\<close> happens to hold true and no line of a log resets it.\<close>

lemma relogged_written: "written t \<Longrightarrow> relogged (getlines t) = []"
proof -
  assume "written t"
  then obtain es where es: "list_all is_entry es" "getlines t = map line_of es"
    by (rule written_getlines)
  have one: "logged True (command_of (line_of e)) = []" if "is_entry e" for e
    unfolding command_of_def parse_line_of_entry [OF that]
    using that by (rule is_entry_cases) (simp_all only: logged.simps if_True)
  have "list_all is_entry es \<Longrightarrow> relogged (map line_of es) = []"
    by (induction es) (simp_all only: relogged_def list.map list.pred_inject concat.simps one append.simps)
  with es show "relogged (getlines t) = []" by simp
qed

lemma written_recover_replayable:
  assumes "written t" and "recover t k = Some v"
  shows "replayable k \<and> replayable v"
proof -
  obtain es where es: "list_all is_entry es" "getlines t = map line_of es"
    using assms(1) by (rule written_getlines)
  have "list_all is_entry es \<Longrightarrow> \<forall>k v. m k = Some v \<longrightarrow> replayable k \<and> replayable v
    \<Longrightarrow> \<forall>k v. fold replay_line (map line_of es) m k = Some v \<longrightarrow> replayable k \<and> replayable v" for m
  proof (induction es arbitrary: m)
    case (Cons e es)
    have "is_entry e" using Cons.prems(1) by simp
    then have "loggable e" by (simp only: is_entry_def)
    moreover have "replay_line (line_of e) m = effect e m"
      by (simp only: replay_line_def parse_line_of_entry [OF \<open>is_entry e\<close>])
    ultimately have rep: "\<forall>k v. replay_line (line_of e) m k = Some v \<longrightarrow> replayable k \<and> replayable v"
      using effect_replayable [OF _ Cons.prems(2)] by (simp only: simp_thms)
    have "list_all is_entry es" using Cons.prems(1) by simp
    from Cons.IH [OF this rep] show ?case unfolding list.map fold_simps(2) .
  qed simp
  from this [OF es(1), of Map.empty] assms(2) show ?thesis by (simp add: recover_def es(2))
qed

lemma DB_ctor_journalled:
  assumes "wf_fs s" and "writable s (aof_path ks)" and "written (file_text (aof_path ks) s)"
    and "\<not> junk \<or> file_text (aof_path ks) s \<noteq> []"
  shows "\<exists>db. DB_ctor h junk ks s = (Ok db, snd (open_append (aof_path ks) s))
    \<and> journalled ks db (snd (open_append (aof_path ks) s)) \<and> logBuffer (logger db) = []
    \<and> kv_of db = recover (file_text (aof_path ks) s) \<and> dirty db = 0"
proof -
  let ?s = "snd (open_append (aof_path ks) s)" and ?t = "file_text (aof_path ks) s"
  obtain db where db: "DB_ctor h junk ks s = (Ok db, ?s)" "umap_wf (store db)" "kv_of db = recover ?t"
    "name db = ks" "dirty db = 0" "replaying db = (junk \<and> getlines ?t = [])"
    "log_open ks (logger db) ?s" "logBuffer (logger db) = []"
    using DB_ctor_ok [OF assms(1,2), of h junk] relogged_written [OF assms(3)] by auto
  have "?t \<noteq> [] \<Longrightarrow> getlines ?t \<noteq> []" by (simp add: getlines_eq_Nil)
  then have "\<not> replaying db" using assms(4) db(6) by auto
  moreover have "table_replayable (store db)"
    using db(2,3) written_recover_replayable [OF assms(3)] by (simp add: table_replayable_map)
  moreover have "file_text (aof_path ks) ?s = ?t" using assms(1) by (simp add: file_text_open)
  ultimately have "journalled ks db ?s"
    using db assms(1,3) by (simp add: journalled_def wf_open_append)
  with db show ?thesis by blast
qed

end
