(* ===== verification/Log_Threads.thy ===== *)
theory Log_Threads
  imports Persistence
begin

text \<open>
  The threads on one \<^verbatim>\<open>Log\<close> object of \<^verbatim>\<open>src/log.cpp\<close>: client threads in \<^verbatim>\<open>appendCommand\<close>, the
  flush thread in the loop of \<^verbatim>\<open>startAppendFlusher\<close>, and the thread that runs \<^verbatim>\<open>closeLog\<close>.
  A step is one access to shared state: taking or releasing \<^verbatim>\<open>logMutex\<close>, what is done under
  it, a write, an \<^verbatim>\<open>fsync\<close>, the flag, the join. The wait on the condition variable may end at
  any time (time-out, notification, spuriously).
\<close>

section \<open>State and steps\<close>

datatype flusher_pc = F_check | F_wait | F_lock | F_crit | F_write | F_sync | F_done
datatype closer_pc = C_idle | C_join | C_lock | C_crit | C_sync | C_close | C_closed
datatype appender_pc = A_idle | A_lock string | A_crit string
datatype owner = Flusher | Closer | Appender nat

record log_threads =
  buffer :: string
  local_buffer :: string
  log_file :: string
  on_disk :: string
  file_open :: bool
  stop_flag :: bool
  log_mutex :: "owner option"
  flusher :: flusher_pc
  closer :: closer_pc
  appender :: "nat \<Rightarrow> appender_pc"
  history :: string

text \<open>\<open>history\<close> is a ghost: all lines in the order in which they entered the buffer.\<close>

datatype action =
    Check nat Ops string string | Lock nat | Append nat
  | Test_stop | Wake | Flush_lock | Flush_empty | Flush_swap | Flush_write | Flush_sync
  | Stop | Join | Close_lock | Close_empty | Close_write | Close_sync | Close

inductive thread_step :: "log_threads \<Rightarrow> action \<Rightarrow> log_threads \<Rightarrow> bool" where
  check: "appender s t = A_idle \<Longrightarrow> file_open s \<Longrightarrow> log_line op key value = Inr line \<Longrightarrow>
    thread_step s (Check t op key value) (s\<lparr>appender := (appender s)(t := A_lock line)\<rparr>)"
| lock: "appender s t = A_lock line \<Longrightarrow> log_mutex s = None \<Longrightarrow>
    thread_step s (Lock t) (s\<lparr>log_mutex := Some (Appender t), appender := (appender s)(t := A_crit line)\<rparr>)"
| append: "appender s t = A_crit line \<Longrightarrow>
    thread_step s (Append t) (s\<lparr>buffer := buffer s @ line, history := history s @ line,
      log_mutex := None, appender := (appender s)(t := A_idle)\<rparr>)"
| test_stop: "flusher s = F_check \<Longrightarrow>
    thread_step s Test_stop (s\<lparr>flusher := if stop_flag s then F_done else F_wait\<rparr>)"
| wake: "flusher s = F_wait \<Longrightarrow> thread_step s Wake (s\<lparr>flusher := F_lock\<rparr>)"
| flush_lock: "flusher s = F_lock \<Longrightarrow> log_mutex s = None \<Longrightarrow>
    thread_step s Flush_lock (s\<lparr>log_mutex := Some Flusher, flusher := F_crit\<rparr>)"
| flush_empty: "flusher s = F_crit \<Longrightarrow> buffer s = [] \<Longrightarrow>
    thread_step s Flush_empty (s\<lparr>log_mutex := None, flusher := F_check\<rparr>)"
| flush_swap: "flusher s = F_crit \<Longrightarrow> buffer s \<noteq> [] \<Longrightarrow>
    thread_step s Flush_swap (s\<lparr>local_buffer := buffer s, buffer := [], log_mutex := None, flusher := F_write\<rparr>)"
| flush_write: "flusher s = F_write \<Longrightarrow>
    thread_step s Flush_write (s\<lparr>log_file := log_file s @ local_buffer s, flusher := F_sync\<rparr>)"
| flush_sync: "flusher s = F_sync \<Longrightarrow>
    thread_step s Flush_sync (s\<lparr>on_disk := log_file s, flusher := F_check\<rparr>)"
| stop: "closer s = C_idle \<Longrightarrow> thread_step s Stop (s\<lparr>stop_flag := True, closer := C_join\<rparr>)"
| join: "closer s = C_join \<Longrightarrow> flusher s = F_done \<Longrightarrow> thread_step s Join (s\<lparr>closer := C_lock\<rparr>)"
| close_lock: "closer s = C_lock \<Longrightarrow> log_mutex s = None \<Longrightarrow>
    thread_step s Close_lock (s\<lparr>log_mutex := Some Closer, closer := C_crit\<rparr>)"
| close_empty: "closer s = C_crit \<Longrightarrow> buffer s = [] \<Longrightarrow>
    thread_step s Close_empty (s\<lparr>log_mutex := None, closer := C_close\<rparr>)"
| close_write: "closer s = C_crit \<Longrightarrow> buffer s \<noteq> [] \<Longrightarrow>
    thread_step s Close_write (s\<lparr>log_file := log_file s @ buffer s, closer := C_sync\<rparr>)"
| close_sync: "closer s = C_sync \<Longrightarrow>
    thread_step s Close_sync (s\<lparr>on_disk := log_file s, buffer := [], log_mutex := None, closer := C_close\<rparr>)"
| close: "closer s = C_close \<Longrightarrow> thread_step s Close (s\<lparr>file_open := False, closer := C_closed\<rparr>)"

inductive_cases thread_stepE: "thread_step s a s'"

inductive_simps thread_step_simps:
  "thread_step s (Check t op key value) s'" "thread_step s (Lock t) s'" "thread_step s (Append t) s'"
  "thread_step s Test_stop s'" "thread_step s Wake s'" "thread_step s Flush_lock s'"
  "thread_step s Flush_empty s'" "thread_step s Flush_swap s'" "thread_step s Flush_write s'"
  "thread_step s Flush_sync s'" "thread_step s Stop s'" "thread_step s Join s'"
  "thread_step s Close_lock s'" "thread_step s Close_empty s'" "thread_step s Close_write s'"
  "thread_step s Close_sync s'" "thread_step s Close s'"

code_pred (modes: i \<Rightarrow> i \<Rightarrow> o \<Rightarrow> bool) thread_step .

text \<open>A run along a list of actions, and the state in which the constructor leaves the object:
  the file holds what it held before, the flush thread is about to test the flag.\<close>

inductive thread_run :: "log_threads \<Rightarrow> action list \<Rightarrow> log_threads \<Rightarrow> bool" where
  run_Nil: "thread_run s [] s"
| run_Cons: "thread_step s a s1 \<Longrightarrow> thread_run s1 as s2 \<Longrightarrow> thread_run s (a # as) s2"

inductive_simps thread_run_simps: "thread_run s [] s'" "thread_run s (a # as) s'"

definition opened :: "string \<Rightarrow> log_threads" where
  "opened text = \<lparr>buffer = [], local_buffer = [], log_file = text, on_disk = text, file_open = True,
     stop_flag = False, log_mutex = None, flusher = F_check, closer = C_idle,
     appender = (\<lambda>_. A_idle), history = text\<rparr>"

abbreviation any_step :: "log_threads \<Rightarrow> log_threads \<Rightarrow> bool" where
  "any_step s s' \<equiv> \<exists>a. thread_step s a s'"

section \<open>Mutual exclusion\<close>

definition in_crit :: "log_threads \<Rightarrow> owner \<Rightarrow> bool" where
  "in_crit s p = (case p of
     Flusher \<Rightarrow> flusher s = F_crit
   | Closer \<Rightarrow> closer s \<in> {C_crit, C_sync}
   | Appender t \<Rightarrow> (\<exists>line. appender s t = A_crit line))"

lemma in_crit_simps [simp]:
  "in_crit s Flusher = (flusher s = F_crit)" "in_crit s Closer = (closer s \<in> {C_crit, C_sync})"
  "in_crit s (Appender t) = (\<exists>line. appender s t = A_crit line)"
  by (simp_all add: in_crit_def)

definition mutex_inv :: "log_threads \<Rightarrow> bool" where
  "mutex_inv s = (\<forall>p. in_crit s p \<longleftrightarrow> log_mutex s = Some p)"

lemma all_owner: "(\<forall>p. P p) \<longleftrightarrow> P Flusher \<and> P Closer \<and> (\<forall>t. P (Appender t))"
  by (metis owner.exhaust)

lemma mutex_inv_iff: "mutex_inv s \<longleftrightarrow>
    (flusher s = F_crit \<longleftrightarrow> log_mutex s = Some Flusher)
  \<and> (closer s \<in> {C_crit, C_sync} \<longleftrightarrow> log_mutex s = Some Closer)
  \<and> (\<forall>t. (\<exists>line. appender s t = A_crit line) \<longleftrightarrow> log_mutex s = Some (Appender t))"
  by (simp only: mutex_inv_def all_owner in_crit_simps)

section \<open>Where the lines are\<close>

definition conserved :: "log_threads \<Rightarrow> bool" where
  "conserved s = (log_file s @ (if flusher s = F_write then local_buffer s else [])
     @ (if closer s = C_sync then [] else buffer s) = history s)"

definition phases :: "log_threads \<Rightarrow> bool" where
  "phases s = (stop_flag s = (closer s \<noteq> C_idle) \<and> (flusher s = F_done \<longrightarrow> stop_flag s)
     \<and> (closer s \<notin> {C_idle, C_join} \<longrightarrow> flusher s = F_done)
     \<and> file_open s = (closer s \<noteq> C_closed)
     \<and> (flusher s \<noteq> F_sync \<and> closer s \<noteq> C_sync \<longrightarrow> on_disk s = log_file s)
     \<and> prefix (on_disk s) (log_file s))"

text \<open>The lines on their way into the buffer are lines of the log format.\<close>

definition lines_ok :: "log_threads \<Rightarrow> bool" where
  "lines_ok s = (\<forall>t line. appender s t = A_lock line \<or> appender s t = A_crit line
     \<longrightarrow> (\<exists>op key value. log_line op key value = Inr line))"

definition threads_inv :: "log_threads \<Rightarrow> bool" where
  "threads_inv s = (mutex_inv s \<and> conserved s \<and> phases s \<and> lines_ok s)"

lemma mutex_inv_step: "mutex_inv s \<Longrightarrow> phases s \<Longrightarrow> thread_step s a s' \<Longrightarrow> mutex_inv s'"
  by (erule thread_stepE, simp_all add: mutex_inv_iff)
    (metis appender_pc.distinct(3), metis option.inject owner.inject owner.distinct)

lemma conserved_step:
  assumes "conserved s" and "mutex_inv s" and "phases s" and "thread_step s a s'"
  shows "conserved s'"
  using assms(4,1-3) unfolding mutex_inv_iff conserved_def phases_def
  by (cases rule: thread_step.cases) (auto split: if_splits)

lemma phases_step: "phases s \<Longrightarrow> thread_step s a s' \<Longrightarrow> phases s'"
  unfolding phases_def by (erule thread_stepE) (auto intro: prefix_prefix)

lemma lines_ok_step: "lines_ok s \<Longrightarrow> thread_step s a s' \<Longrightarrow> lines_ok s'"
  unfolding lines_ok_def by (erule thread_stepE) auto

interpretation log_inv: step_invariant "\<lambda>s. \<exists>text. s = opened text" any_step threads_inv
proof
  show "threads_inv s" if "\<exists>text. s = opened text" for s
    using that by (auto simp: threads_inv_def mutex_inv_iff conserved_def phases_def lines_ok_def opened_def)
  show "threads_inv t" if "threads_inv s" "any_step s t" for s t
    using that mutex_inv_step conserved_step phases_step lines_ok_step by (auto simp: threads_inv_def)
qed

lemma thread_run_steps: "thread_run s as s' \<Longrightarrow> any_step\<^sup>*\<^sup>* s s'"
  by (induction rule: thread_run.induct) (auto intro: converse_rtranclp_into_rtranclp)

lemma run_inv: "thread_run (opened text) as s \<Longrightarrow> threads_inv s"
  using log_inv.inv_reachable [of "opened text" s] thread_run_steps by blast

section \<open>Properties of every run\<close>

text \<open>Mutual exclusion. In every run no two threads are between taking \<^verbatim>\<open>logMutex\<close> and
  releasing it.\<close>
lemma log_mutual_exclusion:
  assumes "thread_run (opened text) as s" and "in_crit s p" and "in_crit s q"
  shows "p = q"
  using run_inv [OF assms(1)] assms(2,3) by (simp add: threads_inv_def mutex_inv_def)

text \<open>One line on its way to the disk.\<close>

definition sample_run :: "action list" where
  "sample_run = [Check 0 DEL ''a'' [], Test_stop, Lock 0, Append 0, Wake, Flush_lock, Flush_swap]"

lemma sample_run: "\<exists>s. thread_run (opened []) sample_run s \<and> flusher s = F_write
    \<and> buffer s = [] \<and> local_buffer s = ''del a'' @ [NL] \<and> on_disk s = []"
  by (simp add: sample_run_def thread_run_simps thread_step_simps opened_def)

lemma quiet_disk:
  assumes "threads_inv s" and "flusher s \<noteq> F_write" and "flusher s \<noteq> F_sync" and "closer s \<noteq> C_sync"
  shows "on_disk s @ buffer s = history s"
  using assms by (auto simp: threads_inv_def conserved_def phases_def)

text \<open>C15. No line is lost or duplicated while the threads run. At any moment the file, the batch the
  flush thread is writing and the buffer together are the history of appended lines, and
  what is on disk is a beginning of it: a crash loses at most the batch and the buffer.\<close>
theorem log_lines_conserved:
  assumes "thread_run (opened text) as s"
  shows "(log_file s @ (if flusher s = F_write then local_buffer s else [])
      @ (if closer s = C_sync then [] else buffer s) = history s)
    \<and> (prefix (on_disk s) (history s))
    \<and> (flusher s \<noteq> F_write \<longrightarrow> flusher s \<noteq> F_sync \<longrightarrow> closer s \<noteq> C_sync
      \<longrightarrow> on_disk s @ buffer s = history s)"
proof (intro conjI)
  have "conserved s" "phases s" using run_inv [OF assms] by (simp_all add: threads_inv_def)
  then have c: "log_file s @ (if flusher s = F_write then local_buffer s else [])
      @ (if closer s = C_sync then [] else buffer s) = history s"
    by (simp only: conserved_def)
  from c show "log_file s @ (if flusher s = F_write then local_buffer s else [])
      @ (if closer s = C_sync then [] else buffer s) = history s" .
  show "prefix (on_disk s) (history s)"
    using \<open>phases s\<close> unfolding phases_def c [symmetric] by (metis prefix_prefix)
  show "flusher s \<noteq> F_write \<longrightarrow> flusher s \<noteq> F_sync \<longrightarrow> closer s \<noteq> C_sync
      \<longrightarrow> on_disk s @ buffer s = history s"
    using quiet_disk [OF run_inv [OF assms]] by blast
qed

theorem log_lines_conserved_witness:
  "\<exists>s. thread_run (opened []) sample_run s \<and> prefix (on_disk s) (history s)
    \<and> log_file s @ local_buffer s = history s \<and> local_buffer s = ''del a'' @ [NL]"
proof -
  obtain s where s: "thread_run (opened []) sample_run s" "flusher s = F_write" "buffer s = []"
    "local_buffer s = ''del a'' @ [NL]"
    using sample_run by blast
  show ?thesis using log_lines_conserved [OF s(1)] s by (intro exI [of _ s]) (simp split: if_splits)
qed

lemma closed_step: "closer s = C_closed \<Longrightarrow> phases s \<Longrightarrow> thread_step s a s' \<Longrightarrow>
    closer s' = C_closed \<and> on_disk s' = on_disk s \<and> log_file s' = log_file s"
  unfolding phases_def by (erule thread_stepE) auto

lemma closed_run:
  "thread_run s bs s' \<Longrightarrow> closer s = C_closed \<Longrightarrow> phases s \<Longrightarrow>
    closer s' = C_closed \<and> on_disk s' = on_disk s \<and> log_file s' = log_file s"
proof (induction rule: thread_run.induct)
  case (run_Cons s a s1 bs s2)
  with closed_step [of s a s1] phases_step [of s a s1] show ?case by simp
qed simp

text \<open>C27. After the close. Once \<^verbatim>\<open>closeLog\<close> has finished, the disk holds the history except for what
  is in the buffer, and that never gets there: a thread that saw the file open and
  appends after the last look at the buffer loses its line.\<close>
theorem closed_log_final:
  assumes "thread_run (opened text) as s" and "closer s = C_closed" and "thread_run s bs s'"
  shows "(on_disk s @ buffer s = history s)
    \<and> (on_disk s' = on_disk s)
    \<and> (on_disk s' @ buffer s' = history s')"
proof (intro conjI)
  have p: "phases s" using run_inv [OF assms(1)] by (simp add: threads_inv_def)
  then have "flusher s = F_done" using assms(2) by (simp add: phases_def)
  then show "on_disk s @ buffer s = history s"
    using quiet_disk [OF run_inv [OF assms(1)]] assms(2) by simp
  note c = closed_run [OF assms(3,2) p]
  then show "on_disk s' = on_disk s" by simp
  have "threads_inv s'"
    using log_inv.inv_steps thread_run_steps [OF assms(3)] run_inv [OF assms(1)] by blast
  then show "on_disk s' @ buffer s' = history s'"
    using c by (auto simp: threads_inv_def conserved_def phases_def)
qed

theorem closed_log_final_witness:
  "\<exists>s s'. thread_run (opened [])
      [Check 0 DEL ''a'' [], Stop, Test_stop, Join, Close_lock, Close_empty, Close] s
    \<and> thread_run s [Lock 0, Append 0] s' \<and> history s' = ''del a'' @ [NL] \<and> on_disk s' = []"
proof -
  let ?as = "[Check 0 DEL ''a'' [], Stop, Test_stop, Join, Close_lock, Close_empty, Close]"
  obtain s s' where s: "thread_run (opened []) ?as s" "closer s = C_closed" "on_disk s = []"
    "thread_run s [Lock 0, Append 0] s'" "history s' = ''del a'' @ [NL]"
    by (simp add: thread_run_simps thread_step_simps opened_def)
  with closed_log_final [OF s(1,2,4)] show ?thesis by metis
qed

section \<open>Closing completes\<close>

fun flusher_rank :: "flusher_pc \<Rightarrow> nat" where
  "flusher_rank F_done = 0" | "flusher_rank F_check = 1" | "flusher_rank F_sync = 2"
| "flusher_rank F_write = 3" | "flusher_rank F_crit = 4" | "flusher_rank F_lock = 5"
| "flusher_rank F_wait = 6"

fun closer_rank :: "closer_pc \<Rightarrow> nat" where
  "closer_rank C_closed = 0" | "closer_rank C_close = 1" | "closer_rank C_sync = 2"
| "closer_rank C_crit = 3" | "closer_rank C_lock = 4" | "closer_rank C_join = 5" | "closer_rank C_idle = 6"

definition closing_rank :: "log_threads \<Rightarrow> nat" where
  "closing_rank s = flusher_rank (flusher s) + closer_rank (closer s)
     + (if \<exists>t. log_mutex s = Some (Appender t) then 1 else 0)"

fun enters :: "action \<Rightarrow> bool" where
  "enters (Check t op key value) = True" | "enters (Lock t) = True" | "enters _ = False"

text \<open>With the flag set, every step but those by which a client enters \<^verbatim>\<open>appendCommand\<close> or
  takes the lock brings the close nearer.\<close>

lemma closing_rank_decreases:
  assumes "threads_inv s" and "closer s \<noteq> C_idle" and "thread_step s a s'" and "\<not> enters a"
  shows "closing_rank s' < closing_rank s \<and> closer s' \<noteq> C_idle"
  using assms(3,1,2,4) unfolding threads_inv_def mutex_inv_iff phases_def closing_rank_def
  by (cases rule: thread_step.cases) auto

text \<open>And one of them can always be taken.\<close>

definition enabled :: "log_threads \<Rightarrow> action \<Rightarrow> bool" where
  "enabled s a = (\<exists>s'. thread_step s a s')"

lemma enabled_simps:
  "enabled s (Append t) = (\<exists>line. appender s t = A_crit line)"
  "enabled s Test_stop = (flusher s = F_check)" "enabled s Wake = (flusher s = F_wait)"
  "enabled s Flush_lock = (flusher s = F_lock \<and> log_mutex s = None)"
  "enabled s Flush_empty = (flusher s = F_crit \<and> buffer s = [])"
  "enabled s Flush_swap = (flusher s = F_crit \<and> buffer s \<noteq> [])"
  "enabled s Flush_write = (flusher s = F_write)" "enabled s Flush_sync = (flusher s = F_sync)"
  "enabled s Join = (closer s = C_join \<and> flusher s = F_done)"
  "enabled s Close_lock = (closer s = C_lock \<and> log_mutex s = None)"
  "enabled s Close_empty = (closer s = C_crit \<and> buffer s = [])"
  "enabled s Close_write = (closer s = C_crit \<and> buffer s \<noteq> [])"
  "enabled s Close_sync = (closer s = C_sync)" "enabled s Close = (closer s = C_close)"
  by (simp_all add: enabled_def thread_step_simps)

lemma closing_enabled:
  assumes i: "threads_inv s" and c: "closer s \<noteq> C_idle" "closer s \<noteq> C_closed"
  shows "\<exists>a s'. thread_step s a s' \<and> \<not> enters a"
proof -
  have "\<exists>a. enabled s a \<and> \<not> enters a"
  proof (cases "log_mutex s")
    case None
    then have f: "flusher s \<noteq> F_crit" "closer s \<notin> {C_crit, C_sync}"
      using i by (simp_all add: threads_inv_def mutex_inv_iff)
    have "\<exists>a \<in> {Join, Close_lock, Close, Test_stop, Wake, Flush_lock, Flush_write, Flush_sync}. enabled s a"
      using None f c by (cases "flusher s"; cases "closer s") (simp_all add: enabled_simps)
    then show ?thesis by auto
  next
    case (Some p)
    then have "in_crit s p" using i by (simp add: threads_inv_def mutex_inv_def)
    then have "\<exists>a \<in> {Flush_empty, Flush_swap, Close_empty, Close_write, Close_sync} \<union> range Append. enabled s a"
      by (cases p; cases "buffer s = []") (auto simp: enabled_simps)
    then show ?thesis by auto
  qed
  then show ?thesis by (auto simp: enabled_def)
qed

lemma closing_run:
  assumes "threads_inv s" and "closer s \<noteq> C_idle"
  shows "\<exists>bs s'. thread_run s bs s' \<and> closer s' = C_closed \<and> length bs \<le> closing_rank s
    \<and> list_all (\<lambda>a. \<not> enters a) bs"
  using assms
proof (induction "closing_rank s" arbitrary: s rule: less_induct)
  case less
  show ?case
  proof (cases "closer s = C_closed")
    case True
    then show ?thesis by (intro exI [of _ "[]"] exI [of _ s]) (simp add: thread_run_simps)
  next
    case False
    then obtain a s1 where a: "thread_step s a s1" "\<not> enters a"
      using closing_enabled less.prems by blast
    note d = closing_rank_decreases [OF less.prems a]
    have "threads_inv s1" using log_inv.inv_step a(1) less.prems(1) by blast
    then obtain bs s' where bs: "thread_run s1 bs s'" "closer s' = C_closed" "length bs \<le> closing_rank s1"
      "list_all (\<lambda>a. \<not> enters a) bs"
      using less.hyps [of s1] d by blast
    with a d show ?thesis
      by (intro exI [of _ "a # bs"] exI [of _ s']) (auto simp: thread_run_simps)
  qed
qed

text \<open>C25. Closing completes. From any state a run can reach after \<^verbatim>\<open>closeLog\<close> has set the flag, the
  threads need at most twelve more steps, none of them a new append, until the log is
  closed; so \<^verbatim>\<open>closeLog\<close> neither deadlocks with the flush thread nor waits for a client.\<close>
theorem closing_completes:
  assumes "thread_run (opened text) as s" and "closer s \<noteq> C_idle"
  shows "\<exists>bs s'. thread_run s bs s' \<and> closer s' = C_closed \<and> length bs \<le> 12
    \<and> list_all (\<lambda>a. \<not> enters a) bs"
proof -
  have "closer_rank (closer s) \<le> 5" using assms(2) by (cases "closer s") simp_all
  moreover have "flusher_rank (flusher s) \<le> 6" by (cases "flusher s") simp_all
  ultimately have "closing_rank s \<le> 12" by (simp add: closing_rank_def)
  with closing_run [OF run_inv [OF assms(1)] assms(2)] show ?thesis by fastforce
qed

theorem closing_completes_witness:
  "\<exists>s bs s'. thread_run (opened []) (sample_run @ [Stop]) s \<and> thread_run s bs s'
    \<and> closer s' = C_closed \<and> length bs \<le> 12"
proof -
  obtain s where s: "thread_run (opened []) (sample_run @ [Stop]) s" "closer s = C_join"
    by (simp add: sample_run_def thread_run_simps thread_step_simps opened_def)
  then have "closer s \<noteq> C_idle" by simp
  from closing_completes [OF s(1) this] s(1) show ?thesis by blast
qed

section \<open>The atomic operations of theory Log\<close>

text \<open>What theory Log sees of a state: the buffer, and the file with the batch in flight.\<close>

definition log_view :: "log_threads \<Rightarrow> string \<times> string" where
  "log_view s = (if closer s = C_sync then [] else buffer s,
     log_file s @ (if flusher s = F_write then local_buffer s else []))"

lemma closeLog_view:
  "closeLog L w = (L', w') \<Longrightarrow> log_open ks L w \<Longrightarrow> wf_fs w \<Longrightarrow>
    (logBuffer L', file_text (aof_path ks) w') = ([], file_text (aof_path ks) w @ logBuffer L)"
  using read_write_open [of w ks L "aof_path ks" "logBuffer L"]
  by (auto simp: closeLog_def Let_def split: if_splits)

lemma flush_view:
  "flush_iteration (L, w) = (L', w') \<Longrightarrow> log_open ks L w \<Longrightarrow> wf_fs w \<Longrightarrow>
    (logBuffer L', file_text (aof_path ks) w') = ([], file_text (aof_path ks) w @ logBuffer L)"
  using read_write_open [of w ks L "aof_path ks" "logBuffer L"]
  by (auto simp: flush_iteration_def log_open_def split: if_splits)

text \<open>C14. The threads implement the atomic operations. Seen as a buffer and a file, an append is
  \<^verbatim>\<open>appendCommand\<close>, taking the batch is one pass of the flush thread, the last look at the
  buffer is \<^verbatim>\<open>closeLog\<close>, and no other step shows. So the properties proved of sequences of
  the atomic operations hold of every interleaving.\<close>
theorem threads_refine_log:
  assumes "thread_run (opened text) as s" and "thread_step s a s'"
    and "wf_fs w" and "log_open ks L w" and "log_view s = (logBuffer L, file_text (aof_path ks) w)"
  shows "case a of
      Append t \<Rightarrow> \<exists>op key value L'. appendCommand op key value L = (Ok (), L')
        \<and> log_view s' = (logBuffer L', file_text (aof_path ks) w)
    | Flush_swap \<Rightarrow> (let (L', w') = flush_iteration (L, w)
        in log_view s' = (logBuffer L', file_text (aof_path ks) w'))
    | Close_empty \<Rightarrow> (let (L', w') = closeLog L w
        in log_view s' = (logBuffer L', file_text (aof_path ks) w'))
    | Close_write \<Rightarrow> (let (L', w') = closeLog L w
        in log_view s' = (logBuffer L', file_text (aof_path ks) w'))
    | _ \<Rightarrow> log_view s' = log_view s"
proof -
  have inv: "mutex_inv s" "phases s" "lines_ok s" using run_inv [OF assms(1)] by (simp_all add: threads_inv_def)
  obtain L1 w1 where f: "flush_iteration (L, w) = (L1, w1)" by fastforce
  obtain L2 w2 where c: "closeLog L w = (L2, w2)" by fastforce
  note fv = flush_view [OF f assms(4,3)] and cv = closeLog_view [OF c assms(4,3)]
  show ?thesis
    using assms(2)
  proof (cases rule: thread_step.cases)
    case (append t line)
    then obtain opn k v where l: "log_line opn k v = Inr line"
      using inv(3) unfolding lines_ok_def by blast
    have "logfile L \<noteq> None" using assms(4) by (auto simp: log_open_def)
    then have "appendCommand opn k v L = (Ok (), L\<lparr>logBuffer := logBuffer L @ line\<rparr>)"
      using l by (auto simp: appendCommand_def)
    moreover have "closer s \<noteq> C_sync"
      using inv(1) append by (auto simp: mutex_inv_iff)
    moreover from this have "log_view s' = (logBuffer L @ line, file_text (aof_path ks) w)"
      using assms(5) append by (auto simp: log_view_def)
    ultimately show ?thesis using append(1) by fastforce
  next
    case flush_swap
    then have "closer s \<noteq> C_sync" using inv(1) by (auto simp: mutex_inv_iff)
    with flush_swap assms(5) fv show ?thesis by (simp add: f log_view_def)
  next
    case close_empty
    then have "flusher s = F_done" using inv(2) by (auto simp: phases_def)
    with close_empty assms(5) cv show ?thesis by (simp add: c log_view_def)
  next
    case close_write
    then have "flusher s = F_done" using inv(2) by (auto simp: phases_def)
    with close_write assms(5) cv show ?thesis by (simp add: c log_view_def)
  qed (auto simp: log_view_def)
qed

theorem threads_refine_log_witness:
  "\<exists>s s' L w. thread_run (opened []) (butlast sample_run) s \<and> thread_step s Flush_swap s'
    \<and> log_view s = (logBuffer L, file_text (aof_path ''k'') w) \<and> logBuffer L = ''del a'' @ [NL]
    \<and> log_view s' = (let (L', w') = flush_iteration (L, w) in (logBuffer L', file_text (aof_path ''k'') w'))"
proof -
  obtain s where s: "thread_run (opened []) (butlast sample_run) s" "flusher s = F_crit"
    "buffer s = ''del a'' @ [NL]" "log_file s = []" "closer s = C_idle"
    by (simp add: sample_run_def thread_run_simps thread_step_simps opened_def)
  then obtain s' where s': "thread_step s Flush_swap s'" by (simp add: thread_step_simps)
  let ?w = "snd (open_append (aof_path ''k'') empty_fs)"
  obtain L where L: "log_open ''k'' L ?w" "logBuffer L = []"
    using Log_ctor_ok [of empty_fs "''k''"] by auto
  let ?L = "L\<lparr>logBuffer := ''del a'' @ [NL]\<rparr>"
  have open': "log_open ''k'' ?L ?w" using L(1) by (simp add: log_open_def)
  have w: "wf_fs ?w" by (simp add: wf_open_append)
  have view: "log_view s = (logBuffer ?L, file_text (aof_path ''k'') ?w)"
    using s by (simp add: log_view_def file_text_open)
  have "log_view s' = (let (L', w') = flush_iteration (?L, ?w) in (logBuffer L', file_text (aof_path ''k'') w'))"
    using threads_refine_log [OF s(1) s' w open' view] by (simp add: Let_def case_prod_unfold)
  moreover have "logBuffer ?L = ''del a'' @ [NL]" by simp
  ultimately show ?thesis using s(1) s' view by blast
qed

end
