(* ===== verification/Recovery.thy ===== *)
theory Recovery
  imports Persistence
begin

text \<open>
  What survives: the state after a crash, after a shutdown and over several sessions, the
  keyspaces a session leaves alone, and the cases in which the program loses data or brings
  deleted data back.
\<close>

section \<open>Sessions and the journal\<close>

fun commands_of :: "event list \<Rightarrow> command list" where
  "commands_of [] = []"
| "commands_of (Command line # es) = command_of line # commands_of es"
| "commands_of (Flush # es) = commands_of es"

text \<open>The commands before the last pass of the flush thread, and those after it.\<close>

definition flushed :: "event list \<Rightarrow> command list" where
  "flushed es = commands_of (rev (dropWhile (\<lambda>e. e \<noteq> Flush) (rev es)))"

definition pending :: "event list \<Rightarrow> command list" where
  "pending es = commands_of (rev (takeWhile (\<lambda>e. e \<noteq> Flush) (rev es)))"

definition log_text :: "command list \<Rightarrow> string" where
  "log_text cs = unlines (map line_of (concat (map entries cs)))"

lemma commands_of_append [simp]: "commands_of (es @ fs) = commands_of es @ commands_of fs"
  by (induction es rule: commands_of.induct) simp_all

lemma flushed_pending: "commands_of es = flushed es @ pending es"
  unfolding flushed_def pending_def
  by (metis commands_of_append rev_append rev_rev_ident takeWhile_dropWhile_id)

lemma flushed_simps [simp]:
  "flushed [] = []" "pending [] = []"
  "flushed (es @ [Flush]) = commands_of es" "pending (es @ [Flush]) = []"
  "flushed (es @ [Command l]) = flushed es" "pending (es @ [Command l]) = pending es @ [command_of l]"
  by (simp_all add: flushed_def pending_def)

lemma log_text_append [simp]: "log_text (cs @ ds) = log_text cs @ log_text ds"
  and log_text_Nil [simp]: "log_text [] = []"
  by (simp_all add: log_text_def)

lemma log_text_single: "log_text [c] = unlines (map line_of (entries c))"
  by (simp add: log_text_def)

lemma run_session_append [simp]: "run_session h (es @ fs) w = run_session h fs (run_session h es w)"
  by (induction es arbitrary: w) simp_all

lemma run_event_writable: "run_event h e (db, s) = (db', s') \<Longrightarrow> writable s' = writable s"
  by (cases e) (auto simp: flush_db_def flush_iteration_def split: if_splits)

lemma run_session_writable: "run_session h es (db, s) = (db', s') \<Longrightarrow> writable s' = writable s"
proof (induction es arbitrary: db s)
  case (Cons e es)
  obtain db1 s1 where "run_event h e (db, s) = (db1, s1)" by fastforce
  with Cons show ?case using run_event_writable by fastforce
qed simp

lemma session_journal:
  assumes "journalled ks db s" and "logBuffer (logger db) = []" and "list_all loggable_event es"
    and "run_session h es (db, s) = (db', s')"
  shows "journalled ks db' s' \<and> kv_of db' = fold effect (commands_of es) (kv_of db)
    \<and> file_text (aof_path ks) s' = file_text (aof_path ks) s @ log_text (flushed es)
    \<and> logBuffer (logger db') = log_text (pending es)"
  using assms(3,4)
proof (induction es arbitrary: db' s' rule: rev_induct)
  case Nil
  with assms(1,2) show ?case by simp
next
  case (snoc e es)
  obtain db1 s1 where r: "run_session h es (db, s) = (db1, s1)" by fastforce
  with snoc have IH: "journalled ks db1 s1" "kv_of db1 = fold effect (commands_of es) (kv_of db)"
    "file_text (aof_path ks) s1 = file_text (aof_path ks) s @ log_text (flushed es)"
    "logBuffer (logger db1) = log_text (pending es)"
    by auto
  show ?case
  proof (cases e)
    case (Command l)
    with snoc.prems have "loggable (command_of l)" and r': "db' = snd (parseCommand h l db1)" "s' = s1"
      using r by auto
    then show ?thesis
      using journalled_command [OF IH(1), of l h] IH Command by (simp add: log_text_single)
  next
    case Flush
    with snoc.prems r have f: "flush_db (db1, s1) = (db', s')" by simp
    then show ?thesis
      using journalled_flush [OF IH(1) f] IH Flush
      by (simp add: flushed_pending [of es] flip: log_text_append)
  qed
qed

lemma commands_loggable: "list_all loggable_event es \<Longrightarrow> list_all loggable (commands_of es)"
  by (induction es rule: commands_of.induct) simp_all

lemma recover_session:
  assumes "finished t" and "list_all loggable cs"
  shows "recover (t @ log_text cs) = fold effect cs (recover t)"
  using recover_all_entries [OF assms] by (simp add: log_text_def)

lemma session_recover:
  assumes "journalled ks db s" and "logBuffer (logger db) = []" and "list_all loggable_event es"
    and "run_session h es (db, s) = (db', s')"
  shows "recover (file_text (aof_path ks) s') = fold effect (flushed es) (kv_of db)"
proof -
  note sj = session_journal [OF assms]
  have "finished (file_text (aof_path ks) s)" "recover (file_text (aof_path ks) s) = kv_of db"
    using assms(1,2) journalled_finished [OF assms(1)] by (simp_all add: journalled_def)
  moreover have "list_all loggable (flushed es)"
    using commands_loggable [OF assms(3)] by (simp add: flushed_pending)
  ultimately show ?thesis using sj recover_session by simp
qed

text \<open>C10. Recovery after a crash. From a state in which the log says what the table is and the buffer is
  empty, commands run in any order with passes of the flush thread, whose keys and values
  are such that a line of the log gives them back (\<open>loggable\<close>; for one that is not see the empty
  key in theory Hazards); then the process dies. Constructing the keyspace again, if its log
  can be opened, gives the state as of the last flush: all the commands before it, none of
  those after it.\<close>
theorem crash_recovery:
  assumes "journalled ks db s" and "logBuffer (logger db) = []" and "list_all loggable_event es"
    and "run_session h es (db, s) = (db', s')" and "writable s' (aof_path ks)"
  shows "\<exists>db2 s2. DB_ctor h2 junk ks s' = (Ok db2, s2) \<and> kv_of db2 = fold effect (flushed es) (kv_of db)"
proof -
  have "wf_fs s'" using session_journal [OF assms(1-4)] by (simp add: journalled_def)
  then show ?thesis using DB_ctor_ok [OF _ assms(5), of h2 junk] session_recover [OF assms(1-4)] by metis
qed

text \<open>A first session on an empty disk.\<close>

lemma sample_lines:
  "command_of ''put a 1'' = Put ''a'' ''1''" "command_of ''put b 2'' = Put ''b'' ''2''"
  "command_of ''del a'' = Del ''a''"
  by code_simp+

lemma sample_words [simp]: "replayable ''a''" "replayable ''b''" "replayable ''1''" "replayable ''2''"
  by (rule plain_word_replayable, simp add: plain_word_def is_word_def isspace_def)+

lemma first_session:
  obtains db where "DB_ctor h False ks empty_fs = (Ok db, snd (open_append (aof_path ks) empty_fs))"
    and "journalled ks db (snd (open_append (aof_path ks) empty_fs))" and "logBuffer (logger db) = []"
    and "kv_of db = Map.empty"
  using DB_ctor_journalled [of empty_fs ks False h] by auto

theorem crash_recovery_witness:
  "\<exists>db s db' s' db2 s2. DB_ctor (\<lambda>_ _. 0) False ''k'' empty_fs = (Ok db, s)
    \<and> run_session (\<lambda>_ _. 0) [Command ''put a 1'', Flush, Command ''put b 2''] (db, s) = (db', s')
    \<and> DB_ctor (\<lambda>_ _. 0) False ''k'' s' = (Ok db2, s2) \<and> kv_of db2 = [''a'' \<mapsto> ''1'']"
proof -
  let ?h = "\<lambda>_ _. 0" and ?es = "[Command ''put a 1'', Flush, Command ''put b 2'']"
  let ?s = "snd (open_append (aof_path ''k'') empty_fs)"
  obtain db where db: "DB_ctor ?h False ''k'' empty_fs = (Ok db, ?s)" "journalled ''k'' db ?s"
    "logBuffer (logger db) = []" "kv_of db = Map.empty"
    using first_session .
  have l: "list_all loggable_event ?es" by (simp add: sample_lines)
  obtain db' s' where r: "run_session ?h ?es (db, ?s) = (db', s')" by fastforce
  have w: "writable s' (aof_path ''k'')" using run_session_writable [OF r] by simp
  have "flushed ?es = [Put ''a'' ''1'']" by (simp add: flushed_def sample_lines)
  with crash_recovery [OF db(2,3) l r w, of ?h False] db(4)
  have "\<exists>db2 s2. DB_ctor ?h False ''k'' s' = (Ok db2, s2) \<and> kv_of db2 = [''a'' \<mapsto> ''1'']" by simp
  with db(1) r show ?thesis by blast
qed

section \<open>Shutdown\<close>

lemma snapshot_frame:
  assumes "wf_fs s"
  shows "wf_fs (snd (writeBinarySnapshot lz4 st L s))"
    and "q \<noteq> dbFilepath L \<Longrightarrow> read_file q (snd (writeBinarySnapshot lz4 st L s)) = read_file q s"
    and "writable (snd (writeBinarySnapshot lz4 st L s)) = writable s"
proof -
  obtain w s1 where o: "open_trunc (dbFilepath L) s = (w, s1)" by fastforce
  have w: "wf_fs s1" "writable s1 = writable s"
    using assms wf_open_trunc [of s "dbFilepath L"] writable_simps(3) [of "dbFilepath L" s] by (simp_all add: o)
  have "\<exists>out. snd (writeBinarySnapshot lz4 st L s) = stream_write w out s1"
    by (cases w; cases "snapshot_bytes lz4 (serialize st)")
      (auto simp: writeBinarySnapshot_def o stream_write_def append_inode_def intro: exI [of _ "[]"])
  then obtain out where out: "snd (writeBinarySnapshot lz4 st L s) = stream_write w out s1" by blast
  have eq: "stream_write w out s1 = write_file (dbFilepath L) out s" by (simp add: write_file_def o)
  show "wf_fs (snd (writeBinarySnapshot lz4 st L s))" using w by (simp add: out)
  show "writable (snd (writeBinarySnapshot lz4 st L s)) = writable s" using w by (simp add: out)
  show "q \<noteq> dbFilepath L \<Longrightarrow> read_file q (snd (writeBinarySnapshot lz4 st L s)) = read_file q s"
    using assms by (simp add: out eq read_write_file)
qed

text \<open>Compaction, when it runs, replaces the log by the compacted text.\<close>

lemma compactLog_eq:
  assumes "wf_fs s" and "keyspaceName L = Some ks" and "logFilepath L = aof_path ks"
    and "writable s (temp_path ks)" and "compactLog st d L s = (r, s')"
  shows "r = Ok ()" and "wf_fs s'" and "writable s' = writable s"
    and "file_text (aof_path ks) s' =
      (if d = 0 \<or> st = [] then file_text (aof_path ks) s else compact_text st)"
    and "q \<noteq> aof_path ks \<Longrightarrow> q \<noteq> temp_path ks \<Longrightarrow> read_file q s' = read_file q s"
    and "d \<noteq> 0 \<Longrightarrow> st \<noteq> [] \<Longrightarrow> read_file (temp_path ks) s' = None"
proof -
  have d: "(d \<le> 0) = (d = 0)" by simp
  let ?s1 = "write_file (temp_path ks) (compact_text st) s"
  have rd: "read_file (temp_path ks) ?s1 = Some (compact_text st)"
    using assms(1,4) by (simp add: read_write_file)
  then obtain i where i: "dirents ?s1 (temp_path ks) = Some i" by (auto simp: read_file_def)
  have run: "(r, s') = (if d = 0 \<or> st = [] then (Ok (), s)
      else (Ok (), snd (fs_rename (temp_path ks) (aof_path ks) ?s1)))"
    using assms(5) by (auto simp: compactLog_def assms(2,3) d Let_def fs_rename_def i)
  have ren: "read_file p (snd (fs_rename (temp_path ks) (aof_path ks) ?s1)) =
     (if p = aof_path ks then Some (compact_text st)
      else if p = temp_path ks then None else read_file p s)" for p
    using read_rename [OF i, of "aof_path ks" p] rd assms(1) by (simp add: read_write_file)
  have wf1: "wf_fs (snd (fs_rename (temp_path ks) (aof_path ks) ?s1))"
    using assms(1) by (intro wf_fs_intros)
  show "r = Ok ()" using run by (auto split: if_splits)
  show "wf_fs s'" using run wf1 assms(1) by (auto split: if_splits)
  show "writable s' = writable s" using run by (auto split: if_splits)
  show "file_text (aof_path ks) s' =
      (if d = 0 \<or> st = [] then file_text (aof_path ks) s else compact_text st)"
    using run by (auto simp: file_text_def ren split: if_splits)
  show "q \<noteq> aof_path ks \<Longrightarrow> q \<noteq> temp_path ks \<Longrightarrow> read_file q s' = read_file q s"
    using run by (auto simp: ren split: if_splits)
  show "d \<noteq> 0 \<Longrightarrow> st \<noteq> [] \<Longrightarrow> read_file (temp_path ks) s' = None"
    using run by (auto simp: ren split: if_splits)
qed

lemma closeLog_eq:
  assumes "wf_fs s" and "log_open ks L s" and "closeLog L s = (L', s')"
  shows "L' = L\<lparr>stopFlushThread := True, logBuffer := [], logfile := None, fileDescriptor := None\<rparr>"
    and "wf_fs s'" and "writable s' = writable s"
    and "file_text q s' = file_text q s @ (if q = aof_path ks then logBuffer L else [])"
    and "q \<noteq> aof_path ks \<Longrightarrow> read_file q s' = read_file q s"
proof -
  obtain i where i: "logfile L = Some i" "dirents s (aof_path ks) = Some i"
    using assms(2) by (auto simp: log_open_def)
  have e: "L' = L\<lparr>stopFlushThread := True, logBuffer := [], logfile := None, fileDescriptor := None\<rparr>"
    "s' = (if logBuffer L = [] then s else stream_write (logfile L) (logBuffer L) s)"
    using assms(3) by (auto simp: closeLog_def Let_def split: if_splits)
  then show "L' = L\<lparr>stopFlushThread := True, logBuffer := [], logfile := None, fileDescriptor := None\<rparr>"
    and "wf_fs s'" and "writable s' = writable s"
    using assms(1) by simp_all
  show "file_text q s' = file_text q s @ (if q = aof_path ks then logBuffer L else [])"
    using read_write_open [OF assms(1,2), of q "logBuffer L"] by (auto simp: e)
  show "q \<noteq> aof_path ks \<Longrightarrow> read_file q s' = read_file q s"
    using read_append_inode [OF assms(1) i(2)] by (simp add: e i(1) stream_write_def)
qed

text \<open>The file system and the table after a shutdown, whatever the snapshot does.\<close>

lemma shutdown_eq:
  assumes w: "wf_fs s" and o: "log_open ks (logger db) s" and t: "writable s (temp_path ks)"
    and sh: "shutdown lz4 db s = (r, db', s')"
  shows "wf_fs s'" and "writable s' = writable s" and "store db' = store db" and "dirty db' = dirty db"
    and "file_text (aof_path ks) s' =
      (if dirty db = 0 \<or> store db = [] then file_text (aof_path ks) s @ logBuffer (logger db)
       else compact_text (store db))"
    and "q \<notin> {aof_path ks, temp_path ks, db_path ks} \<Longrightarrow> read_file q s' = read_file q s"
    and "dirty db \<noteq> 0 \<Longrightarrow> store db \<noteq> [] \<Longrightarrow> read_file (temp_path ks) s' = None"
    and "dirty db = 0 \<or> store db = [] \<Longrightarrow> read_file (temp_path ks) s' = read_file (temp_path ks) s"
proof -
  obtain L1 s1 where c: "closeLog (logger db) s = (L1, s1)" by fastforce
  note cl = closeLog_eq [OF w o c]
  have L1: "keyspaceName L1 = Some ks" "logFilepath L1 = aof_path ks" "dbFilepath L1 = db_path ks"
    using o by (simp_all add: cl(1) log_open_def)
  obtain r2 s2 where k: "compactLog (store db) (dirty db) L1 s1 = (r2, s2)" by fastforce
  have t1: "writable s1 (temp_path ks)" using t cl(3) by simp
  note cp = compactLog_eq [OF cl(2) L1(1,2) t1 k]
  note sf = snapshot_frame [OF cp(2)]
  have e: "db' = db\<lparr>logger := L1\<rparr>" "s' = snd (writeBinarySnapshot lz4 (store db) L1 s2)"
    using sh c k cp(1) by (auto simp: shutdown_def split: prod.splits)
  show "wf_fs s'" "writable s' = writable s" "store db' = store db" "dirty db' = dirty db"
    using sf cp(3) cl(3) by (simp_all add: e)
  show "file_text (aof_path ks) s' =
      (if dirty db = 0 \<or> store db = [] then file_text (aof_path ks) s @ logBuffer (logger db)
       else compact_text (store db))"
    using sf(2) [where q = "aof_path ks"] cp(4) cl(4) [of "aof_path ks"] by (simp add: e L1 file_text_def)
  show "q \<notin> {aof_path ks, temp_path ks, db_path ks} \<Longrightarrow> read_file q s' = read_file q s"
    using sf(2) [where q = q] cp(5) [of q] cl(5) [of q] by (simp add: e L1)
  show "dirty db \<noteq> 0 \<Longrightarrow> store db \<noteq> [] \<Longrightarrow> read_file (temp_path ks) s' = None"
    using sf(2) [where q = "temp_path ks"] cp(6) by (simp add: e L1)
  show "dirty db = 0 \<or> store db = [] \<Longrightarrow> read_file (temp_path ks) s' = read_file (temp_path ks) s"
    using sf(2) [where q = "temp_path ks"] cl(5) [of "temp_path ks"] k by (auto simp: e L1 compactLog_def)
qed

lemma compact_lines:
  assumes "table_replayable t"
  shows "length (getlines (compact_text t)) = length t"
proof -
  have "loggable (Mput t)" using assms by (simp add: table_replayable_def)
  from entries_lines [OF this] have "getlines (compact_text t) = map line_of (entries (Mput t))"
    by (simp only: compact_text_entries getlines_unlines)
  then show ?thesis by simp
qed

lemma effect_entry_dom:
  assumes "is_entry e" and "finite (dom m)"
  shows "finite (dom (effect e m)) \<and> card (dom (effect e m)) \<le> Suc (card (dom m))"
  using assms by (auto elim!: is_entry_cases simp: card_insert_if card_Diff1_le le_SucI)

text \<open>A log of so many lines has at most so many keys.\<close>

lemma written_dom:
  assumes "written t"
  shows "card (dom (recover t)) \<le> length (getlines t)"
proof -
  obtain es where es: "list_all is_entry es" "getlines t = map line_of es"
    using assms by (rule written_getlines)
  have "list_all is_entry es \<Longrightarrow> finite (dom m)
    \<Longrightarrow> card (dom (fold replay_line (map line_of es) m)) \<le> length es + card (dom m)" for m
  proof (induction es arbitrary: m)
    case (Cons e es)
    have e: "is_entry e" "list_all is_entry es" using Cons.prems(1) by simp_all
    have "replay_line (line_of e) m = effect e m"
      by (simp only: replay_line_def parse_line_of_entry [OF e(1)])
    moreover have d: "finite (dom (effect e m))" "card (dom (effect e m)) \<le> Suc (card (dom m))"
      using effect_entry_dom [OF e(1) Cons.prems(2)] by simp_all
    moreover note Cons.IH [OF e(2) d(1)]
    ultimately show ?case by (simp only: list.map fold_simps list.size)
  qed simp
  from this [OF es(1), of Map.empty] show ?thesis by (simp add: recover_def es(2))
qed

lemma shutdown_recover:
  assumes j: "journalled ks db s" and t: "writable s (temp_path ks)"
    and sh: "shutdown lz4 db s = (r, db', s')"
  shows "written (file_text (aof_path ks) s')" and "recover (file_text (aof_path ks) s') = kv_of db"
proof -
  have f: "wf_fs s" "log_open ks (logger db) s" "umap_wf (store db)" "table_replayable (store db)"
    "written (file_text (aof_path ks) s)" "written (logBuffer (logger db))"
    "recover (file_text (aof_path ks) s @ logBuffer (logger db)) = kv_of db"
    using j by (simp_all add: journalled_def)
  note tx = shutdown_eq(5) [OF f(1,2) t sh]
  show "written (file_text (aof_path ks) s')" "recover (file_text (aof_path ks) s') = kv_of db"
    using f by (simp_all add: tx written_append written_compact recover_compact)
qed

text \<open>C17. Restart after a shutdown. Whatever the snapshot does (it may fail, and it is never
  read), constructing the keyspace from the files a shutdown leaves gives the table it had,
  with an empty buffer, nothing counted as changed and the invariant established again.\<close>
theorem restart_after_shutdown:
  assumes "journalled ks db s" and "writable s (temp_path ks)" and "writable s (aof_path ks)"
    and "shutdown lz4 db s = (r, db', s')"
  shows "\<exists>db2 s2. DB_ctor h False ks s' = (Ok db2, s2) \<and> journalled ks db2 s2
    \<and> kv_of db2 = kv_of db \<and> logBuffer (logger db2) = [] \<and> dirty db2 = 0"
proof -
  have f: "wf_fs s" "log_open ks (logger db) s" using assms(1) by (simp_all add: journalled_def)
  note e = shutdown_eq [OF f assms(2,4)]
  note r = shutdown_recover [OF assms(1,2,4)]
  have "writable s' (aof_path ks)" using assms(3) by (simp add: e(2))
  from DB_ctor_journalled [OF e(1) this r(1), of False h] r(2) show ?thesis by auto
qed

theorem restart_after_shutdown_witness:
  "\<exists>db s r db' s' db2 s2. DB_ctor (\<lambda>_ _. 0) False ''k'' empty_fs = (Ok db, s)
    \<and> shutdown (\<lambda>src n cap. (0, [])) (snd (parseCommand (\<lambda>_ _. 0) ''put a 1'' db)) s = (r, db', s')
    \<and> DB_ctor (\<lambda>_ _. 0) False ''k'' s' = (Ok db2, s2) \<and> kv_of db2 = [''a'' \<mapsto> ''1'']"
proof -
  let ?h = "\<lambda>_ _. 0" and ?s = "snd (open_append (aof_path ''k'') empty_fs)"
  obtain db where db: "DB_ctor ?h False ''k'' empty_fs = (Ok db, ?s)" "journalled ''k'' db ?s"
    "kv_of db = Map.empty"
    using first_session .
  let ?db = "snd (parseCommand ?h ''put a 1'' db)"
  have j: "journalled ''k'' ?db ?s" "kv_of ?db = [''a'' \<mapsto> ''1'']"
    using journalled_command [OF db(2), of "''put a 1''" ?h] db(3) by (simp_all add: sample_lines)
  have w: "writable ?s p" for p by simp
  obtain r db' s' where sh: "shutdown (\<lambda>src n cap. (0, [])) ?db ?s = (r, db', s')" by (metis prod_cases3)
  from restart_after_shutdown [OF j(1) w w sh, of ?h] j(2)
  have "\<exists>db2 s2. DB_ctor ?h False ''k'' s' = (Ok db2, s2) \<and> kv_of db2 = [''a'' \<mapsto> ''1'']" by auto
  with db(1) sh show ?thesis by blast
qed

text \<open>Compaction shrinks the log. A shutdown after a change leaves one line for each key of
  the table, and that is at most the number of lines there were, in the file and the buffer.\<close>
lemma compaction_shrinks:
  assumes "journalled ks db s" and "writable s (temp_path ks)" and "shutdown lz4 db s = (r, db', s')"
    and "dirty db \<noteq> 0" and "store db \<noteq> []"
  shows "(length (getlines (file_text (aof_path ks) s')) = card (dom (kv_of db)))
    \<and> (length (getlines (file_text (aof_path ks) s'))
      \<le> length (getlines (file_text (aof_path ks) s @ logBuffer (logger db))))"
proof (intro conjI)
  have f: "wf_fs s" "log_open ks (logger db) s" "umap_wf (store db)" "table_replayable (store db)"
    "written (file_text (aof_path ks) s @ logBuffer (logger db))"
    "recover (file_text (aof_path ks) s @ logBuffer (logger db)) = kv_of db"
    using assms(1) by (simp_all add: journalled_def written_append)
  have tx: "file_text (aof_path ks) s' = compact_text (store db)"
    using shutdown_eq(5) [OF f(1,2) assms(2,3)] assms(4,5) by simp
  have "length (getlines (compact_text (store db))) = length (store db)"
    using f(4) by (rule compact_lines)
  also have "\<dots> = card (dom (kv_of db))" using f(3) by (simp add: umap_wf_def card_dom_map_of)
  finally show *: "length (getlines (file_text (aof_path ks) s')) = card (dom (kv_of db))" by (simp add: tx)
  show "length (getlines (file_text (aof_path ks) s'))
      \<le> length (getlines (file_text (aof_path ks) s @ logBuffer (logger db)))"
    using written_dom [OF f(5)] by (simp add: * f(6))
qed

text \<open>The destructor leaves the files \<^verbatim>\<open>shutdown\<close> leaves: the thread has been stopped already.\<close>

lemma shutdown_stops: "shutdown lz4 db s = (r, db', s') \<Longrightarrow> stopFlushThread (logger db')"
  by (auto simp: shutdown_def closeLog_def Let_def split: prod.splits sum.splits if_splits)

lemma DB_dtor_eq:
  assumes "shutdown lz4 db s = (r, db', s')"
  shows "snd (DB_dtor lz4 db s) = s'"
  using shutdown_stops [OF assms]
  by (cases r) (auto simp: DB_dtor_def assms Log_dtor_def split: error.split)

section \<open>Several sessions\<close>

text \<open>Lives of a keyspace one after the other: construction, a session, destruction; each with what the
  uninitialised field \<^verbatim>\<open>replaying\<close> happens to hold, and with a name that lives as long as the
  database, as in \<^verbatim>\<open>main\<close>.\<close>

fun lives :: "layout \<Rightarrow> lz4 \<Rightarrow> string \<Rightarrow> (bool \<times> event list) list \<Rightarrow> fs \<Rightarrow> fs" where
  "lives h lz4 ks [] s = s"
| "lives h lz4 ks ((junk, es) # ls) s =
     (case DB_ctor h junk ks s of
        (Inl e, s) \<Rightarrow> s
      | (Inr db, s) \<Rightarrow>
          (let (db, s) = run_session h es (db, s) in lives h lz4 ks ls (snd (DB_dtor lz4 db s))))"

text \<open>A log that has lines keeps some: the flag \<^verbatim>\<open>replaying\<close> matters only before the first.\<close>

lemma shutdown_nonempty:
  assumes "wf_fs s" and "log_open ks (logger db) s" and "writable s (temp_path ks)"
    and "shutdown lz4 db s = (r, db', s')" and "file_text (aof_path ks) s \<noteq> []"
  shows "file_text (aof_path ks) s' \<noteq> []"
proof -
  have "st \<noteq> [] \<Longrightarrow> compact_text st \<noteq> []" for st by (cases st) (auto simp: compact_text_def)
  then show ?thesis using shutdown_eq(5) [OF assms(1-4)] assms(5) by simp
qed

lemma one_life:
  assumes "wf_fs s" and "writable s (aof_path ks)" and "writable s (temp_path ks)"
    and "written (file_text (aof_path ks) s)" and "list_all loggable_event es"
    and "\<not> junk \<or> file_text (aof_path ks) s \<noteq> []"
  obtains db s1 db' s2 s3 where "DB_ctor h junk ks s = (Ok db, s1)" and "run_session h es (db, s1) = (db', s2)"
    and "snd (DB_dtor lz4 db' s2) = s3" and "wf_fs s3" and "writable s3 = writable s"
    and "written (file_text (aof_path ks) s3)"
    and "recover (file_text (aof_path ks) s3) = fold effect (commands_of es) (recover (file_text (aof_path ks) s))"
    and "file_text (aof_path ks) s \<noteq> [] \<Longrightarrow> file_text (aof_path ks) s3 \<noteq> []"
proof -
  let ?s1 = "snd (open_append (aof_path ks) s)"
  obtain db where db: "DB_ctor h junk ks s = (Ok db, ?s1)" "journalled ks db ?s1"
    "logBuffer (logger db) = []" "kv_of db = recover (file_text (aof_path ks) s)"
    using DB_ctor_journalled [OF assms(1,2,4,6), of h] by blast
  obtain db' s2 where r: "run_session h es (db, ?s1) = (db', s2)" by fastforce
  note sj = session_journal [OF db(2,3) assms(5) r]
  then have j: "journalled ks db' s2" by simp
  have w: "writable s2 = writable s" using run_session_writable [OF r] by simp
  obtain rr db'' s3 where sh: "shutdown lz4 db' s2 = (rr, db'', s3)" by (metis prod_cases3)
  have t: "writable s2 (temp_path ks)" using assms(3) w by simp
  have f: "wf_fs s2" "log_open ks (logger db') s2" using j by (simp_all add: journalled_def)
  note e = shutdown_eq [OF f t sh] and rec = shutdown_recover [OF j t sh]
  show ?thesis
  proof (rule that [OF db(1) r DB_dtor_eq [OF sh] e(1)])
    show "writable s3 = writable s" using e(2) w by simp
    show "written (file_text (aof_path ks) s3)" by (rule rec(1))
    show "recover (file_text (aof_path ks) s3) = fold effect (commands_of es) (recover (file_text (aof_path ks) s))"
      using rec(2) sj db(4) by simp
    show "file_text (aof_path ks) s3 \<noteq> []" if "file_text (aof_path ks) s \<noteq> []"
      using shutdown_nonempty [OF f t sh] sj that assms(1) by (simp add: file_text_open)
  qed
qed

text \<open>C7. Durability over sessions. However often a keyspace is opened, used and destroyed, the
  commands of all its sessions, in order, are what the log of the keyspace says in the end;
  so nothing is lost by compaction, by a failing snapshot or by the order of flushes. Every
  key and value must be one that a line of the log gives back (\<open>loggable\<close>: not empty, and with a
  quotation mark at the beginning only as a complete quotation of several words), the log one
  that the program has written, its directory writable; and the uninitialised field
  \<^verbatim>\<open>replaying\<close> may hold anything if the log is not empty at first, but must happen to be false
  as long as it is.\<close>
theorem sessions_accumulate:
  assumes "wf_fs s" and "writable s (aof_path ks)" and "writable s (temp_path ks)"
    and "written (file_text (aof_path ks) s)" and "list_all (\<lambda>(junk, es). list_all loggable_event es) ls"
    and "list_all (\<lambda>(junk, es). \<not> junk) ls \<or> file_text (aof_path ks) s \<noteq> []"
  shows "recover (file_text (aof_path ks) (lives h lz4 ks ls s))
    = fold effect (commands_of (concat (map snd ls))) (recover (file_text (aof_path ks) s))"
  using assms
proof (induction ls arbitrary: s)
  case (Cons life ls)
  obtain junk es where life: "life = (junk, es)" by fastforce
  have l: "list_all loggable_event es" "list_all (\<lambda>(junk, es). list_all loggable_event es) ls"
    "\<not> junk \<or> file_text (aof_path ks) s \<noteq> []"
    using Cons.prems(5,6) by (auto simp: life)
  obtain db s1 db' s2 s3 where o: "DB_ctor h junk ks s = (Ok db, s1)" "run_session h es (db, s1) = (db', s2)"
    "snd (DB_dtor lz4 db' s2) = s3" "wf_fs s3" "writable s3 = writable s" "written (file_text (aof_path ks) s3)"
    "recover (file_text (aof_path ks) s3) = fold effect (commands_of es) (recover (file_text (aof_path ks) s))"
    "file_text (aof_path ks) s \<noteq> [] \<Longrightarrow> file_text (aof_path ks) s3 \<noteq> []"
    using one_life [OF Cons.prems(1-4) l(1,3), of h lz4] by metis
  have flags: "list_all (\<lambda>(junk, es). \<not> junk) ls \<or> file_text (aof_path ks) s3 \<noteq> []"
    using Cons.prems(6) o(8) by (auto simp: life)
  have "lives h lz4 ks (life # ls) s = lives h lz4 ks ls s3" by (simp add: life o(1,2,3))
  then show ?case using Cons.IH [OF o(4) _ _ o(6) l(2) flags] Cons.prems(2,3) by (simp add: o(5,7) life)
qed simp

theorem sessions_accumulate_witness:
  "recover (file_text (aof_path ''k'') (lives (\<lambda>_ _. 0) (\<lambda>src n cap. (0, [])) ''k''
     [(False, [Command ''put a 1'', Flush, Command ''put b 2'']), (False, [Command ''del a''])] empty_fs)) = [''b'' \<mapsto> ''2'']"
proof -
  let ?ls = "[(False, [Command ''put a 1'', Flush, Command ''put b 2'']), (False, [Command ''del a''])]"
  have "list_all (\<lambda>(junk, es). list_all loggable_event es) ?ls" "list_all (\<lambda>(junk, es). \<not> junk) ?ls"
    by (simp_all add: sample_lines)
  with sessions_accumulate [of empty_fs "''k''" ?ls "\<lambda>_ _. 0" "\<lambda>src n cap. (0, [])"]
  have "recover (file_text (aof_path ''k'') (lives (\<lambda>_ _. 0) (\<lambda>src n cap. (0, [])) ''k'' ?ls empty_fs))
    = fold effect (commands_of (concat (map snd ?ls))) Map.empty"
    by simp
  also have "\<dots> = [''b'' \<mapsto> ''2'']" by (simp add: sample_lines fun_eq_iff)
  finally show ?thesis .
qed

end
