(* ===== verification/Config.thy ===== *)
theory Config
  imports File_System Utils
begin

text \<open>
  The configuration of \<^verbatim>\<open>src/config.cpp\<close> and \<^verbatim>\<open>include/taproot/config.h\<close>. Whether a text is a
  network address is decided by \<^verbatim>\<open>asio::ip::make_address\<close>, which is outside the sources:
  it is the parameter \<open>is_address\<close>. Messages on \<^verbatim>\<open>std::cerr\<close> are not modelled.
\<close>

section \<open>State and operations\<close>

definition HOST_DEFAULT :: string where "HOST_DEFAULT = ''127.0.0.1''"
definition PORT_DEFAULT :: u16 where "PORT_DEFAULT = 6379"
definition KEYSPACE_DEFAULT :: string where "KEYSPACE_DEFAULT = ''default''"

record Config =
  host :: string
  port :: u16
  keyspace :: string

definition default_config :: Config where
  "default_config = \<lparr>host = HOST_DEFAULT, port = PORT_DEFAULT, keyspace = KEYSPACE_DEFAULT\<rparr>"

definition validateHost :: "(string \<Rightarrow> bool) \<Rightarrow> Config \<Rightarrow> string \<Rightarrow> bool \<times> Config" where
  "validateHost is_address cfg h =
     (if h \<noteq> [] \<and> \<not> isAllSpace h
      then if \<not> is_address h then (False, cfg) else (True, cfg\<lparr>host := h\<rparr>)
      else (False, cfg))"

definition validatePort :: "Config \<Rightarrow> string \<Rightarrow> bool \<times> Config" where
  "validatePort cfg p =
     (case stoi p of
        Inl e \<Rightarrow> (False, cfg)
      | Inr portNumber \<Rightarrow>
          if portNumber < 0 \<or> portNumber > 65535 then (False, cfg)
          else (True, cfg\<lparr>port := of_int portNumber\<rparr>))"

text \<open>One line of the file: \<^verbatim>\<open>getline(iss, key, '=') && getline(iss, value)\<close>.\<close>

definition config_line :: "string \<Rightarrow> (string \<rightharpoonup> string) \<Rightarrow> (string \<rightharpoonup> string)" where
  "config_line line m =
     (if line = [] \<or> hd line = CHR ''#'' then m
      else case getline CHR ''='' line of
             None \<Rightarrow> m
           | Some (key, iss) \<Rightarrow>
               (case getline NL iss of None \<Rightarrow> m | Some (v, _) \<Rightarrow> m(key \<mapsto> v)))"

definition parseConfig :: "(string \<Rightarrow> bool) \<Rightarrow> string \<Rightarrow> fs \<Rightarrow> Config" where
  "parseConfig is_address filename s =
     (let cfg = default_config
      in case read_file filename s of
           None \<Rightarrow> cfg
         | Some text \<Rightarrow>
             (let m = fold config_line (getlines text) Map.empty;
                  cfg = (case m ''host'' of Some h \<Rightarrow> snd (validateHost is_address cfg h) | None \<Rightarrow> cfg);
                  cfg = (case m ''port'' of Some p \<Rightarrow> snd (validatePort cfg p) | None \<Rightarrow> cfg);
                  cfg = (case m ''keyspace'' of Some k \<Rightarrow> cfg\<lparr>keyspace := k\<rparr> | None \<Rightarrow> cfg)
              in cfg))"

text \<open>The text \<^verbatim>\<open>spawnConfig\<close> writes, for the values of any configuration.\<close>

definition config_text :: "Config \<Rightarrow> string" where
  "config_text cfg =
     ''host='' @ host cfg @ [NL] @ ''port='' @ show_nat (unat (port cfg)) @ [NL]
     @ ''keyspace='' @ keyspace cfg @ [NL]"

definition spawnConfig :: "string \<Rightarrow> fs \<Rightarrow> fs" where
  "spawnConfig filename s =
     (if dirents s filename = None then write_file filename (config_text default_config) s else s)"

section \<open>Ports\<close>

text \<open>C30. A port is taken exactly when \<^verbatim>\<open>std::stoi\<close> reads a number from 0 to 65535 at the start of
  the text; then it is that number, without wrap-around, and otherwise nothing changes.
  Text after the digits does not matter.\<close>
theorem validatePort_correct:
  assumes "validatePort cfg p = (ok, cfg')"
  shows "(ok \<longleftrightarrow> (\<exists>n. stoi p = Ok n \<and> 0 \<le> n \<and> n \<le> 65535))
    \<and> (ok \<longrightarrow> stoi p = Ok (uint (port cfg')))
    \<and> (\<not> ok \<longrightarrow> cfg' = cfg)
    \<and> host cfg' = host cfg \<and> keyspace cfg' = keyspace cfg"
proof -
  have "0 \<le> n \<Longrightarrow> n \<le> 65535 \<Longrightarrow> uint (of_int n :: u16) = n" for n
    by (simp add: uint_word_of_int_eq take_bit_eq_mod)
  then show ?thesis
    using assms by (auto simp: validatePort_def split: sum.splits if_splits)
qed

theorem validatePort_correct_witness:
  "port (snd (validatePort default_config (show_nat 8080 @ ''abc''))) = 8080"
proof -
  have s: "stoi (show_nat 8080 @ ''abc'') = Ok 8080"
    using stoi_show_nat [of 8080 "''abc''"] by (simp add: isdigit_def)
  obtain ok cfg' where v: "validatePort default_config (show_nat 8080 @ ''abc'') = (ok, cfg')"
    by fastforce
  note validatePort_correct [OF v]
  with s have "uint (port cfg') = 8080" by auto
  then have "port cfg' = 8080" by (simp add: word_uint_eq_iff)
  with v show ?thesis by simp
qed

section \<open>Round trip\<close>

text \<open>A configuration that one line per setting can hold.\<close>

definition plain_config :: "(string \<Rightarrow> bool) \<Rightarrow> Config \<Rightarrow> bool" where
  "plain_config is_address cfg =
     (is_address (host cfg) \<and> \<not> isAllSpace (host cfg) \<and> NL \<notin> set (host cfg)
      \<and> keyspace cfg \<noteq> [] \<and> NL \<notin> set (keyspace cfg))"

lemma config_line_setting:
  assumes "CHR ''='' \<notin> set key" and "key \<noteq> []" and "hd key \<noteq> CHR ''#''" and "v \<noteq> []" and "NL \<notin> set v"
  shows "config_line (key @ CHR ''='' # v) m = m(key \<mapsto> v)"
proof -
  have "getline CHR ''='' (key @ CHR ''='' # v) = Some (key, v)"
    using assms(1) by (simp add: getline_def)
  moreover have "getline NL v = Some (v, [])"
    using assms(4,5) by (simp add: getline_def takeWhile_eq_all_conv)
  ultimately show ?thesis using assms(2,3) by (simp add: config_line_def)
qed

lemma digits_no_NL: "NL \<notin> set (show_nat n)"
  using show_nat_isdigit [of n] by (auto simp: list_all_iff isdigit_def)

lemma config_text_lines:
  assumes "NL \<notin> set (host cfg)" and "NL \<notin> set (keyspace cfg)"
  shows "getlines (config_text cfg) =
    [''host='' @ host cfg, ''port='' @ show_nat (unat (port cfg)), ''keyspace='' @ keyspace cfg]"
proof -
  have "config_text cfg =
    unlines [''host='' @ host cfg, ''port='' @ show_nat (unat (port cfg)), ''keyspace='' @ keyspace cfg]"
    by (simp add: config_text_def)
  then show ?thesis using assms by (simp only:) (rule getlines_unlines, simp add: digits_no_NL)
qed

lemma parse_config_text:
  assumes "plain_config is_address cfg" and "read_file filename s = Some (config_text cfg)"
  shows "parseConfig is_address filename s = cfg"
proof -
  have c: "is_address (host cfg)" "\<not> isAllSpace (host cfg)" "NL \<notin> set (host cfg)"
    "keyspace cfg \<noteq> []" "NL \<notin> set (keyspace cfg)"
    using assms(1) by (simp_all add: plain_config_def)
  then have h: "host cfg \<noteq> []" by auto
  have u: "unat (port cfg) < 2 ^ LENGTH(16)" by (rule unsigned_less)
  then have st: "stoi (show_nat (unat (port cfg))) = Ok (int (unat (port cfg)))"
    using stoi_show_nat [of "unat (port cfg)" "[]"] by simp
  have "unat (port cfg) < 65536" using u by simp
  then have p: "int (unat (port cfg)) \<le> 65535" by linarith
  have m: "fold config_line (getlines (config_text cfg)) Map.empty =
    [''host'' \<mapsto> host cfg, ''port'' \<mapsto> show_nat (unat (port cfg)), ''keyspace'' \<mapsto> keyspace cfg]"
    using config_line_setting [of "''host''" "host cfg"] config_line_setting [of "''keyspace''" "keyspace cfg"]
      config_line_setting [of "''port''" "show_nat (unat (port cfg))"] c h
    by (simp add: config_text_lines digits_no_NL)
  show ?thesis
    using c h p by (intro Config.equality)
      (simp_all add: parseConfig_def Let_def assms(2) m validateHost_def validatePort_def st default_config_def)
qed



text \<open>Whatever the file holds, the result can be used: the host is the default or a text that
  is an address, and a setting that is missing or invalid keeps its default.\<close>

lemma parseConfig_valid:
  "host (parseConfig is_address filename s) = HOST_DEFAULT \<or> is_address (host (parseConfig is_address filename s))"
  by (auto simp: parseConfig_def Let_def validateHost_def validatePort_def default_config_def
      split: option.split sum.split)

end
