(* ===== verification/Framing.thy ===== *)
theory Framing
  imports Cxx_Std
begin

text \<open>
  Messages on a TCP stream. The bytes of one direction arrive in segments, cut anywhere; a
  blocking \<^verbatim>\<open>asio::read_until\<close> appends segments to its buffer until the delimiter is in it and
  fails at the end of the stream. The buffer may then hold more than the message. The
  client frames by \<^verbatim>\<open>"END\n"\<close>, the server by \<^verbatim>\<open>"\n"\<close>: both delimiters have no border, and
  the interface \<open>delimiter\<close> says what follows from that.
\<close>

section \<open>Reading up to a delimiter\<close>

fun read_until :: "string \<Rightarrow> string list \<Rightarrow> string \<Rightarrow> (string \<times> string list) option" where
  "read_until d [] buf = (if find_sub d buf = None then None else Some (buf, []))"
| "read_until d (seg # segs) buf =
     (if find_sub d buf = None then read_until d segs (buf @ seg) else Some (buf, seg # segs))"

lemma read_until_found: "read_until d segs buf = Some (buf', segs') \<Longrightarrow> find_sub d buf' \<noteq> None"
  by (induction segs arbitrary: buf) (auto split: if_splits)

lemma read_until_bytes:
  "read_until d segs buf = Some (buf', segs') \<Longrightarrow> buf' @ concat segs' = buf @ concat segs"
  by (induction segs arbitrary: buf) (auto split: if_splits)

lemma read_until_le: "read_until d segs buf = Some (buf', segs') \<Longrightarrow> length segs' \<le> length segs"
  by (induction segs arbitrary: buf) (auto split: if_splits intro: le_SucI)

lemma read_until_shorter:
  "d \<noteq> [] \<Longrightarrow> read_until d segs [] = Some (buf', segs') \<Longrightarrow> length segs' < length segs"
  by (cases segs) (auto dest: read_until_le split: if_splits)

lemma prefix_append_le: "length d \<le> length u \<Longrightarrow> prefix d (u @ t) = prefix d u"
  by (auto simp: prefix_append)

lemma sublist_in_suffix: "suffix y r \<Longrightarrow> prefix d y \<Longrightarrow> sublist d r"
  by (auto simp: suffix_def prefix_def sublist_def)

lemma find_sub_append:
  assumes "find_sub d s = Some n"
  shows "find_sub d (s @ t) = Some n"
proof (rule find_sub_eqI)
  have n: "n \<le> length s" "prefix d (drop n s)" using find_sub_Some [OF assms] by simp_all
  then show "prefix d (drop n (s @ t))" by (simp add: prefix_prefix)
  show "n \<le> length (s @ t)" using n by simp
  have len: "n + length d \<le> length s" using n prefix_length_le by fastforce
  fix m assume m: "m < n"
  then have "length d \<le> length (drop m s)" using len by simp
  then show "\<not> prefix d (drop m (s @ t))"
    using find_sub_first [OF assms m] prefix_append_le [of d "drop m s" t] m n(1) by simp
qed

section \<open>Delimiters\<close>

locale delimiter =
  fixes d :: string
  assumes nonempty: "d \<noteq> []"
    and borderless: "prefix p d \<Longrightarrow> suffix p d \<Longrightarrow> p = [] \<or> p = d"
begin

text \<open>The delimiter after a message that does not contain it is found at the end of the message.\<close>

lemma find_after:
  assumes "\<not> sublist d r"
  shows "find_sub d (r @ d @ x) = Some (length r)"
proof (rule find_sub_eqI)
  show "prefix d (drop (length r) (r @ d @ x))" "length r \<le> length (r @ d @ x)" by simp_all
  fix m assume m: "m < length r"
  define y where "y = drop m r"
  have y: "y \<noteq> []" "suffix y r" using m by (simp_all add: y_def suffix_drop)
  show "\<not> prefix d (drop m (r @ d @ x))"
  proof
    assume "prefix d (drop m (r @ d @ x))"
    then have p: "prefix d (y @ d @ x)" using m by (simp add: y_def)
    then consider "prefix d y" | z where "d = y @ z" "prefix z (d @ x)"
      unfolding prefix_append by blast
    then show False
    proof cases
      case 1
      then show False using assms sublist_in_suffix [OF y(2)] by blast
    next
      case 2
      then have "length z < length d" using y(1) by simp
      then have "prefix z d" using prefix_length_prefix [OF 2(2), of d] by simp
      moreover have "suffix z d" using 2(1) by (simp add: suffix_def)
      ultimately have "z = []" using borderless \<open>length z < length d\<close> by blast
      with 2(1) have "prefix d y" by simp
      then show False using assms sublist_in_suffix [OF y(2)] by blast
    qed
  qed
qed

text \<open>However the stream is cut into segments, the first message is framed correctly, and
  no byte is lost between the buffer and the segments that are left.\<close>

lemma read_message:
  assumes "\<not> sublist d r" and "buf @ concat segs = r @ d @ rest"
  shows "\<exists>buf' segs'. read_until d segs buf = Some (buf', segs') \<and> find_sub d buf' = Some (length r)
    \<and> take (length r) buf' = r \<and> buf' @ concat segs' = r @ d @ rest"
  using assms(2)
proof (induction segs arbitrary: buf)
  case Nil
  then have "find_sub d buf = Some (length r)" "take (length r) buf = r"
    using find_after [OF assms(1), of rest] by simp_all
  with Nil show ?case by simp
next
  case (Cons seg segs)
  show ?case
  proof (cases "find_sub d buf")
    case None
    with Cons show ?thesis by simp
  next
    case (Some n)
    have whole: "find_sub d (buf @ concat (seg # segs)) = Some (length r)"
      using find_after [OF assms(1), of rest] Cons.prems by simp
    have n: "n = length r" using find_sub_append [OF Some] whole by simp
    moreover have "n \<le> length buf" using find_sub_Some [OF Some] by simp
    ultimately have "take (length r) buf = take (length r) (r @ d @ rest)"
      using Cons.prems by (metis diff_is_0_eq' append_Nil2 take0 take_append)
    with Some n Cons.prems show ?thesis by simp
  qed
qed

end

definition END_DELIM :: string where "END_DELIM = ''END'' @ [NL]"

lemma prefix_butlast_cases: "prefix p (d :: 'a list) \<Longrightarrow> p \<noteq> d \<Longrightarrow> prefix p (butlast d)"
  by (induction d rule: rev_induct) (auto simp: prefix_snoc)

text \<open>A delimiter whose last character occurs nowhere else in it has no border.\<close>

lemma delimiterI:
  assumes "d \<noteq> []" and "last d \<notin> set (butlast d)"
  shows "delimiter d"
proof
  show "d \<noteq> []" by (rule assms(1))
  fix p assume p: "prefix p d" "suffix p d"
  show "p = [] \<or> p = d"
  proof (rule disjCI)
    assume "p \<noteq> d"
    then have "set p \<subseteq> set (butlast d)" using p(1) prefix_butlast_cases set_mono_prefix by blast
    then show "p = []" using p(2) assms by (metis last_in_set suffix_def last_appendR subset_iff)
  qed
qed

interpretation newline: delimiter "[NL]"
  by (rule delimiterI) simp_all

interpretation end_of_response: delimiter END_DELIM
  by (rule delimiterI) (simp_all add: END_DELIM_def)

section \<open>One read of the server\<close>

text \<open>The body of the loop in \<^verbatim>\<open>handleClient\<close>: the buffer is a new one in every iteration, and
  what it holds after the first line is dropped with it.\<close>

definition server_read :: "string list \<Rightarrow> (string \<times> string list) option" where
  "server_read segs =
     (case read_until [NL] segs [] of
        None \<Rightarrow> None
      | Some (buf, segs') \<Rightarrow>
          Some (case getline NL buf of None \<Rightarrow> [] | Some (incoming, _) \<Rightarrow> incoming, segs'))"

lemma server_read_shorter: "server_read segs = Some (l, segs') \<Longrightarrow> length segs' < length segs"
  by (auto simp: server_read_def dest: read_until_shorter [rotated] split: option.splits)

lemma sublist_single: "sublist [c] s \<longleftrightarrow> c \<in> set s"
  by (induction s) (auto simp: sublist_Cons_right)

lemma server_read_line:
  assumes "NL \<notin> set l" and "concat segs = l @ NL # rest"
  shows "\<exists>segs'. server_read segs = Some (l, segs') \<and> suffix (concat segs') rest"
proof -
  have "\<not> sublist [NL] l" using assms(1) by (simp add: sublist_single)
  then obtain buf segs' where r: "read_until [NL] segs [] = Some (buf, segs')"
    "find_sub [NL] buf = Some (length l)" "take (length l) buf = l" "buf @ concat segs' = l @ [NL] @ rest"
    using newline.read_message [of l "[]" segs rest] assms(2) by auto
  have "prefix [NL] (drop (length l) buf)" using find_sub_Some [OF r(2)] by simp
  then obtain x where "drop (length l) buf = NL # x" by (auto simp: prefix_def)
  with r(3) have buf: "buf = l @ NL # x" by (metis append_take_drop_id)
  then have "getline NL buf = Some (l, x)" using assms(1) by (simp add: getline_def)
  moreover have "x @ concat segs' = rest" using r(4) buf by simp
  ultimately show ?thesis using r(1) by (auto simp: server_read_def suffix_def)
qed

end
