(* ===== verification/Server.thy ===== *)
theory Server
  imports Recovery Config Framing
begin

text \<open>
  The class \<^verbatim>\<open>Server\<close> of \<^verbatim>\<open>include/taproot/server.h\<close> and \<^verbatim>\<open>src/server.cpp\<close>: construction,
  destruction, the dispatcher and the loop over the commands of one client. The accept loop
  is in theory Accept_Loop. Commands of different clients run on threads without a common
  lock; the model takes them one after the other. Outside the sources, and parameters of
  the model: what is an address (\<open>is_address\<close>) and whether the end point can be opened,
  bound and listened on (\<open>listens\<close>).
\<close>

section \<open>State, construction, destruction\<close>

record Server =
  server_host :: string
  server_port :: u16
  running :: bool
  acceptor_open :: bool
  server_db :: DB

text \<open>\<^verbatim>\<open>make_address\<close> with an error code nobody looks at: the end point of a text that is no
  address is the unspecified address, here \<open>None\<close>.\<close>

definition endpoint :: "(string \<Rightarrow> bool) \<Rightarrow> string \<Rightarrow> string option" where
  "endpoint is_address h = (if is_address h then Some h else None)"

definition Server_ctor ::
  "layout \<Rightarrow> lz4 \<Rightarrow> bool \<Rightarrow> (string \<Rightarrow> bool) \<Rightarrow> (string option \<Rightarrow> u16 \<Rightarrow> bool) \<Rightarrow> Config \<Rightarrow> fs
     \<Rightarrow> Server outcome \<times> fs" where
  "Server_ctor h lz4 junk is_address listens cfg s =
     (case DB_ctor h junk (keyspace cfg) s of
        (Inl e, s) \<Rightarrow> (Inl e, s)
      | (Inr db, s) \<Rightarrow>
          if listens (endpoint is_address (host cfg)) (port cfg)
          then (Ok \<lparr>server_host = host cfg, server_port = port cfg, running = False,
                  acceptor_open = True, server_db = db\<rparr>, s)
          else (case DB_dtor lz4 db s of
                  (Inl e, s) \<Rightarrow> (Inl e, s)
                | (Inr _, s) \<Rightarrow> (Throw ''bind'', s)))"

text \<open>The destructor: \<^verbatim>\<open>shutdown\<close>, then the destructor of the \<^verbatim>\<open>unique_ptr\<close>.\<close>

definition Server_dtor :: "lz4 \<Rightarrow> Server \<Rightarrow> fs \<Rightarrow> unit outcome \<times> fs" where
  "Server_dtor lz4 srv s =
     (case shutdown lz4 (server_db srv) s of
        (Inl (Exception _), db, s) \<Rightarrow> (Fault Terminated, s)
      | (Inl (Undefined f), db, s) \<Rightarrow> (Fault f, s)
      | (Inr _, db, s) \<Rightarrow> DB_dtor lz4 db s)"

section \<open>The dispatcher\<close>

text \<open>The new logger of a switched keyspace refers to a token of the command line, which is gone
  when the dispatcher returns.\<close>

definition forget_name :: "DB \<Rightarrow> DB" where
  "forget_name db = db\<lparr>logger := (logger db)\<lparr>keyspaceName := None\<rparr>\<rparr>"

definition switch_error :: "string \<Rightarrow> string \<Rightarrow> string" where
  "switch_error ks what =
     ''ERR couldn'' @ [CHR 0x27] @ ''t switch to keyspace '' @ ks @ '': '' @ what"

text \<open>\<^verbatim>\<open>use\<close>: shuts the old database down, constructs the new one and assigns it, which destroys
  the old one.\<close>

definition use_keyspace ::
  "layout \<Rightarrow> lz4 \<Rightarrow> bool \<Rightarrow> string \<Rightarrow> Server \<Rightarrow> fs \<Rightarrow> string outcome \<times> Server \<times> fs" where
  "use_keyspace h lz4 junk ks srv s =
     (case shutdown lz4 (server_db srv) s of
        (Inl (Undefined f), db, s) \<Rightarrow> (Fault f, srv\<lparr>server_db := db\<rparr>, s)
      | (Inl (Exception what), db, s) \<Rightarrow> (Ok (switch_error ks what), srv\<lparr>server_db := db\<rparr>, s)
      | (Inr _, db, s) \<Rightarrow>
          (case DB_ctor h junk ks s of
             (Inl (Undefined f), s) \<Rightarrow> (Fault f, srv\<lparr>server_db := db\<rparr>, s)
           | (Inl (Exception what), s) \<Rightarrow> (Ok (switch_error ks what), srv\<lparr>server_db := db\<rparr>, s)
           | (Inr new, s) \<Rightarrow>
               (case DB_dtor lz4 db s of
                  (Inl e, s) \<Rightarrow> (Inl e, srv\<lparr>server_db := db\<rparr>, s)
                | (Inr _, s) \<Rightarrow>
                    (Ok (''OK switched keyspace to '' @ ks), srv\<lparr>server_db := forget_name new\<rparr>, s))))"

definition dispatcher ::
  "layout \<Rightarrow> lz4 \<Rightarrow> bool \<Rightarrow> string \<Rightarrow> Server \<Rightarrow> fs \<Rightarrow> string outcome \<times> Server \<times> fs" where
  "dispatcher h lz4 junk input srv s =
     (let tokens = tokenize input; tokenSize = length tokens; db = server_db srv in
      if input = ''stats'' then (Ok (displayStats db), srv, s)
      else if input = ''clear'' then
        (let (db, s) = clearData db s in (Ok ''OK'', srv\<lparr>server_db := db\<rparr>, s))
      else if tokens = [] then (Fault Out_of_bounds, srv, s)
      else if tokens ! 0 = ''use'' \<and> tokenSize = 2 then use_keyspace h lz4 junk (tokens ! 1) srv s
      else if input = ''show'' then (Ok (display db), srv, s)
      else if input = ''keys'' then (Ok (displayKeys db), srv, s)
      else if input = ''values'' then (Ok (displayValues db), srv, s)
      else if input = ''quit'' \<or> input = ''exit'' then
        (let srv = srv\<lparr>running := False\<rparr>; (r, db, s) = shutdown lz4 db s
         in (case r of Inl e \<Rightarrow> Inl e | Inr _ \<Rightarrow> Ok ''BYE'', srv\<lparr>server_db := db\<rparr>, s))
      else
        (let (r, db) = parseCommand h input db
         in (case r of
               Inl e \<Rightarrow> Inl e
             | Inr res \<Rightarrow> if res = [] then Ok [] else Ok (printVector res),
             srv\<lparr>server_db := db\<rparr>, s)))"

section \<open>One client\<close>

text \<open>The loop of \<^verbatim>\<open>handleClient\<close> on the segments a client sends, with the messages written to it.
  The end of the stream and exceptions of the dispatcher end the loop; writes succeed.\<close>

function handleClient ::
  "layout \<Rightarrow> lz4 \<Rightarrow> bool \<Rightarrow> string list \<Rightarrow> Server \<Rightarrow> fs
     \<Rightarrow> (string list \<times> unit outcome) \<times> Server \<times> fs" where
  "handleClient h lz4 junk segs srv s =
     (case server_read segs of
        None \<Rightarrow> (([], Ok ()), srv, s)
      | Some (incoming, segs) \<Rightarrow>
          (case dispatcher h lz4 junk incoming srv s of
             (Inl (Exception _), srv, s) \<Rightarrow> (([], Ok ()), srv, s)
           | (Inl (Undefined f), srv, s) \<Rightarrow> (([], Fault f), srv, s)
           | (Inr response, srv, s) \<Rightarrow>
               (let ((sent, r), srv, s) = handleClient h lz4 junk segs srv s
                in (((response @ END_DELIM) # sent, r), srv, s))))"
  by pat_completeness auto
termination
  by (relation "measure (\<lambda>(h, lz4, junk, segs, srv, s). length segs)") (auto dest: server_read_shorter)

declare handleClient.simps [simp del]

section \<open>A logger that is closed\<close>

definition log_closed :: "string \<Rightarrow> Log \<Rightarrow> bool" where
  "log_closed ks L = (keyspaceName L = Some ks \<and> logFilepath L = aof_path ks \<and> dbFilepath L = db_path ks
     \<and> stopFlushThread L \<and> logfile L = None \<and> logBuffer L = [])"

lemma shutdown_db: "shutdown lz4 db s = (r, db', s') \<Longrightarrow> db' = db\<lparr>logger := fst (closeLog (logger db) s)\<rparr>"
  by (auto simp: shutdown_def Let_def split: prod.splits sum.splits)

lemma shutdown_closes:
  assumes "wf_fs s" and "log_open ks (logger db) s" and "shutdown lz4 db s = (r, db', s')"
  shows "log_closed ks (logger db')"
proof -
  obtain L1 s1 where c: "closeLog (logger db) s = (L1, s1)" by fastforce
  have "logger db' = L1" using shutdown_db [OF assms(3)] c by simp
  then show ?thesis
    using closeLog_eq(1) [OF assms(1,2) c] assms(2) by (simp add: log_closed_def log_open_def)
qed

text \<open>Whether the snapshot succeeds.\<close>

definition snapshot_result :: "lz4 \<Rightarrow> table \<Rightarrow> bool \<Rightarrow> unit outcome" where
  "snapshot_result lz4 st opens =
     (if opens then (case snapshot_bytes lz4 (serialize st) of Inl e \<Rightarrow> Inl e | Inr _ \<Rightarrow> Ok ()) else Ok ())"

lemma fst_snapshot:
  "fst (writeBinarySnapshot lz4 st L s) = snapshot_result lz4 st (writable s (dbFilepath L))"
  using fst_open_trunc [of "dbFilepath L" s]
  by (auto simp: writeBinarySnapshot_def snapshot_result_def Let_def split: option.split sum.split prod.split)

lemma shutdown_result:
  assumes "wf_fs s" and "log_open ks (logger db) s" and "writable s (temp_path ks)"
    and "shutdown lz4 db s = (r, db', s')"
  shows "r = snapshot_result lz4 (store db) (writable s (db_path ks))"
proof -
  obtain L1 s1 where c: "closeLog (logger db) s = (L1, s1)" by fastforce
  note cl = closeLog_eq [OF assms(1,2) c]
  have L1: "keyspaceName L1 = Some ks" "logFilepath L1 = aof_path ks" "dbFilepath L1 = db_path ks"
    using assms(2) by (simp_all add: cl(1) log_open_def)
  obtain r2 s2 where k: "compactLog (store db) (dirty db) L1 s1 = (r2, s2)" by fastforce
  have "writable s1 (temp_path ks)" using assms(3) cl(3) by simp
  note cp = compactLog_eq [OF cl(2) L1(1,2) this k]
  have "r = fst (writeBinarySnapshot lz4 (store db) L1 s2)"
    using assms(4) c k cp(1) by (auto simp: shutdown_def split: prod.splits)
  then show ?thesis using cp(3) cl(3) L1 by (simp add: fst_snapshot)
qed

text \<open>The second \<^verbatim>\<open>shutdown\<close>, as every destructor after an explicit one runs it.\<close>

lemma shutdown_again:
  assumes w: "wf_fs s" and o: "log_closed ks (logger db)" and t: "writable s (temp_path ks)"
    and sh: "shutdown lz4 db s = (r, db', s')"
  shows "wf_fs s'" and "writable s' = writable s"
    and "file_text (aof_path ks) s' =
      (if dirty db = 0 \<or> store db = [] then file_text (aof_path ks) s else compact_text (store db))"
    and "q \<notin> {aof_path ks, temp_path ks, db_path ks} \<Longrightarrow> read_file q s' = read_file q s"
    and "r = snapshot_result lz4 (store db) (writable s (db_path ks))"
proof -
  have L: "closeLog (logger db) s = ((logger db)\<lparr>fileDescriptor := None\<rparr>, s)"
    using o by (simp add: log_closed_def closeLog_def Let_def)
  let ?L = "(logger db)\<lparr>fileDescriptor := None\<rparr>"
  have L': "keyspaceName ?L = Some ks" "logFilepath ?L = aof_path ks" "dbFilepath ?L = db_path ks"
    using o by (simp_all add: log_closed_def)
  obtain r2 s2 where k: "compactLog (store db) (dirty db) ?L s = (r2, s2)" by fastforce
  note cp = compactLog_eq [OF w L'(1,2) t k] and sf = snapshot_frame [OF compactLog_eq(2) [OF w L'(1,2) t k]]
  have e: "(r, s') = writeBinarySnapshot lz4 (store db) ?L s2"
    using sh k cp(1) by (auto simp: shutdown_def L split: prod.splits)
  then have s': "s' = snd (writeBinarySnapshot lz4 (store db) ?L s2)" by (metis snd_conv)
  show "wf_fs s'" "writable s' = writable s" using sf cp(3) by (simp_all add: s')
  show "file_text (aof_path ks) s' =
      (if dirty db = 0 \<or> store db = [] then file_text (aof_path ks) s else compact_text (store db))"
    using sf(2) [where q = "aof_path ks"] cp(4) L' by (simp add: s' file_text_def)
  show "q \<notin> {aof_path ks, temp_path ks, db_path ks} \<Longrightarrow> read_file q s' = read_file q s"
    using sf(2) [where q = q] cp(5) [of q] L' by (simp add: s')
  have "r = fst (writeBinarySnapshot lz4 (store db) ?L s2)" using e by (metis fst_conv)
  then show "r = snapshot_result lz4 (store db) (writable s (db_path ks))"
    using cp(3) L' by (simp add: fst_snapshot)
qed

end
