(* ===== verification/Hazards.thy ===== *)
theory Hazards
  imports Recovery
begin

text \<open>
  What a session does to other keyspaces, and the ways in which the program loses data, or
  brings cleared data back, as theorems on the same model.
\<close>

section \<open>Sessions of any commands\<close>

text \<open>What every session keeps, also with commands whose entries cannot be read back.\<close>

definition running_db :: "string \<Rightarrow> DB \<Rightarrow> fs \<Rightarrow> bool" where
  "running_db ks db s = (wf_fs s \<and> umap_wf (store db) \<and> log_open ks (logger db) s)"

lemma running_usable: "running_db ks db s \<Longrightarrow> usable (logger db)"
  by (simp add: running_db_def log_open_def usable_def)

lemma running_command:
  assumes "running_db ks db s"
  shows "running_db ks (snd (parseCommand h l db)) s"
    and "kv_of (snd (parseCommand h l db)) = effect (command_of l) (kv_of db)"
    and "logger (snd (parseCommand h l db))
      = add_entries (logged (replaying db) (command_of l)) (logger db)"
    and "replaying (snd (parseCommand h l db)) = replaying db"
    and "dirty (snd (parseCommand h l db)) = counted db (changes (command_of l) (kv_of db))"
proof -
  obtain st where st: "umap_wf st" "map_of st = effect (command_of l) (kv_of db)"
    "parseCommand h l db = (Ok (answer (command_of l) (kv_of db)), after_command (command_of l) st db)"
    using parseCommand_eq [of db l h] assms running_usable [OF assms] by (auto simp: running_db_def)
  have f: "wf_fs s" "log_open ks (logger db) s" using assms by (simp_all add: running_db_def)
  show "running_db ks (snd (parseCommand h l db)) s"
    by (simp only: st(3) snd_conv running_db_def after_command_simps log_open_add f st(1) simp_thms)
  show "kv_of (snd (parseCommand h l db)) = effect (command_of l) (kv_of db)"
    by (simp only: st(2,3) snd_conv after_command_simps)
  show "logger (snd (parseCommand h l db))
      = add_entries (logged (replaying db) (command_of l)) (logger db)"
    and "replaying (snd (parseCommand h l db)) = replaying db"
    and "dirty (snd (parseCommand h l db)) = counted db (changes (command_of l) (kv_of db))"
    by (simp_all only: st(3) snd_conv after_command_simps)
qed

lemma running_flush:
  assumes "running_db ks db s" and "flush_db (db, s) = (db', s')"
  shows "running_db ks db' s'" and "q \<noteq> aof_path ks \<Longrightarrow> read_file q s' = read_file q s"
    and "db' = db\<lparr>logger := (logger db)\<lparr>logBuffer := []\<rparr>\<rparr>"
    and "file_text (aof_path ks) s' = file_text (aof_path ks) s @ logBuffer (logger db)"
proof -
  have f: "wf_fs s" "log_open ks (logger db) s" "umap_wf (store db)"
    using assms(1) by (simp_all add: running_db_def)
  obtain i where i: "logfile (logger db) = Some i" "dirents s (aof_path ks) = Some i"
    using f(2) by (auto simp: log_open_def)
  have e: "db' = db\<lparr>logger := (logger db)\<lparr>logBuffer := []\<rparr>\<rparr>"
    "s' = (if logBuffer (logger db) = [] then s else append_inode i (logBuffer (logger db)) s)"
    using assms(2) flush_db_eq [OF f(2)] by (auto simp: i stream_write_def)
  show "db' = db\<lparr>logger := (logger db)\<lparr>logBuffer := []\<rparr>\<rparr>" by (rule e(1))
  show "running_db ks db' s'" using f i by (simp add: running_db_def e log_open_def)
  show "q \<noteq> aof_path ks \<Longrightarrow> read_file q s' = read_file q s"
    using read_append_inode [OF f(1) i(2)] by (simp add: e(2))
  show "file_text (aof_path ks) s' = file_text (aof_path ks) s @ logBuffer (logger db)"
    using read_write_open [OF f(1,2), of "aof_path ks" "logBuffer (logger db)"]
    by (simp add: e(2) i(1) stream_write_def)
qed

lemma running_session:
  assumes "running_db ks db s" and "run_session h es (db, s) = (db', s')"
  shows "running_db ks db' s' \<and> (\<forall>q. q \<noteq> aof_path ks \<longrightarrow> read_file q s' = read_file q s)"
  using assms
proof (induction es arbitrary: db s)
  case (Cons e es)
  obtain db1 s1 where r: "run_event h e (db, s) = (db1, s1)" by fastforce
  then have rest: "run_session h es (db1, s1) = (db', s')" using Cons.prems(2) by simp
  show ?case
  proof (cases e)
    case (Command l)
    then have "running_db ks db1 s" "s1 = s" using r running_command(1) [OF Cons.prems(1)] by auto
    then show ?thesis using Cons.IH rest by blast
  next
    case Flush
    then have "flush_db (db, s) = (db1, s1)" using r by simp
    from running_flush(1,2) [OF Cons.prems(1) this] show ?thesis using Cons.IH rest by auto
  qed
qed simp

lemma DB_ctor_running:
  assumes "wf_fs s" and "writable s (aof_path ks)"
  obtains db where "DB_ctor h junk ks s = (Ok db, snd (open_append (aof_path ks) s))"
    and "running_db ks db (snd (open_append (aof_path ks) s))"
    and "\<And>q. q \<noteq> aof_path ks \<Longrightarrow> read_file q (snd (open_append (aof_path ks) s)) = read_file q s"
  using DB_ctor_ok [OF assms, of h junk] assms
  by (auto simp: running_db_def wf_open_append read_open_append)

section \<open>Keyspaces do not disturb each other\<close>

lemma lives_frame:
  assumes "wf_fs s" and "writable s (aof_path ks)" and "writable s (temp_path ks)"
    and q: "q \<notin> {aof_path ks, temp_path ks, db_path ks}"
  shows "read_file q (lives h lz4 ks ls s) = read_file q s"
  using assms(1-3)
proof (induction ls arbitrary: s)
  case (Cons life ls)
  obtain junk es where life: "life = (junk, es)" by fastforce
  let ?s1 = "snd (open_append (aof_path ks) s)"
  obtain db where db: "DB_ctor h junk ks s = (Ok db, ?s1)" "running_db ks db ?s1"
    "\<And>q. q \<noteq> aof_path ks \<Longrightarrow> read_file q ?s1 = read_file q s"
    using DB_ctor_running [OF Cons.prems(1,2), of h junk] by blast
  obtain db' s2 where r: "run_session h es (db, ?s1) = (db', s2)" by fastforce
  note rs = running_session [OF db(2) r]
  have w: "writable s2 = writable s" using run_session_writable [OF r] by simp
  obtain rr db'' s3 where sh: "shutdown lz4 db' s2 = (rr, db'', s3)" by (metis prod_cases3)
  have f: "wf_fs s2" "log_open ks (logger db') s2" "writable s2 (temp_path ks)"
    using rs Cons.prems(3) by (simp_all add: w running_db_def)
  note e = shutdown_eq [OF f sh]
  have "read_file q s3 = read_file q s" using e(6) [OF q] rs db(3) q by simp
  moreover have "read_file q (lives h lz4 ks ls s3) = read_file q s3"
    using Cons.IH [OF e(1)] Cons.prems by (simp add: e(2) w)
  moreover have "lives h lz4 ks (life # ls) s = lives h lz4 ks ls s3"
    by (simp add: life db(1) r DB_dtor_eq [OF sh])
  ultimately show ?case by simp
qed simp

text \<open>C28. Isolation of keyspaces. Sessions of one keyspace leave the log and the snapshot of every
  other keyspace as they are, except for the keyspace whose name is theirs with \<open>_temp\<close>
  at the end, whatever their commands are and whatever the uninitialised field
  \<^verbatim>\<open>replaying\<close> holds; the directory must be writable.\<close>
theorem keyspace_isolation:
  assumes "wf_fs s" and "writable s (aof_path ks)" and "writable s (temp_path ks)"
    and "ks' \<noteq> ks" and "ks' \<noteq> ks @ ''_temp''"
  shows "(read_file (aof_path ks') (lives h lz4 ks ls s) = read_file (aof_path ks') s)
    \<and> (read_file (db_path ks') (lives h lz4 ks ls s) = read_file (db_path ks') s)"
  using lives_frame [OF assms(1-3), of _ h lz4 ls] assms(4,5) by (simp_all add: temp_path_aof)

theorem keyspace_isolation_witness:
  "read_file (aof_path ''b'') (lives (\<lambda>_ _. 0) (\<lambda>src n cap. (0, [])) ''a''
     [(False, [Command ''put x 1'', Flush]), (True, [Command ''del x''])] (write_file (aof_path ''b'') ''put k v'' empty_fs))
   = Some ''put k v''"
proof -
  have "wf_fs (write_file (aof_path ''b'') ''put k v'' empty_fs)" by (simp add: wf_write_file)
  from keyspace_isolation [OF this, of "''a''" "''b''"] show ?thesis
    by (simp add: read_write_file del: lives.simps)
qed

text \<open>C40. The keyspace that ends in \<open>_temp\<close>. Its log is the temporary file of the compaction of
  the other keyspace: a shutdown after a change, with a table that is not empty, overwrites it
  and moves it away; any other shutdown, which does not compact, leaves it as it is.\<close>
theorem temp_keyspace_destroyed:
  assumes "running_db ks db s" and "writable s (temp_path ks)" and "shutdown lz4 db s = (r, db', s')"
  shows "read_file (aof_path (ks @ ''_temp'')) s'
    = (if dirty db \<noteq> 0 \<and> store db \<noteq> [] then None else read_file (aof_path (ks @ ''_temp'')) s)"
  using shutdown_eq(7,8) [OF _ _ assms(2,3)] assms(1) by (auto simp: running_db_def temp_path_aof)

theorem temp_keyspace_destroyed_witness:
  "\<exists>db s r db' s'. DB_ctor (\<lambda>_ _. 0) False ''a'' (write_file (aof_path ''a_temp'') ''put k v'' empty_fs) = (Ok db, s)
    \<and> shutdown (\<lambda>src n cap. (0, [])) (snd (parseCommand (\<lambda>_ _. 0) ''put a 1'' db)) s = (r, db', s')
    \<and> read_file (aof_path ''a_temp'') s = Some ''put k v'' \<and> read_file (aof_path ''a_temp'') s' = None"
proof -
  let ?h = "\<lambda>_ _. 0" and ?disk = "write_file (aof_path ''a_temp'') ''put k v'' empty_fs"
  let ?s = "snd (open_append (aof_path ''a'') ?disk)"
  have s0: "wf_fs ?disk" "writable ?disk p" for p by (simp_all add: wf_write_file)
  obtain db where db: "DB_ctor ?h False ''a'' ?disk = (Ok db, ?s)" "replaying db = False" "dirty db = 0"
    using DB_ctor_ok [OF s0, of ?h False] by auto
  have run: "running_db ''a'' db ?s"
    using DB_ctor_running [OF s0, of ?h False] db(1) by (metis Inr_inject prod.inject)
  let ?db = "snd (parseCommand ?h ''put a 1'' db)"
  note rc = running_command [OF run, of ?h "''put a 1''"]
  have "kv_of ?db ''a'' = Some ''1''" "dirty ?db = 1"
    unfolding rc(2,5) using db(2,3) by (simp_all add: sample_lines)
  then have ne: "dirty ?db \<noteq> 0" "store ?db \<noteq> []" by auto
  obtain r db' s' where sh: "shutdown (\<lambda>src n cap. (0, [])) ?db ?s = (r, db', s')" by (metis prod_cases3)
  have w: "writable ?s (temp_path ''a'')" by simp
  from temp_keyspace_destroyed [OF rc(1) w sh] ne have gone: "read_file (aof_path ''a_temp'') s' = None"
    by simp
  have "read_file (aof_path ''a_temp'') ?s = Some ''put k v''"
    using s0 by (simp add: read_open_append read_write_file)
  with db(1) sh gone show ?thesis by blast
qed

section \<open>Clearing\<close>

lemma read_open_trunc:
  assumes "wf_fs s"
  shows "read_file q (snd (open_trunc p s)) = (if p = q \<and> writable s p then Some [] else read_file q s)"
  using assms wf_fs_not_fresh [OF assms, of q]
  by (cases "dirents s p"; cases "dirents s q")
    (auto simp: read_file_def open_trunc_def fs_create_def dest: wf_fs_inj)

lemma dirents_open_trunc: "dirents s p = Some i \<Longrightarrow> dirents (snd (open_trunc q s)) p = Some i"
  by (auto simp: open_trunc_def fs_create_def split: option.split)

lemma clearData_eq:
  assumes "running_db ks db s" and "writable s (aof_path ks)" and "clearData db s = (db1, s1)"
  shows "db1 = db\<lparr>store := []\<rparr>" and "running_db ks db1 s1" and "file_text (aof_path ks) s1 = []"
    and "writable s1 = writable s"
proof -
  have f: "wf_fs s" "log_open ks (logger db) s" using assms(1) by (simp_all add: running_db_def)
  then have p: "logFilepath (logger db) = aof_path ks" "dbFilepath (logger db) = db_path ks"
    by (simp_all add: log_open_def)
  have e: "db1 = db\<lparr>store := []\<rparr>" "s1 = snd (open_trunc (db_path ks) (snd (open_trunc (aof_path ks) s)))"
    using assms(3) by (simp_all add: clearData_def getLogFilepath_def getDbFilepath_def p)
  show "db1 = db\<lparr>store := []\<rparr>" by (rule e(1))
  show "writable s1 = writable s" by (simp add: e(2))
  have "wf_fs s1" using f(1) by (simp add: e(2) wf_open_trunc)
  moreover have "log_open ks (logger db) s1"
    using f(2) by (auto simp: e(2) log_open_def dirents_open_trunc)
  ultimately show "running_db ks db1 s1" by (simp add: running_db_def e(1))
  show "file_text (aof_path ks) s1 = []"
    using f(1) assms(2) by (simp add: file_text_def e(2) read_open_trunc wf_open_trunc)
qed

text \<open>C37. Clearing leaves the buffer of the logger alone. After a clear and a shutdown the log holds
  exactly the entries that were waiting in the buffer, so the commands since the last flush
  come back, and nothing is left when the buffer was empty.\<close>
theorem clear_keeps_buffer:
  assumes "running_db ks db s" and "writable s (aof_path ks)" and "writable s (temp_path ks)"
    and "clearData db s = (db1, s1)" and "shutdown lz4 db1 s1 = (r, db2, s2)"
  shows "(kv_of db2 = Map.empty)
    \<and> (file_text (aof_path ks) s2 = logBuffer (logger db))"
proof (intro conjI)
  note c = clearData_eq [OF assms(1,2,4)]
  have f: "wf_fs s1" "log_open ks (logger db1) s1" "writable s1 (temp_path ks)"
    using c(2,4) assms(3) by (simp_all add: running_db_def)
  note e = shutdown_eq [OF f assms(5)]
  show "kv_of db2 = Map.empty" by (simp add: e(3) c(1))
  show "file_text (aof_path ks) s2 = logBuffer (logger db)" using e(5) by (simp add: c(1,3))
qed

theorem clear_keeps_buffer_witness:
  "\<exists>db s db1 s1 r db2 s2. DB_ctor (\<lambda>_ _. 0) False ''k'' empty_fs = (Ok db, s)
    \<and> clearData (snd (parseCommand (\<lambda>_ _. 0) ''put a 1'' db)) s = (db1, s1)
    \<and> shutdown (\<lambda>src n cap. (0, [])) db1 s1 = (r, db2, s2)
    \<and> kv_of db2 = Map.empty \<and> recover (file_text (aof_path ''k'') s2) = [''a'' \<mapsto> ''1'']"
proof -
  let ?h = "\<lambda>_ _. 0" and ?s = "snd (open_append (aof_path ''k'') empty_fs)"
  obtain db where db: "DB_ctor ?h False ''k'' empty_fs = (Ok db, ?s)" "journalled ''k'' db ?s"
    "logBuffer (logger db) = []" "kv_of db = Map.empty"
    using first_session .
  let ?db = "snd (parseCommand ?h ''put a 1'' db)"
  have "loggable (command_of ''put a 1'')" by (simp add: sample_lines)
  note jc = journalled_command [OF db(2) this, of ?h]
  have run: "running_db ''k'' ?db ?s" using jc(1) by (simp add: journalled_def running_db_def)
  have w: "writable ?s p" for p by simp
  obtain db1 s1 where c: "clearData ?db ?s = (db1, s1)" by fastforce
  obtain r db2 s2 where sh: "shutdown (\<lambda>src n cap. (0, [])) db1 s1 = (r, db2, s2)" by (metis prod_cases3)
  note k = clear_keeps_buffer [OF run w w c sh]
  have "file_text (aof_path ''k'') ?s = []" by (simp add: file_text_open)
  then have "recover (logBuffer (logger ?db)) = [''a'' \<mapsto> ''1'']"
    using jc(1,2) db(4) by (simp add: journalled_def sample_lines)
  with k db(1) c sh show ?thesis by metis
qed

section \<open>The uninitialized flag\<close>

text \<open>Commands that write to the log only when the flag \<^verbatim>\<open>replaying\<close> is down.\<close>

fun single_event :: "event \<Rightarrow> bool" where
  "single_event (Command line) = (logged True (command_of line) = [])"
| "single_event Flush = True"

lemma muted_session:
  assumes "running_db ks db s" and "replaying db" and "logBuffer (logger db) = []" and "dirty db = 0"
    and "list_all single_event es" and "run_session h es (db, s) = (db', s')"
  shows "running_db ks db' s' \<and> kv_of db' = fold effect (commands_of es) (kv_of db)
    \<and> logBuffer (logger db') = [] \<and> dirty db' = 0
    \<and> file_text (aof_path ks) s' = file_text (aof_path ks) s"
  using assms
proof (induction es arbitrary: db s)
  case (Cons e es)
  obtain db1 s1 where r: "run_event h e (db, s) = (db1, s1)" by fastforce
  then have rest: "run_session h es (db1, s1) = (db', s')" using Cons.prems(6) by simp
  have single: "list_all single_event es" using Cons.prems(5) by simp
  show ?case
  proof (cases e)
    case (Command l)
    note rc = running_command [OF Cons.prems(1), of h l]
    have db1: "db1 = snd (parseCommand h l db)" "s1 = s" using r Command by simp_all
    have "logged True (command_of l) = []" using Cons.prems(5) Command by simp
    then have "replaying db1" "logBuffer (logger db1) = []" "dirty db1 = 0"
      using Cons.prems(2-4) by (simp_all add: db1 rc(3-5))
    then show ?thesis
      using Cons.IH [OF _ _ _ _ single, of db1 s1] rest rc(1,2) by (simp add: db1 Command)
  next
    case Flush
    then have "flush_db (db, s) = (db1, s1)" using r by simp
    note rf = running_flush [OF Cons.prems(1) this]
    show ?thesis
      using Cons.IH [OF rf(1) _ _ _ single rest] Cons.prems(2-4) rf(4) by (simp add: rf(3) Flush)
  qed
qed simp

text \<open>C38. The field \<^verbatim>\<open>replaying\<close> is never initialized. When it happens to hold true in a keyspace
  whose log is empty, no line of the log resets it: single puts and deletions then change
  the table, but neither the log nor the counter of changes, and a clean shutdown writes
  nothing. The whole session is lost.\<close>
theorem uninitialized_flag_loses_session:
  assumes "wf_fs s" and "writable s (aof_path ks)" and "writable s (temp_path ks)"
    and "file_text (aof_path ks) s = []" and "list_all single_event es"
    and "DB_ctor h True ks s = (Ok db, s1)" and "run_session h es (db, s1) = (db', s2)"
    and "shutdown lz4 db' s2 = (r, db'', s3)"
  shows "(kv_of db' = fold effect (commands_of es) Map.empty)
    \<and> (dirty db' = 0)
    \<and> (file_text (aof_path ks) s3 = [])"
proof (intro conjI)
  obtain db0 where db0: "DB_ctor h True ks s = (Ok db0, snd (open_append (aof_path ks) s))"
    "umap_wf (store db0)" "kv_of db0 = Map.empty" "dirty db0 = 0" "replaying db0"
    "log_open ks (logger db0) (snd (open_append (aof_path ks) s))" "logBuffer (logger db0) = []"
    using DB_ctor_ok [OF assms(1,2), of h True] assms(4) by (auto simp: relogged_def)
  with assms(6) have eq: "db0 = db" "s1 = snd (open_append (aof_path ks) s)" by simp_all
  have run: "running_db ks db s1" using db0 assms(1) by (simp add: running_db_def wf_open_append eq)
  have m: "running_db ks db' s2" "kv_of db' = fold effect (commands_of es) Map.empty"
    "logBuffer (logger db') = []" "dirty db' = 0" "file_text (aof_path ks) s2 = file_text (aof_path ks) s1"
    using muted_session [OF run _ _ _ assms(5,7)] db0 by (simp_all add: eq)
  have f: "wf_fs s2" "log_open ks (logger db') s2" using m(1) by (simp_all add: running_db_def)
  have w: "writable s2 (temp_path ks)" using run_session_writable [OF assms(7)] assms(3) by (simp add: eq)
  show "kv_of db' = fold effect (commands_of es) Map.empty" "dirty db' = 0" by (rule m(2), rule m(4))
  show "file_text (aof_path ks) s3 = []"
    using shutdown_eq(5) [OF f w assms(8)] m assms(1,4) by (simp add: eq file_text_open)
qed

theorem uninitialized_flag_loses_session_witness:
  "\<exists>db s1 db' s2 r db'' s3. DB_ctor (\<lambda>_ _. 0) True ''k'' empty_fs = (Ok db, s1)
    \<and> run_session (\<lambda>_ _. 0) [Command ''put a 1'', Flush] (db, s1) = (db', s2)
    \<and> shutdown (\<lambda>src n cap. (0, [])) db' s2 = (r, db'', s3)
    \<and> kv_of db' = [''a'' \<mapsto> ''1''] \<and> recover (file_text (aof_path ''k'') s3) = Map.empty"
proof -
  let ?h = "\<lambda>_ _. 0" and ?es = "[Command ''put a 1'', Flush]"
  obtain db s1 where c: "DB_ctor ?h True ''k'' empty_fs = (Ok db, s1)"
    using DB_ctor_ok [of empty_fs "''k''" ?h True] by auto
  obtain db' s2 where r: "run_session ?h ?es (db, s1) = (db', s2)" by fastforce
  obtain rr db'' s3 where sh: "shutdown (\<lambda>src n cap. (0, [])) db' s2 = (rr, db'', s3)" by (metis prod_cases3)
  have single: "list_all single_event ?es" by (simp add: sample_lines)
  have "wf_fs empty_fs" "writable empty_fs (aof_path ''k'')" "writable empty_fs (temp_path ''k'')"
    "file_text (aof_path ''k'') empty_fs = []"
    by simp_all
  note u = uninitialized_flag_loses_session [OF this single c r sh]
  have "kv_of db' = [''a'' \<mapsto> ''1'']" using u by (simp add: sample_lines)
  moreover have "recover (file_text (aof_path ''k'') s3) = Map.empty" by (simp add: u)
  ultimately show ?thesis using c r sh by blast
qed

section \<open>An entry that is not read back\<close>

lemma empty_key_line:
  assumes "plain_word v"
  shows "command_of (join_words [''put'', [QUOTE, QUOTE], v]) = Put [] v"
    and "command_of (line_of (Put [] v)) = Invalid"
proof -
  have w: "is_word v" "hd v \<noteq> QUOTE" using assms by (simp_all add: plain_word_def)
  have put: "is_word ''put''" "is_word [QUOTE, QUOTE]" by (simp_all add: is_word_def isspace_def)
  have "words (join_words [''put'', [QUOTE, QUOTE], v]) = [''put'', [QUOTE, QUOTE], v]"
    by (rule words_join) (simp add: put w(1))
  then have "tokenize (join_words [''put'', [QUOTE, QUOTE], v]) = [''put'', [], v]"
    using w(2) by (simp add: tokenize_group_words strip_quotes_def)
  then show "command_of (join_words [''put'', [QUOTE, QUOTE], v]) = Put [] v"
    by (simp add: command_of_def del: join_words.simps)
  have "words (line_of (Put [] v)) = [''put'', v]"
    using put(1) w(1) by (simp only: line_of.simps words_join_concat) (simp add: words_last)
  then have "tokenize (line_of (Put [] v)) = [''put'', v]"
    using w(2) by (simp only: tokenize_group_words) simp
  then show "command_of (line_of (Put [] v)) = Invalid"
    by (simp add: command_of_def del: line_of.simps)
qed

text \<open>C39. An empty key, written \<open>""\<close> on the command line with a plain word as value, is stored, and
  after a flush its entry is in the log file; but the entry has no token for the key, so after
  a crash the pair is gone, and the table is what it was before.\<close>
theorem empty_key_not_recovered:
  assumes "journalled ks db s" and "logBuffer (logger db) = []" and "plain_word v"
    and "run_session h [Command (join_words [''put'', [QUOTE, QUOTE], v]), Flush] (db, s) = (db', s')"
    and "writable s' (aof_path ks)"
  shows "(kv_of db' [] = Some v)
    \<and> (file_text (aof_path ks) s' = file_text (aof_path ks) s @ ''put '' @ [] @ '' '' @ v @ [NL])
    \<and> (\<exists>db2 s2. DB_ctor h junk ks s' = (Ok db2, s2) \<and> kv_of db2 = kv_of db)"
proof (intro conjI)
  let ?l = "join_words [''put'', [QUOTE, QUOTE], v]"
  note line = empty_key_line [OF assms(3)]
  have j: "running_db ks db s" "\<not> replaying db" "finished (file_text (aof_path ks) s)"
    "recover (file_text (aof_path ks) s) = kv_of db" "log_open ks (logger db) s"
    using assms(1,2) journalled_finished [OF assms(1)] by (simp_all add: journalled_def running_db_def)
  note rc = running_command [OF j(1), of h ?l]
  have "logBuffer (logger (snd (parseCommand h ?l db))) = unlines [line_of (Put [] v)]"
    using j(2,5) assms(2) unfolding rc(3) line(1)
    by (simp add: logBuffer_add del: line_of.simps unlines_simps)
  moreover have "flush_db (snd (parseCommand h ?l db), s) = (db', s')" using assms(4) by simp
  note rf = running_flush [OF rc(1) this]
  ultimately have text': "file_text (aof_path ks) s' = file_text (aof_path ks) s @ unlines [line_of (Put [] v)]"
    using rf(4) by simp
  then show "file_text (aof_path ks) s' = file_text (aof_path ks) s @ ''put '' @ [] @ '' '' @ v @ [NL]" by simp
  show "kv_of db' [] = Some v" using rc(2) unfolding line(1) by (simp add: rf(3) del: join_words.simps)
  have "NL \<notin> set (line_of (Put [] v))"
    using assms(3) by (auto simp: plain_word_def is_word_def list_all_iff isspace_def)
  then have "recover (file_text (aof_path ks) s') = replay_line (line_of (Put [] v)) (kv_of db)"
    using j(3,4) getlines_unlines [of "[line_of (Put [] v)]"]
    by (simp add: text' recover_append del: line_of.simps unlines_simps)
  then have "recover (file_text (aof_path ks) s') = kv_of db"
    by (simp only: replay_line_command line(2) effect.simps)
  moreover have "wf_fs s'" using rf(1) by (simp add: running_db_def)
  ultimately show "\<exists>db2 s2. DB_ctor h junk ks s' = (Ok db2, s2) \<and> kv_of db2 = kv_of db"
    using DB_ctor_ok [OF _ assms(5), of h junk] by metis
qed

theorem empty_key_not_recovered_witness:
  "\<exists>db s db' s' db2 s2. DB_ctor (\<lambda>_ _. 0) False ''k'' empty_fs = (Ok db, s)
    \<and> run_session (\<lambda>_ _. 0) [Command (''put '' @ [QUOTE, QUOTE] @ '' 1''), Flush] (db, s) = (db', s')
    \<and> kv_of db' [] = Some ''1'' \<and> file_text (aof_path ''k'') s' = ''put  1'' @ [NL]
    \<and> DB_ctor (\<lambda>_ _. 0) False ''k'' s' = (Ok db2, s2) \<and> kv_of db2 = Map.empty"
proof -
  let ?h = "\<lambda>_ _. 0" and ?es = "[Command (join_words [''put'', [QUOTE, QUOTE], ''1'']), Flush]"
  let ?s = "snd (open_append (aof_path ''k'') empty_fs)"
  obtain db where db: "DB_ctor ?h False ''k'' empty_fs = (Ok db, ?s)" "journalled ''k'' db ?s"
    "logBuffer (logger db) = []" "kv_of db = Map.empty"
    using first_session .
  obtain db' s' where r: "run_session ?h ?es (db, ?s) = (db', s')" by fastforce
  have v: "plain_word ''1''" by (simp add: plain_word_def is_word_def isspace_def)
  have w: "writable s' (aof_path ''k'')" using run_session_writable [OF r] by simp
  note e = empty_key_not_recovered [OF db(2,3) v r w]
  obtain db2 s2 where d: "DB_ctor ?h False ''k'' s' = (Ok db2, s2)" "kv_of db2 = Map.empty"
    using e [of False] db(4) by auto
  have "join_words [''put'', [QUOTE, QUOTE], ''1''] = ''put '' @ [QUOTE, QUOTE] @ '' 1''" by simp
  then have "run_session ?h [Command (''put '' @ [QUOTE, QUOTE] @ '' 1''), Flush] (db, ?s) = (db', s')"
    using r by (simp only:)
  moreover have "file_text (aof_path ''k'') s' = ''put  1'' @ [NL]"
    using e [THEN conjunct2, THEN conjunct1] by (simp add: file_text_open)
  ultimately show ?thesis using db(1) e [THEN conjunct1] d by blast
qed

end
