(* ===== verification/Serving.thy ===== *)
theory Serving
  imports Server Hazards
begin

text \<open>
  What the server does with the lines of a client: the commands on the data, the loop over a
  connection, the life of the server, and the switch of the keyspace.
\<close>

section \<open>Commands on the data\<close>

text \<open>The lines the dispatcher hands to \<^verbatim>\<open>parseCommand\<close>.\<close>

definition db_line :: "string \<Rightarrow> bool" where
  "db_line input = (\<not> isAllSpace input
     \<and> input \<notin> {''stats'', ''clear'', ''show'', ''keys'', ''values'', ''quit'', ''exit''}
     \<and> \<not> (tokenize input ! 0 = ''use'' \<and> length (tokenize input) = 2))"

lemma printVector_Nil [simp]: "printVector [] = []"
  by (simp add: printVector_def)

lemma dispatcher_db_line:
  assumes "db_line input" and "running_db ks (server_db srv) s"
  shows "dispatcher h lz4 junk input srv s =
    (Ok (printVector (answer (command_of input) (kv_of (server_db srv)))),
     srv\<lparr>server_db := snd (parseCommand h input (server_db srv))\<rparr>, s)"
proof -
  have t: "tokenize input \<noteq> []" using assms(1) by (simp add: db_line_def tokenize_empty_iff)
  have wf: "umap_wf (store (server_db srv))" using assms(2) by (simp add: running_db_def)
  obtain st where "parseCommand h input (server_db srv)
      = (Ok (answer (command_of input) (kv_of (server_db srv))), after_command (command_of input) st (server_db srv))"
    using parseCommand_eq [OF wf running_usable [OF assms(2)]] by blast
  with assms(1) t show ?thesis by (auto simp: dispatcher_def db_line_def Let_def)
qed

text \<open>A line of white space, so also an empty line, makes the dispatcher read the first of no
  tokens: outside the vector, whatever the state.\<close>
lemma blank_line_faults:
  assumes "isAllSpace l" and "NL \<notin> set l" and "concat segs = l @ NL # rest"
  shows "handleClient h lz4 junk segs srv s = (([], Fault Out_of_bounds), srv, s)"
proof -
  have t: "tokenize l = []"
    using assms(1) by (simp add: tokenize_empty_iff)
  have "l \<noteq> ''stats''" "l \<noteq> ''clear''" using assms(1) by (auto simp: isspace_def)
  with t have "dispatcher h lz4 junk l srv s = (Fault Out_of_bounds, srv, s)"
    by (simp add: dispatcher_def Let_def)
  moreover obtain segs' where "server_read segs = Some (l, segs')"
    using server_read_line [OF assms(2,3)] by blast
  ultimately show ?thesis by (subst handleClient.simps) simp
qed

section \<open>One connection\<close>

text \<open>The answers of the specification to commands, one after the other.\<close>

fun answers :: "command list \<Rightarrow> kv \<Rightarrow> string list list" where
  "answers [] m = []"
| "answers (c # cs) m = answer c m # answers cs (effect c m)"

lemma run_commands_eq:
  "running_db ks db s \<Longrightarrow> run_session h (map Command ls) (db, s) = (db', s')
    \<Longrightarrow> running_db ks db' s \<and> s' = s \<and> kv_of db' = fold effect (map command_of ls) (kv_of db)"
proof (induction ls arbitrary: db)
  case (Cons l ls)
  let ?db = "snd (parseCommand h l db)"
  note rc = running_command [OF Cons.prems(1), of h l]
  have "run_session h (map Command ls) (?db, s) = (db', s')" using Cons.prems(2) by simp
  from Cons.IH [OF rc(1) this] show ?case by (simp add: rc(2))
qed simp

lemma server_read_segment: "NL \<notin> set l \<Longrightarrow> server_read ((l @ [NL]) # segs) = Some (l, segs)"
proof -
  assume l: "NL \<notin> set l"
  then have "\<not> sublist [NL] l" by (simp add: sublist_single)
  then have "find_sub [NL] (l @ [NL]) = Some (length l)" using newline.find_after [of l "[]"] by simp
  then have "read_until [NL] ((l @ [NL]) # segs) [] = Some (l @ [NL], segs)"
    by (cases segs) simp_all
  moreover have "getline NL (l @ [NL]) = Some (l, [])" using l by (simp add: getline_def)
  ultimately show ?thesis by (simp add: server_read_def)
qed

text \<open>A client that sends commands on the data, one line for each segment, gets for each line the
  answer of the specification, one value on a line, and the end mark; the table has gone
  through the commands in order, and no file is touched.\<close>

lemma handleClient_commands:
  assumes "running_db ks (server_db srv) s" and "list_all (\<lambda>l. db_line l \<and> NL \<notin> set l) ls"
    and "run_session h (map Command ls) (server_db srv, s) = (db', s')"
  shows "handleClient h lz4 junk (map (\<lambda>l. l @ [NL]) ls) srv s =
    ((map (\<lambda>vs. printVector vs @ END_DELIM) (answers (map command_of ls) (kv_of (server_db srv))), Ok ()),
     srv\<lparr>server_db := db'\<rparr>, s)"
  using assms
proof (induction ls arbitrary: srv)
  case Nil
  then show ?case by (subst handleClient.simps) (simp add: server_read_def)
next
  case (Cons l ls)
  let ?db = "snd (parseCommand h l (server_db srv))"
  have l: "db_line l" "NL \<notin> set l" "list_all (\<lambda>l. db_line l \<and> NL \<notin> set l) ls"
    using Cons.prems(2) by simp_all
  note rc = running_command [OF Cons.prems(1), of h l]
  have "handleClient h lz4 junk (map (\<lambda>l. l @ [NL]) ls) (srv\<lparr>server_db := ?db\<rparr>) s =
    ((map (\<lambda>vs. printVector vs @ END_DELIM) (answers (map command_of ls) (kv_of ?db)), Ok ()),
     srv\<lparr>server_db := db'\<rparr>, s)"
    using Cons.IH [of "srv\<lparr>server_db := ?db\<rparr>"] rc(1) l(3) Cons.prems(3) by simp
  then show ?case
    by (subst handleClient.simps)
      (simp add: server_read_segment [OF l(2)] dispatcher_db_line [OF l(1) Cons.prems(1)] rc(2))
qed

lemma db_line_samples: "db_line ''put a 1''" "db_line ''get a''"
proof -
  have "tokenize ''put a 1'' = [''put'', ''a'', ''1'']" "tokenize ''get a'' = [''get'', ''a'']" by code_simp+
  then show "db_line ''put a 1''" "db_line ''get a''" by (simp_all add: db_line_def isspace_def)
qed

definition sample_server :: "DB \<Rightarrow> Server" where
  "sample_server db = \<lparr>server_host = ''127.0.0.1'', server_port = 6379, running = True,
     acceptor_open = True, server_db = db\<rparr>"

lemma sample_server_db [simp]: "server_db (sample_server db) = db"
  by (simp add: sample_server_def)

text \<open>Pipelined lines are lost. When two lines arrive in one segment, the second is in the buffer
  that is thrown away after the first: the client gets one answer for them.\<close>
lemma pipelined_line_dropped:
  assumes "NL \<notin> set a" and "NL \<notin> set b"
  shows "handleClient h lz4 junk ((a @ NL # b @ [NL]) # segs) srv s
    = handleClient h lz4 junk ((a @ [NL]) # segs) srv s"
proof -
  have "\<not> sublist [NL] a" using assms(1) by (simp add: sublist_single)
  then have "find_sub [NL] (a @ NL # b @ [NL]) = Some (length a)"
    using newline.find_after [of a "b @ [NL]"] by simp
  then have "read_until [NL] ((a @ NL # b @ [NL]) # segs) [] = Some (a @ NL # b @ [NL], segs)"
    by (cases segs) simp_all
  moreover have "getline NL (a @ NL # b @ [NL]) = Some (a, b @ [NL])"
    using assms(1) by (simp add: getline_def)
  ultimately have "server_read ((a @ NL # b @ [NL]) # segs) = server_read ((a @ [NL]) # segs)"
    by (simp add: server_read_def [of "(a @ NL # b @ [NL]) # segs"] server_read_segment [OF assms(1)])
  then show ?thesis by (subst (1 2) handleClient.simps) simp
qed

end
