(* ===== verification/Switching.thy ===== *)
theory Switching
  imports Serving
begin

text \<open>
  The command \<^verbatim>\<open>use\<close> and the life of a server: what becomes of the two keyspaces, and the
  ways in which the switch goes wrong.
\<close>

section \<open>Directory entries during a shutdown\<close>

lemma dirents_open_trunc_other: "q \<noteq> p \<Longrightarrow> dirents (snd (open_trunc p s)) q = dirents s q"
  by (simp add: open_trunc_def fs_create_def split: option.split)

lemma dirents_write_file_other: "q \<noteq> p \<Longrightarrow> dirents (write_file p t s) q = dirents s q"
  by (simp add: write_file_def Let_def dirents_open_trunc_other)

lemma dirents_rename_other:
  "q \<noteq> p \<Longrightarrow> q \<noteq> p' \<Longrightarrow> dirents (snd (fs_rename p p' s)) q = dirents s q"
  by (simp add: fs_rename_def split: option.split)

lemma dirents_snapshot_other:
  "q \<noteq> dbFilepath L \<Longrightarrow> dirents (snd (writeBinarySnapshot lz4 st L s)) q = dirents s q"
  using dirents_open_trunc_other [of q "dbFilepath L" s]
  by (auto simp: writeBinarySnapshot_def Let_def split: option.split sum.split prod.split)

lemma dirents_shutdown_closed:
  assumes "log_closed ks (logger db)" and "q \<notin> {aof_path ks, temp_path ks, db_path ks}"
    and "shutdown lz4 db s = (r, db', s')"
  shows "dirents s' q = dirents s q"
proof -
  have p: "keyspaceName (logger db) = Some ks" "logFilepath (logger db) = aof_path ks"
    "dbFilepath (logger db) = db_path ks"
    using assms(1) by (simp_all add: log_closed_def)
  have c: "closeLog (logger db) s = ((logger db)\<lparr>fileDescriptor := None\<rparr>, s)"
    using assms(1) by (simp add: log_closed_def closeLog_def Let_def)
  let ?L = "(logger db)\<lparr>fileDescriptor := None\<rparr>"
  obtain r2 s2 where k: "compactLog (store db) (dirty db) ?L s = (r2, s2)" by fastforce
  have "dirents s2 q = dirents s q"
    using k assms(2) dirents_rename_other [of q "temp_path ks" "aof_path ks"] p
    by (auto simp: compactLog_def Let_def dirents_write_file_other split: if_splits
        simp flip: prod.collapse dest!: arg_cong [where f = snd])
  moreover have "s' = s2 \<or> s' = snd (writeBinarySnapshot lz4 (store db) ?L s2)"
    using assms(3) k by (cases r2) (auto simp: shutdown_def c Let_def split: prod.splits)
  ultimately show ?thesis using dirents_snapshot_other [of q ?L lz4 "store db" s2] assms(2) p by auto
qed

section \<open>Switching to another keyspace\<close>

lemma DB_dtor_ok:
  assumes "shutdown lz4 db s = (Ok (), db', s')"
  shows "DB_dtor lz4 db s = (Ok (), s')"
  using shutdown_stops [OF assms] by (simp add: DB_dtor_def assms Log_dtor_def)

lemma other_paths:
  "ks' \<noteq> ks \<Longrightarrow> ks' \<noteq> ks @ ''_temp'' \<Longrightarrow> aof_path ks' \<notin> {aof_path ks, temp_path ks, db_path ks}"
  by (simp add: temp_path_aof)

lemma use_other:
  assumes j: "journalled ks (server_db srv) s" and t: "writable s (temp_path ks)" "writable s (aof_path ks')"
    and n: "ks' \<noteq> ks" "ks' \<noteq> ks @ ''_temp''"
    and ok: "snapshot_result lz4 (store (server_db srv)) (writable s (db_path ks)) = Ok ()"
  obtains db s' where "use_keyspace h lz4 junk ks' srv s
      = (Ok (''OK switched keyspace to '' @ ks'), srv\<lparr>server_db := forget_name db\<rparr>, s')"
    and "wf_fs s'" and "writable s' = writable s" and "umap_wf (store db)" and "name db = ks'"
    and "kv_of db = recover (file_text (aof_path ks') s)" and "log_open ks' (logger db) s'" and "dirty db = 0"
    and "file_text (aof_path ks') s' = file_text (aof_path ks') s"
    and "recover (file_text (aof_path ks) s') = kv_of (server_db srv)"
    and "replaying db \<longrightarrow> junk"
proof -
  let ?old = "server_db srv"
  have f: "wf_fs s" "log_open ks (logger ?old) s" "umap_wf (store ?old)" "table_replayable (store ?old)"
    using j by (simp_all add: journalled_def)
  obtain r1 db1 s1 where sh: "shutdown lz4 ?old s = (r1, db1, s1)" by (metis prod_cases3)
  note e1 = shutdown_eq [OF f(1,2) t(1) sh] and rec1 = shutdown_recover [OF j t(1) sh]
  have r1: "r1 = Ok ()" using shutdown_result [OF f(1,2) t(1) sh] ok by simp
  have closed: "log_closed ks (logger db1)" by (rule shutdown_closes [OF f(1,2) sh])
  let ?s2 = "snd (open_append (aof_path ks') s1)"
  have w1: "writable s1 (aof_path ks')" "writable ?s2 (temp_path ks)" using t by (simp_all add: e1(2))
  have same: "file_text (aof_path ks') s1 = file_text (aof_path ks') s"
    using e1(6) [OF other_paths [OF n]] by (simp add: file_text_def)
  obtain db where db: "DB_ctor h junk ks' s1 = (Ok db, ?s2)" "umap_wf (store db)" "name db = ks'"
    "kv_of db = recover (file_text (aof_path ks') s)" "log_open ks' (logger db) ?s2" "dirty db = 0"
    "replaying db \<longrightarrow> junk"
    using DB_ctor_ok [OF e1(1) w1(1), of h junk] same by auto
  have w2: "wf_fs ?s2" using e1(1) by (rule wf_open_append)
  obtain r3 db3 s3 where sh2: "shutdown lz4 db1 ?s2 = (r3, db3, s3)" by (metis prod_cases3)
  note e3 = shutdown_again [OF w2 closed w1(2) sh2]
  have r3: "r3 = Ok ()" using e3(5) ok by (simp add: e1(2,3))
  have d: "dirents s3 (aof_path ks') = dirents ?s2 (aof_path ks')"
    by (rule dirents_shutdown_closed [OF closed other_paths [OF n] sh2])
  have lo: "log_open ks' (logger db) s3" using db(5) by (simp add: log_open_def d)
  have text': "file_text (aof_path ks') s3 = file_text (aof_path ks') s"
    using e3(4) [OF other_paths [OF n]] same file_text_open [OF e1(1)] by (simp add: file_text_def)
  have "file_text (aof_path ks) s3 = file_text (aof_path ks) s1"
    using e3(3) file_text_open [OF e1(1)] by (simp add: e1(3,4,5))
  then have old: "recover (file_text (aof_path ks) s3) = kv_of ?old" using rec1(2) by simp
  have w3: "writable s3 = writable s" by (simp add: e3(2) e1(2))
  have "use_keyspace h lz4 junk ks' srv s
      = (Ok (''OK switched keyspace to '' @ ks'), srv\<lparr>server_db := forget_name db\<rparr>, s3)"
    by (simp add: use_keyspace_def sh r1 db(1) DB_dtor_ok [OF sh2 [unfolded r3]])
  from that [OF this e3(1) w3 db(2,3,4) lo db(6) text' old db(7)] show ?thesis .
qed

lemma use_line:
  assumes "replayable ks'"
  shows "dispatcher h lz4 junk (join_words [''use'', ks']) srv s = use_keyspace h lz4 junk ks' srv s"
proof -
  have "plain_word ''use''" by (simp add: plain_word_def is_word_def isspace_def)
  then have "tokenize (join_words [''use'', ks']) = [''use'', ks']"
    using assms by (intro tokenize_join) simp
  moreover have "join_words [''use'', ks'] \<noteq> ''stats''" "join_words [''use'', ks'] \<noteq> ''clear''" by simp_all
  ultimately show ?thesis by (simp add: dispatcher_def Let_def del: join_words.simps)
qed

text \<open>C16. Switching the keyspace. \<^verbatim>\<open>use\<close> with another name answers that it has switched; the new
  database holds what the log of that keyspace says, which the switch leaves as it is, and
  the log of the old keyspace says what its table was. Conditions: the log of the old
  keyspace with its buffer says what its table is; the new name is one that the tokenizer gives
  back, neither the old name nor the old name with \<open>_temp\<close> at the end, whose log the switch
  would destroy; the temporary log and the new log can be written; and the snapshot of the old
  keyspace succeeds, as otherwise the answer is the error of \<^verbatim>\<open>use\<close>.\<close>
theorem use_switches_keyspace:
  assumes "journalled ks (server_db srv) s" and "writable s (temp_path ks)" and "writable s (aof_path ks')"
    and "ks' \<noteq> ks" and "ks' \<noteq> ks @ ''_temp''" and "replayable ks'"
    and "snapshot_result lz4 (store (server_db srv)) (writable s (db_path ks)) = Ok ()"
  shows "\<exists>srv' s'. dispatcher h lz4 junk (join_words [''use'', ks']) srv s
      = (Ok (''OK switched keyspace to '' @ ks'), srv', s')
    \<and> name (server_db srv') = ks' \<and> kv_of (server_db srv') = recover (file_text (aof_path ks') s)
    \<and> file_text (aof_path ks') s' = file_text (aof_path ks') s
    \<and> recover (file_text (aof_path ks) s') = kv_of (server_db srv)"
proof -
  obtain db s' where u: "use_keyspace h lz4 junk ks' srv s
      = (Ok (''OK switched keyspace to '' @ ks'), srv\<lparr>server_db := forget_name db\<rparr>, s')"
    "name db = ks'" "kv_of db = recover (file_text (aof_path ks') s)"
    "file_text (aof_path ks') s' = file_text (aof_path ks') s"
    "recover (file_text (aof_path ks) s') = kv_of (server_db srv)"
    using use_other [OF assms(1-5,7), of h junk] .
  let ?srv = "srv\<lparr>server_db := forget_name db\<rparr>"
  have f: "name (server_db ?srv) = ks'" "kv_of (server_db ?srv) = recover (file_text (aof_path ks') s)"
    using u(2,3) by (simp_all add: forget_name_def)
  show ?thesis unfolding use_line [OF assms(6)]
    using u(1,4,5) f by (intro exI [of _ ?srv] exI [of _ s'] conjI)
qed

lemma small_snapshot:
  "length (serialize st) \<le> COMPRESSION_THRESHOLD \<Longrightarrow> snapshot_result lz4 st b = Ok ()"
  by (simp add: snapshot_result_def snapshot_bytes_def)

lemma sample_journalled:
  obtains db where "DB_ctor h False ''k'' empty_fs = (Ok db, snd (open_append (aof_path ''k'') empty_fs))"
    and "journalled ''k'' (snd (parseCommand h ''put a 1'' db)) (snd (open_append (aof_path ''k'') empty_fs))"
    and "kv_of (snd (parseCommand h ''put a 1'' db)) = [''a'' \<mapsto> ''1'']"
    and "dirty (snd (parseCommand h ''put a 1'' db)) = 1"
    and "store (snd (parseCommand h ''put a 1'' db)) = [(''a'', ''1'')]"
proof -
  let ?s = "snd (open_append (aof_path ''k'') empty_fs)"
  obtain db where db: "DB_ctor h False ''k'' empty_fs = (Ok db, ?s)" "journalled ''k'' db ?s"
    "kv_of db = Map.empty" "dirty db = 0"
    using DB_ctor_journalled [of empty_fs "''k''" False h] by auto
  let ?db = "snd (parseCommand h ''put a 1'' db)"
  have l: "loggable (command_of ''put a 1'')" by (simp add: sample_lines)
  note jc = journalled_command [OF db(2) l, of h]
  have run: "running_db ''k'' db ?s" using db(2) by (simp add: journalled_def running_db_def)
  have kv: "kv_of ?db = [''a'' \<mapsto> ''1'']" using jc(2) db(3) by (simp add: sample_lines)
  have d: "dirty ?db = 1"
    using running_command(5) [OF run, of h "''put a 1''"] db(2,4) by (simp add: sample_lines journalled_def)
  have "store ?db = [(''a'', ''1'')]" using jc(1) kv by (intro map_of_single) (simp_all add: journalled_def umap_wf_def)
  with that [OF db(1) jc(1) kv d] show ?thesis by blast
qed

theorem use_switches_keyspace_witness:
  "\<exists>db s srv' s'. DB_ctor (\<lambda>_ _. 0) False ''k'' empty_fs = (Ok db, s)
    \<and> dispatcher (\<lambda>_ _. 0) (\<lambda>src n cap. (0, [])) False ''use x''
        (sample_server (snd (parseCommand (\<lambda>_ _. 0) ''put a 1'' db))) s
      = (Ok ''OK switched keyspace to x'', srv', s')
    \<and> kv_of (server_db srv') = Map.empty \<and> recover (file_text (aof_path ''k'') s') = [''a'' \<mapsto> ''1'']"
proof -
  let ?h = "\<lambda>_ _. 0" and ?lz4 = "\<lambda>src n cap. (0, [])" and ?s = "snd (open_append (aof_path ''k'') empty_fs)"
  obtain db where db: "DB_ctor ?h False ''k'' empty_fs = (Ok db, ?s)"
    "journalled ''k'' (snd (parseCommand ?h ''put a 1'' db)) ?s"
    "kv_of (snd (parseCommand ?h ''put a 1'' db)) = [''a'' \<mapsto> ''1'']"
    "store (snd (parseCommand ?h ''put a 1'' db)) = [(''a'', ''1'')]"
    using sample_journalled .
  let ?srv = "sample_server (snd (parseCommand ?h ''put a 1'' db))"
  have x: "replayable ''x''" by (simp add: plain_word_def is_word_def isspace_def)
  have "length (serialize [(''a'', ''1'')]) \<le> COMPRESSION_THRESHOLD"
    by (simp add: length_serialize COMPRESSION_THRESHOLD_def)
  then have ok: "snapshot_result ?lz4 (store (server_db ?srv)) (writable ?s (db_path ''k'')) = Ok ()"
    by (simp only: sample_server_db db(4) small_snapshot)
  have j: "journalled ''k'' (server_db ?srv) ?s" using db(2) by simp
  have w: "writable ?s p" for p by simp
  have t: "file_text (aof_path ''x'') ?s = []" by (simp add: file_text_open)
  obtain srv' s' where u: "dispatcher ?h ?lz4 False (join_words [''use'', ''x'']) ?srv ?s
      = (Ok (''OK switched keyspace to '' @ ''x''), srv', s')"
    "kv_of (server_db srv') = recover (file_text (aof_path ''x'') ?s)"
    "recover (file_text (aof_path ''k'') s') = kv_of (server_db ?srv)"
    using use_switches_keyspace [OF j w w _ _ x ok, of ?h False] by auto
  have "join_words [''use'', ''x''] = ''use x''" by simp
  with u have "dispatcher ?h ?lz4 False ''use x'' ?srv ?s = (Ok ''OK switched keyspace to x'', srv', s')"
    by (simp only: append.simps)
  with db(1,3) u(2,3) t show ?thesis by (metis recover_Nil sample_server_db)
qed

section \<open>The dangling name\<close>

lemma nameless_session:
  assumes "umap_wf (store db)" and "logfile (logger db) \<noteq> None" and "keyspaceName (logger db) = None"
    and "run_session h es (db, s) = (db', s')"
  shows "keyspaceName (logger db') = None"
  using assms
proof (induction es arbitrary: db s)
  case (Cons e es)
  obtain db1 s1 where r: "run_event h e (db, s) = (db1, s1)" by fastforce
  then have rest: "run_session h es (db1, s1) = (db', s')" using Cons.prems(4) by simp
  have "umap_wf (store db1) \<and> logfile (logger db1) \<noteq> None \<and> keyspaceName (logger db1) = None"
  proof (cases e)
    case (Command l)
    have us: "usable (logger db)" using Cons.prems(2) by (simp add: usable_def)
    obtain st where "umap_wf st" "parseCommand h l db
        = (Ok (answer (command_of l) (kv_of db)), after_command (command_of l) st db)"
      using parseCommand_eq [OF Cons.prems(1) us] by blast
    then show ?thesis using r Cons.prems(2,3) Command by (auto simp: add_entries_def)
  next
    case Flush
    then show ?thesis using r Cons.prems(1-3)
      by (auto simp: flush_db_def flush_iteration_def split: if_splits)
  qed
  with Cons.IH rest show ?case by blast
qed simp

lemma nameless_shutdown:
  assumes "keyspaceName (logger db) = None" and "dirty db \<noteq> 0" and "store db \<noteq> []"
  shows "fst (shutdown lz4 db s) = Fault Dangling_reference"
proof -
  obtain L s1 where c: "closeLog (logger db) s = (L, s1)" by fastforce
  have "keyspaceName L = None" using c assms(1) by (auto simp: closeLog_def Let_def split: if_splits)
  moreover have "\<not> dirty db \<le> 0" using assms(2) by simp
  ultimately show ?thesis using assms(3) by (simp add: shutdown_def c compactLog_def)
qed

text \<open>C31. The name that is gone. After a \<^verbatim>\<open>use\<close> that has switched to another keyspace, under the conditions
  under which it does, the logger refers to a string that died with the command line. Every
  session that ends with a change and a table that is not empty runs into the dangling
  reference at the next shutdown, before it compacts.\<close>
theorem use_then_shutdown_dangles:
  assumes "journalled ks (server_db srv) s" and "writable s (temp_path ks)" and "writable s (aof_path ks')"
    and "ks' \<noteq> ks" and "ks' \<noteq> ks @ ''_temp''" and "replayable ks'"
    and "snapshot_result lz4 (store (server_db srv)) (writable s (db_path ks)) = Ok ()"
    and "dispatcher h lz4 junk (join_words [''use'', ks']) srv s = (resp, srv', s1)"
    and "run_session h es (server_db srv', s1) = (db, s2)" and "dirty db \<noteq> 0" and "store db \<noteq> []"
  shows "fst (shutdown lz4 db s2) = Fault Dangling_reference"
proof -
  obtain new s' where u: "use_keyspace h lz4 junk ks' srv s
      = (Ok (''OK switched keyspace to '' @ ks'), srv\<lparr>server_db := forget_name new\<rparr>, s')"
    "umap_wf (store new)" "log_open ks' (logger new) s'"
    using use_other [OF assms(1-5,7), of h junk] .
  have srv': "server_db srv' = forget_name new"
    using u(1) assms(8) unfolding use_line [OF assms(6)] by auto
  have "umap_wf (store (server_db srv'))" "logfile (logger (server_db srv')) \<noteq> None"
    "keyspaceName (logger (server_db srv')) = None"
    using u(2,3) by (auto simp: srv' forget_name_def log_open_def)
  from nameless_session [OF this assms(9)] show ?thesis by (rule nameless_shutdown [OF _ assms(10,11)])
qed

text \<open>A server on a small table, for the witnesses.\<close>

lemma sample_switch:
  obtains db where "DB_ctor h False ''k'' empty_fs = (Ok db, snd (open_append (aof_path ''k'') empty_fs))"
    and "journalled ''k'' (server_db (sample_server (snd (parseCommand h ''put a 1'' db))))
      (snd (open_append (aof_path ''k'') empty_fs))"
    and "kv_of (server_db (sample_server (snd (parseCommand h ''put a 1'' db)))) = [''a'' \<mapsto> ''1'']"
    and "dirty (server_db (sample_server (snd (parseCommand h ''put a 1'' db)))) \<noteq> 0"
    and "store (server_db (sample_server (snd (parseCommand h ''put a 1'' db)))) \<noteq> []"
    and "\<forall>b. snapshot_result (\<lambda>src n cap. (0, []))
      (store (server_db (sample_server (snd (parseCommand h ''put a 1'' db))))) b = Ok ()"
proof -
  obtain db where db: "DB_ctor h False ''k'' empty_fs = (Ok db, snd (open_append (aof_path ''k'') empty_fs))"
    "journalled ''k'' (snd (parseCommand h ''put a 1'' db)) (snd (open_append (aof_path ''k'') empty_fs))"
    "kv_of (snd (parseCommand h ''put a 1'' db)) = [''a'' \<mapsto> ''1'']"
    "dirty (snd (parseCommand h ''put a 1'' db)) = 1"
    "store (snd (parseCommand h ''put a 1'' db)) = [(''a'', ''1'')]"
    using sample_journalled .
  have "length (serialize [(''a'', ''1'')]) \<le> COMPRESSION_THRESHOLD"
    by (simp add: length_serialize COMPRESSION_THRESHOLD_def)
  from small_snapshot [OF this] have "snapshot_result (\<lambda>src n cap. (0, []))
      (store (server_db (sample_server (snd (parseCommand h ''put a 1'' db))))) b = Ok ()" for b
    by (simp only: sample_server_db db(5))
  then have "\<forall>b. snapshot_result (\<lambda>src n cap. (0, []))
      (store (server_db (sample_server (snd (parseCommand h ''put a 1'' db))))) b = Ok ()" by blast
  from that [OF db(1) _ _ _ _ this] db(2-5) show ?thesis by simp
qed

lemma sample_x: "replayable ''x''" "''x'' \<noteq> ''k''" "''x'' \<noteq> ''k'' @ ''_temp''"
  by (simp_all add: plain_word_def is_word_def isspace_def)

theorem use_then_shutdown_dangles_witness:
  "\<exists>db s resp srv' s1 db' s2. DB_ctor (\<lambda>_ _. 0) False ''k'' empty_fs = (Ok db, s)
    \<and> dispatcher (\<lambda>_ _. 0) (\<lambda>src n cap. (0, [])) False (join_words [''use'', ''x''])
        (sample_server (snd (parseCommand (\<lambda>_ _. 0) ''put a 1'' db))) s = (resp, srv', s1)
    \<and> run_session (\<lambda>_ _. 0) [Command ''put b 2''] (server_db srv', s1) = (db', s2)
    \<and> fst (shutdown (\<lambda>src n cap. (0, [])) db' s2) = Fault Dangling_reference"
proof -
  let ?h = "\<lambda>_ _. 0" and ?lz4 = "\<lambda>src n cap. (0, [])" and ?s = "snd (open_append (aof_path ''k'') empty_fs)"
  obtain db where db: "DB_ctor ?h False ''k'' empty_fs = (Ok db, ?s)"
    "journalled ''k'' (server_db (sample_server (snd (parseCommand ?h ''put a 1'' db)))) ?s"
    "\<forall>b. snapshot_result ?lz4 (store (server_db (sample_server (snd (parseCommand ?h ''put a 1'' db))))) b = Ok ()"
    using sample_switch [of ?h] .
  let ?srv = "sample_server (snd (parseCommand ?h ''put a 1'' db))"
  have w: "writable ?s p" for p by simp
  obtain new s1 where u: "use_keyspace ?h ?lz4 False ''x'' ?srv ?s
      = (Ok (''OK switched keyspace to '' @ ''x''), ?srv\<lparr>server_db := forget_name new\<rparr>, s1)"
    "umap_wf (store new)" "log_open ''x'' (logger new) s1" "dirty new = 0" "wf_fs s1"
    "replaying new \<longrightarrow> False"
    using use_other [OF db(2) w w sample_x(2,3) db(3) [THEN spec], of ?h False] .
  obtain resp srv' where d: "dispatcher ?h ?lz4 False (join_words [''use'', ''x'']) ?srv ?s = (resp, srv', s1)"
    "server_db srv' = forget_name new"
    unfolding use_line [OF sample_x(1)] u(1) by simp
  obtain db' s2 where r: "run_session ?h [Command ''put b 2''] (server_db srv', s1) = (db', s2)" by fastforce
  have "umap_wf (store (forget_name new))" "usable (logger (forget_name new))"
    using u(2,3) by (auto simp: forget_name_def usable_def log_open_def)
  from parseCommand_eq [OF this, of "''put b 2''" ?h] obtain st where
    st: "map_of st = effect (Put ''b'' ''2'') (kv_of new)"
      "parseCommand ?h ''put b 2'' (forget_name new) = (Ok [], after_command (Put ''b'' ''2'') st (forget_name new))"
    by (auto simp: sample_lines forget_name_def)
  then have db': "db' = after_command (Put ''b'' ''2'') st (forget_name new)" "s2 = s1"
    using r by (simp_all add: d(2))
  have "dirty db' = 1" using u(4,6) by (simp add: db' forget_name_def)
  moreover have "kv_of db' ''b'' \<noteq> None" by (simp add: db' st(1))
  ultimately have ne: "dirty db' \<noteq> 0" "store db' \<noteq> []" by auto
  from use_then_shutdown_dangles [OF db(2) w w sample_x(2,3,1) db(3) [THEN spec] d(1) r ne]
  show ?thesis using db(1) d(1) r by blast
qed

section \<open>Switching to the same keyspace\<close>

text \<open>No directory entry leads to the inode.\<close>

definition orphaned :: "nat \<Rightarrow> fs \<Rightarrow> bool" where
  "orphaned i s = (i < fresh s \<and> (\<forall>p. dirents s p \<noteq> Some i))"

lemma orphaned_open_trunc: "orphaned i s \<Longrightarrow> orphaned i (snd (open_trunc p s))"
  by (auto simp: orphaned_def open_trunc_def fs_create_def split: option.split)

lemma orphaned_append [simp]: "orphaned i (append_inode j t s) = orphaned i s"
  by (simp add: orphaned_def append_inode_def)

lemma orphaned_snapshot: "orphaned i s \<Longrightarrow> orphaned i (snd (writeBinarySnapshot lz4 st L s))"
  using orphaned_open_trunc [of i s "dbFilepath L"]
  by (auto simp: writeBinarySnapshot_def Let_def split: option.split sum.split prod.split)

text \<open>Compaction leaves the inode of the old log without a name.\<close>

lemma compaction_orphans:
  assumes "wf_fs s" and "dirents s q = Some i" and "p \<noteq> q" and "writable s p"
  shows "orphaned i (snd (fs_rename p q (write_file p t s)))"
proof -
  let ?s = "write_file p t s"
  have q: "dirents ?s q = Some i" using assms(2,3) by (simp add: dirents_write_file_other)
  have wf: "wf_fs ?s" using assms(1) by (rule wf_write_file)
  obtain j where j: "dirents ?s p = Some j"
    using read_write_file [OF assms(1), of p p t] assms(4) by (auto simp: read_file_def)
  have "i < fresh ?s" using wf_fs_fresh [OF wf q] .
  moreover have "j \<noteq> i" using wf_fs_inj [OF wf, of p i q] q j assms(3) by auto
  moreover have "r \<noteq> q \<Longrightarrow> dirents ?s r \<noteq> Some i" for r using wf_fs_inj [OF wf q, of r] by auto
  ultimately show ?thesis using assms(3) by (auto simp: fs_rename_def j orphaned_def)
qed

lemma shutdown_closed_orphans:
  assumes w: "wf_fs s" and o: "log_closed ks (logger db)" and t: "writable s (temp_path ks)"
    and i: "dirents s (aof_path ks) = Some i" and sh: "shutdown lz4 db s = (r, db', s')"
    and d: "dirty db \<noteq> 0" "store db \<noteq> []"
  shows "orphaned i s'"
proof -
  have p: "keyspaceName (logger db) = Some ks" "logFilepath (logger db) = aof_path ks"
    using o by (simp_all add: log_closed_def)
  have c: "closeLog (logger db) s = ((logger db)\<lparr>fileDescriptor := None\<rparr>, s)"
    using o by (simp add: log_closed_def closeLog_def Let_def)
  let ?L = "(logger db)\<lparr>fileDescriptor := None\<rparr>"
  let ?s2 = "snd (fs_rename (temp_path ks) (aof_path ks) (write_file (temp_path ks) (compact_text (store db)) s))"
  have "\<not> dirty db \<le> 0" using d(1) by simp
  then have "compactLog (store db) (dirty db) ?L s
      = fs_rename (temp_path ks) (aof_path ks) (write_file (temp_path ks) (compact_text (store db)) s)"
    using d(2) p by (simp add: compactLog_def Let_def)
  then obtain r2 where k: "compactLog (store db) (dirty db) ?L s = (r2, ?s2)" by (metis prod.collapse)
  have "orphaned i ?s2" using compaction_orphans [OF w i _ t] by simp
  moreover have "s' = ?s2 \<or> s' = snd (writeBinarySnapshot lz4 (store db) ?L ?s2)"
    using sh k by (cases r2) (auto simp: shutdown_def c Let_def split: prod.splits)
  ultimately show ?thesis using orphaned_snapshot by auto
qed

lemma orphaned_session:
  assumes "umap_wf (store db)" and "logfile (logger db) = Some i" and "orphaned i s"
    and "run_session h es (db, s) = (db', s')"
  shows "read_file p s' = read_file p s"
  using assms
proof (induction es arbitrary: db s)
  case (Cons e es)
  obtain db1 s1 where r: "run_event h e (db, s) = (db1, s1)" by fastforce
  then have rest: "run_session h es (db1, s1) = (db', s')" using Cons.prems(4) by simp
  have "umap_wf (store db1) \<and> logfile (logger db1) = Some i \<and> orphaned i s1 \<and> read_file p s1 = read_file p s"
  proof (cases e)
    case (Command l)
    have us: "usable (logger db)" using Cons.prems(2) by (simp add: usable_def)
    obtain st where "umap_wf st" "parseCommand h l db
        = (Ok (answer (command_of l) (kv_of db)), after_command (command_of l) st db)"
      using parseCommand_eq [OF Cons.prems(1) us] by blast
    then show ?thesis using r Cons.prems(2,3) Command by auto
  next
    case Flush
    have "read_file p (append_inode i t s) = read_file p s" for t
      using Cons.prems(3) by (simp add: orphaned_def read_append_orphan)
    with Flush show ?thesis using r Cons.prems(1-3)
      by (auto simp: flush_db_def flush_iteration_def stream_write_def split: if_splits)
  qed
  with Cons.IH rest show ?case by metis
qed simp

text \<open>C32. Switching to the keyspace in use. When its table has been changed and is not empty and its
  snapshot succeeds, the destructor of the old database renames a compacted log over the one
  the new database has just opened: no command of the session that follows reaches a file,
  flushed or not, and the log goes on saying what the table was before the switch. (Without a
  change, or with an empty table, nothing is compacted and the new log stays the one in
  the directory.)\<close>
theorem use_same_keyspace_loses_session:
  assumes "journalled ks (server_db srv) s" and "writable s (temp_path ks)" and "writable s (aof_path ks)"
    and "dirty (server_db srv) \<noteq> 0" and "store (server_db srv) \<noteq> []"
    and "snapshot_result lz4 (store (server_db srv)) (writable s (db_path ks)) = Ok ()"
    and "use_keyspace h lz4 junk ks srv s = (resp, srv', s1)"
    and "run_session h es (server_db srv', s1) = (db, s2)"
  shows "read_file p s2 = read_file p s1 \<and> recover (file_text (aof_path ks) s2) = kv_of (server_db srv)"
proof -
  let ?old = "server_db srv"
  have f: "wf_fs s" "log_open ks (logger ?old) s" "umap_wf (store ?old)" "table_replayable (store ?old)"
    using assms(1) by (simp_all add: journalled_def)
  obtain r1 db1 t1 where sh: "shutdown lz4 ?old s = (r1, db1, t1)" by (metis prod_cases3)
  note e1 = shutdown_eq [OF f(1,2) assms(2) sh]
  have r1: "r1 = Ok ()" using shutdown_result [OF f(1,2) assms(2) sh] assms(6) by simp
  have closed: "log_closed ks (logger db1)" by (rule shutdown_closes [OF f(1,2) sh])
  have text1: "file_text (aof_path ks) t1 = compact_text (store ?old)" using e1(5) assms(4,5) by simp
  let ?t2 = "snd (open_append (aof_path ks) t1)"
  have w1: "writable t1 (aof_path ks)" "writable ?t2 (temp_path ks)" using assms(2,3) by (simp_all add: e1(2))
  obtain new where new: "DB_ctor h junk ks t1 = (Ok new, ?t2)" "umap_wf (store new)" "log_open ks (logger new) ?t2"
    using DB_ctor_ok [OF e1(1) w1(1), of h junk] by auto
  obtain i where i: "logfile (logger new) = Some i" "dirents ?t2 (aof_path ks) = Some i"
    using new(3) by (auto simp: log_open_def)
  have w2: "wf_fs ?t2" using e1(1) by (rule wf_open_append)
  obtain r3 db3 t3 where sh2: "shutdown lz4 db1 ?t2 = (r3, db3, t3)" by (metis prod_cases3)
  note e3 = shutdown_again [OF w2 closed w1(2) sh2]
  have r3: "r3 = Ok ()" using e3(5) assms(6) by (simp add: e1(2,3))
  have "orphaned i t3"
    using shutdown_closed_orphans [OF w2 closed w1(2) i(2) sh2] assms(4,5) by (simp add: e1(3,4))
  have "use_keyspace h lz4 junk ks srv s
      = (Ok (''OK switched keyspace to '' @ ks), srv\<lparr>server_db := forget_name new\<rparr>, t3)"
    by (simp add: use_keyspace_def sh r1 new(1) DB_dtor_ok [OF sh2 [unfolded r3]])
  with assms(7) have eq: "server_db srv' = forget_name new" "s1 = t3" by auto
  have frame: "read_file p s2 = read_file p s1" for p
    using orphaned_session [OF _ _ \<open>orphaned i t3\<close>, of "forget_name new" h es db s2 p] assms(8) new(2) i(1)
    by (simp add: eq forget_name_def)
  have "file_text (aof_path ks) t3 = compact_text (store ?old)"
    using e3(3) assms(4,5) by (simp add: e1(3,4))
  then have "recover (file_text (aof_path ks) s2) = kv_of ?old"
    using frame recover_compact [OF f(3,4)] by (simp add: file_text_def eq)
  with frame show ?thesis by blast
qed

theorem use_same_keyspace_loses_session_witness:
  "\<exists>db s resp srv' s1 db' s2. DB_ctor (\<lambda>_ _. 0) False ''k'' empty_fs = (Ok db, s)
    \<and> use_keyspace (\<lambda>_ _. 0) (\<lambda>src n cap. (0, [])) False ''k''
        (sample_server (snd (parseCommand (\<lambda>_ _. 0) ''put a 1'' db))) s = (resp, srv', s1)
    \<and> run_session (\<lambda>_ _. 0) [Command ''put b 2'', Flush] (server_db srv', s1) = (db', s2)
    \<and> recover (file_text (aof_path ''k'') s2) = [''a'' \<mapsto> ''1'']"
proof -
  let ?h = "\<lambda>_ _. 0" and ?lz4 = "\<lambda>src n cap. (0, [])" and ?s = "snd (open_append (aof_path ''k'') empty_fs)"
  obtain db where db: "DB_ctor ?h False ''k'' empty_fs = (Ok db, ?s)"
    "journalled ''k'' (server_db (sample_server (snd (parseCommand ?h ''put a 1'' db)))) ?s"
    "kv_of (server_db (sample_server (snd (parseCommand ?h ''put a 1'' db)))) = [''a'' \<mapsto> ''1'']"
    "dirty (server_db (sample_server (snd (parseCommand ?h ''put a 1'' db)))) \<noteq> 0"
    "store (server_db (sample_server (snd (parseCommand ?h ''put a 1'' db)))) \<noteq> []"
    "\<forall>b. snapshot_result ?lz4 (store (server_db (sample_server (snd (parseCommand ?h ''put a 1'' db))))) b = Ok ()"
    using sample_switch [of ?h] .
  have w: "writable ?s p" for p by simp
  obtain resp srv' s1 where u: "use_keyspace ?h ?lz4 False ''k'' (sample_server (snd (parseCommand ?h ''put a 1'' db))) ?s
      = (resp, srv', s1)"
    by (metis prod_cases3)
  obtain db' s2 where r: "run_session ?h [Command ''put b 2'', Flush] (server_db srv', s1) = (db', s2)" by fastforce
  from use_same_keyspace_loses_session [OF db(2) w w db(4,5) db(6) [THEN spec] u r] db(3)
  have "recover (file_text (aof_path ''k'') s2) = [''a'' \<mapsto> ''1'']" by simp
  with db(1) u r show ?thesis by blast
qed

section \<open>The end of a server\<close>

lemma Server_dtor_text:
  assumes j: "journalled ks (server_db srv) s" and t: "writable s (temp_path ks)"
    and d: "Server_dtor lz4 srv s = (r, s')"
  shows "recover (file_text (aof_path ks) s') = kv_of (server_db srv)"
    and "wf_fs s'" and "writable s' = writable s" and "written (file_text (aof_path ks) s')"
    and "q \<notin> {aof_path ks, temp_path ks, db_path ks} \<Longrightarrow> read_file q s' = read_file q s"
    and "file_text (aof_path ks) s \<noteq> [] \<Longrightarrow> file_text (aof_path ks) s' \<noteq> []"
proof -
  let ?db = "server_db srv"
  have f: "wf_fs s" "log_open ks (logger ?db) s" using j by (simp_all add: journalled_def)
  obtain r1 db1 s1 where sh: "shutdown lz4 ?db s = (r1, db1, s1)" by (metis prod_cases3)
  note e = shutdown_eq [OF f t sh] and rec = shutdown_recover [OF j t sh]
  have t1: "writable s1 (temp_path ks)" using t by (simp add: e(2))
  obtain r2 db2 s2 where sh2: "shutdown lz4 db1 s1 = (r2, db2, s2)" by (metis prod_cases3)
  note e2 = shutdown_again [OF e(1) shutdown_closes [OF f sh] t1 sh2]
  have same: "file_text (aof_path ks) s2 = file_text (aof_path ks) s1" by (simp add: e2(3) e(3,4,5))
  have s': "s' = s1 \<or> s' = s2"
    using d DB_dtor_eq [OF sh2] by (auto simp: Server_dtor_def sh split: sum.splits error.splits)
  then show "recover (file_text (aof_path ks) s') = kv_of ?db" "written (file_text (aof_path ks) s')"
    using same rec by auto
  show "file_text (aof_path ks) s' \<noteq> []" if "file_text (aof_path ks) s \<noteq> []"
    using shutdown_nonempty [OF f t sh that] same s' by auto
  show "wf_fs s'" "writable s' = writable s" using s' e(1,2) e2(1,2) by auto
  show "read_file q s' = read_file q s" if "q \<notin> {aof_path ks, temp_path ks, db_path ks}"
    using s' e(6) [OF that] e2(4) [OF that] by auto
qed

end
