(* ===== verification/Client.thy ===== *)
theory Client
  imports Config Framing
begin

text \<open>
  The class \<^verbatim>\<open>Client\<close> of \<^verbatim>\<open>include/taproot/client.h\<close> and \<^verbatim>\<open>src/client.cpp\<close>: the attempts to
  connect and \<^verbatim>\<open>send\<close>. Parameters: what is an address, the error message of each attempt to
  connect (\<open>None\<close> when it succeeds), whether the write succeeds, and the segments that arrive.
\<close>

section \<open>Operations\<close>

definition maxRetries :: nat where "maxRetries = 5"

text \<open>The object: \<^verbatim>\<open>socket\<close> is open once it is connected.\<close>

record Client =
  client_host :: string
  client_port :: u16
  socket_open :: bool

text \<open>The loop over the attempts: the error code after it.\<close>

fun connect_loop :: "(nat \<Rightarrow> string option) \<Rightarrow> nat \<Rightarrow> nat \<Rightarrow> string option \<Rightarrow> string option" where
  "connect_loop connect i 0 err = err"
| "connect_loop connect i (Suc n) err =
     (let err = connect i in if err = None then err else connect_loop connect (i + 1) n err)"

definition address_text :: "Config \<Rightarrow> string" where
  "address_text cfg =
     [CHR 0x27] @ host cfg @ '':'' @ show_nat (unat (port cfg)) @ [CHR 0x27]"

definition Client_ctor :: "(string \<Rightarrow> bool) \<Rightarrow> (nat \<Rightarrow> string option) \<Rightarrow> Config \<Rightarrow> Client outcome" where
  "Client_ctor is_address connect cfg =
     (if \<not> is_address (host cfg) then Throw (''Invalid address '' @ address_text cfg)
      else case connect_loop connect 0 maxRetries None of
             None \<Rightarrow> Ok \<lparr>client_host = host cfg, client_port = port cfg, socket_open = True\<rparr>
           | Some e \<Rightarrow> Throw (''Failed to connect to address '' @ address_text cfg @ ''. '' @ e))"

definition Client_dtor :: "Client \<Rightarrow> Client" where
  "Client_dtor c = c\<lparr>socket_open := False\<rparr>"

text \<open>The loop of \<^verbatim>\<open>send\<close>: a chunk is all the buffer holds.\<close>

function receive_loop :: "string list \<Rightarrow> string \<Rightarrow> (string \<times> string list) option" where
  "receive_loop segs responseStream =
     (case read_until END_DELIM segs [] of
        None \<Rightarrow> None
      | Some (chunk, segs) \<Rightarrow>
          (let responseStream = responseStream @ chunk
           in if find_sub END_DELIM chunk \<noteq> None then Some (responseStream, segs)
              else receive_loop segs responseStream))"
  by pat_completeness auto
termination
  by (relation "measure (\<lambda>(segs, _). length segs)")
    (auto dest!: read_until_shorter [rotated] simp: END_DELIM_def)

declare receive_loop.simps [simp del]

definition send :: "bool \<Rightarrow> string \<Rightarrow> string list \<Rightarrow> string \<times> string list" where
  "send write_ok data segs =
     (if \<not> write_ok then ([], segs)
      else case receive_loop segs [] of
             None \<Rightarrow> ([], [])
           | Some (response, segs) \<Rightarrow>
               (case find_sub END_DELIM response of
                  None \<Rightarrow> ([], segs)
                | Some n \<Rightarrow> (take n response, segs)))"

text \<open>What the client writes for a command.\<close>

definition sent_line :: "string \<Rightarrow> string" where "sent_line data = data @ [NL]"

section \<open>Connecting\<close>

lemma connect_loop_None:
  "connect_loop connect i (Suc n) err = None \<longleftrightarrow> (\<exists>j \<le> n. connect (i + j) = None)"
proof (induction n arbitrary: i err)
  case (Suc n)
  have "(\<exists>j \<le> Suc n. connect (i + j) = None) \<longleftrightarrow>
      connect i = None \<or> (\<exists>j \<le> n. connect (i + 1 + j) = None)"
  proof
    assume "\<exists>j \<le> Suc n. connect (i + j) = None"
    then obtain j where j: "j \<le> Suc n" "connect (i + j) = None" by blast
    then show "connect i = None \<or> (\<exists>j \<le> n. connect (i + 1 + j) = None)"
      by (cases j) auto
  next
    assume "connect i = None \<or> (\<exists>j \<le> n. connect (i + 1 + j) = None)"
    then show "\<exists>j \<le> Suc n. connect (i + j) = None"
      by (metis add.right_neutral add_Suc_right add_Suc Suc_eq_plus1 Suc_le_mono zero_le)
  qed
  then show ?case using Suc.IH [of "i + 1" "connect i"] by (cases "connect i") (auto simp: Let_def)
qed (simp add: Let_def)

text \<open>The constructor succeeds exactly if the host is an address and one of the first five
  attempts succeeds; a later one is never made. The object then has the address of the
  configuration and an open socket, which the destructor closes; otherwise the exception
  names the address.\<close>
lemma Client_ctor_correct:
  "(case Client_ctor is_address connect cfg of
      Inr c \<Rightarrow> is_address (host cfg) \<and> (\<exists>i < 5. connect i = None)
        \<and> c = \<lparr>client_host = host cfg, client_port = port cfg, socket_open = True\<rparr>
        \<and> Client_dtor c = c\<lparr>socket_open := False\<rparr>
    | Inl e \<Rightarrow> \<not> (is_address (host cfg) \<and> (\<exists>i < 5. connect i = None))
        \<and> (\<exists>u v. e = Exception (u @ address_text cfg @ v)))"
proof -
  have five: "connect_loop connect 0 maxRetries None = None \<longleftrightarrow> (\<exists>i < 5. connect i = None)"
    using connect_loop_None [of connect 0 4 None]
    by (simp add: maxRetries_def numeral_eq_Suc less_Suc_eq_le del: connect_loop.simps)
  have msg: "\<exists>u v. Exception (p @ address_text cfg @ q) = Exception (u @ address_text cfg @ v)" for p q
    by blast
  show ?thesis
    unfolding five [symmetric] using msg [of _ "[]"] msg
    by (simp add: Client_ctor_def Client_dtor_def del: append.simps split: option.split)
qed

section \<open>Receiving\<close>

lemma receive_loop_first:
  "receive_loop segs r = map_option (\<lambda>(chunk, segs). (r @ chunk, segs)) (read_until END_DELIM segs [])"
  by (subst receive_loop.simps) (auto dest: read_until_found split: option.split)

lemma send_message:
  assumes "\<not> sublist END_DELIM r" and "concat segs = r @ END_DELIM @ rest"
  shows "\<exists>segs'. send True data segs = (r, segs') \<and> suffix (concat segs') rest"
proof -
  obtain buf segs' where b: "read_until END_DELIM segs [] = Some (buf, segs')"
    "find_sub END_DELIM buf = Some (length r)" "take (length r) buf = r"
    "buf @ concat segs' = r @ END_DELIM @ rest"
    using end_of_response.read_message [OF assms(1), of "[]" segs rest] assms(2) by auto
  have "prefix END_DELIM (drop (length r) buf)" using find_sub_Some [OF b(2)] by simp
  then obtain x where "drop (length r) buf = END_DELIM @ x" by (auto simp: prefix_def)
  with b(3) have "buf = r @ END_DELIM @ x" by (metis append_take_drop_id)
  with b(4) have "x @ concat segs' = rest" by simp
  moreover have "send True data segs = (r, segs')"
    by (simp add: send_def receive_loop_first b(1,2,3))
  ultimately show ?thesis by (auto simp: suffix_def)
qed

text \<open>However the response is cut into segments, \<^verbatim>\<open>send\<close> returns it, without the end mark and
  without any byte left over, if it does not contain the end mark itself.\<close>

lemma send_returns_response:
  assumes "\<not> sublist END_DELIM r" and "concat segs = r @ END_DELIM"
  shows "fst (send True data segs) = r \<and> concat (snd (send True data segs)) = []"
  using send_message [of r segs "[]" data] assms by auto

text \<open>A value that ends in \<open>END\<close>, on its line of the response, looks like the end mark: the
  client gets the value without these letters.\<close>
lemma send_truncates_value:
  assumes "\<not> sublist END_DELIM v" and "concat segs = printVector [v @ ''END''] @ END_DELIM"
  shows "fst (send True data segs) = v"
proof -
  have "concat segs = v @ END_DELIM @ END_DELIM"
    using assms(2) by (simp add: printVector_def END_DELIM_def)
  from send_message [OF assms(1) this, of data] show ?thesis by auto
qed

end
