(* ===== verification/Requests.thy ===== *)
theory Requests
  imports Serving Client
begin

text \<open>
  One connection, from both ends: the lines the server reads from the segments that arrive, what
  no sequence of lines can do to it, and the conversation with the class \<^verbatim>\<open>Client\<close>, which
  waits for the response before it sends the next command.
\<close>

section \<open>The lines that are read\<close>

function received :: "string list \<Rightarrow> string list" where
  "received segs =
     (case server_read segs of None \<Rightarrow> [] | Some (l, segs) \<Rightarrow> l # received segs)"
  by pat_completeness auto
termination
  by (relation "measure length") (auto dest: server_read_shorter)

declare received.simps [simp del]

text \<open>What the client sends for a line, cut into segments, none of which is empty.\<close>

definition cut_line :: "string \<Rightarrow> string list \<Rightarrow> bool" where
  "cut_line l segs = (concat segs = sent_line l \<and> [] \<notin> set segs)"

lemma read_until_cut:
  assumes "NL \<notin> set l" and "buf @ concat segs = l @ [NL]" and "[] \<notin> set segs"
  shows "read_until [NL] (segs @ later) buf = Some (l @ [NL], later)"
  using assms(2,3)
proof (induction segs arbitrary: buf)
  case Nil
  have "find_sub [NL] (l @ [NL]) \<noteq> None" by (simp add: find_sub_None_iff sublist_single)
  then obtain n where "find_sub [NL] (l @ [NL]) = Some n" by blast
  with Nil show ?case by (cases later) simp_all
next
  case (Cons seg segs)
  then have "seg \<noteq> []" by auto
  have "NL \<notin> set buf"
  proof
    assume "NL \<in> set buf"
    then obtain u v where "buf = u @ NL # v" by (meson split_list)
    with Cons.prems(1) have "(u @ [NL]) @ v @ seg @ concat segs = l @ [NL]" by simp
    with assms(1) \<open>seg \<noteq> []\<close> show False by (auto simp: append_eq_append_conv2 Cons_eq_append_conv append_eq_Cons_conv)
  qed
  then have "find_sub [NL] buf = None" by (simp add: find_sub_None_iff sublist_single)
  with Cons show ?case by simp
qed

lemma server_read_cut: "NL \<notin> set l \<Longrightarrow> cut_line l segs \<Longrightarrow> server_read (segs @ later) = Some (l, later)"
  using read_until_cut [of l "[]" segs later] by (simp add: cut_line_def sent_line_def server_read_def getline_def)

lemma received_cut:
  "list_all2 (\<lambda>l segs. NL \<notin> set l \<and> cut_line l segs) ls segss \<Longrightarrow> received (concat segss) = ls"
proof (induction ls segss rule: list_all2_induct)
  case Nil
  then show ?case by (subst received.simps) (simp add: server_read_def)
next
  case (Cons l ls segs segss)
  then have "server_read (segs @ concat segss) = Some (l, concat segss)" by (simp add: server_read_cut)
  with Cons show ?case by (subst received.simps) simp
qed

text \<open>The client is served as the lines say: the loop, as a fold over them.\<close>

fun serve_lines ::
  "layout \<Rightarrow> lz4 \<Rightarrow> bool \<Rightarrow> string list \<Rightarrow> Server \<Rightarrow> fs
     \<Rightarrow> (string list \<times> unit outcome) \<times> Server \<times> fs" where
  "serve_lines h lz4 junk [] srv s = (([], Ok ()), srv, s)"
| "serve_lines h lz4 junk (incoming # ls) srv s =
     (case dispatcher h lz4 junk incoming srv s of
        (Inl (Exception _), srv, s) \<Rightarrow> (([], Ok ()), srv, s)
      | (Inl (Undefined f), srv, s) \<Rightarrow> (([], Fault f), srv, s)
      | (Inr response, srv, s) \<Rightarrow>
          (let ((sent, r), srv, s) = serve_lines h lz4 junk ls srv s
           in (((response @ END_DELIM) # sent, r), srv, s)))"

lemma handleClient_lines: "handleClient h lz4 junk segs srv s = serve_lines h lz4 junk (received segs) srv s"
proof (induction segs arbitrary: srv s rule: received.induct)
  case (1 segs)
  show ?case
  proof (cases "server_read segs")
    case None
    then show ?thesis by (subst handleClient.simps, subst received.simps) simp
  next
    case (Some a)
    obtain l segs' where a: "a = (l, segs')" by fastforce
    have IH: "handleClient h lz4 junk segs' srv s = serve_lines h lz4 junk (received segs') srv s" for srv s
      using "1.IH" [OF Some, of l segs'] a by simp
    show ?thesis
      by (subst handleClient.simps, subst received.simps)
        (simp add: Some a IH split: prod.split sum.split error.split)
  qed
qed

lemma handleClient_cut:
  assumes "list_all2 (\<lambda>l segs. NL \<notin> set l \<and> cut_line l segs) ls segss"
  shows "handleClient h lz4 junk (concat segss) srv s = handleClient h lz4 junk (map (\<lambda>l. l @ [NL]) ls) srv s"
proof -
  have "list_all2 (\<lambda>l segs. NL \<notin> set l \<and> cut_line l segs) ls (map (\<lambda>l. [l @ [NL]]) ls)"
    using assms by (auto simp: list_all2_conv_all_nth cut_line_def sent_line_def)
  then have "received (concat (map (\<lambda>l. [l @ [NL]]) ls)) = ls" by (rule received_cut)
  moreover have "concat (map (\<lambda>l. [l @ [NL]]) ls) = map (\<lambda>l. l @ [NL]) ls" by (induction ls) simp_all
  ultimately have "received (map (\<lambda>l. l @ [NL]) ls) = ls" by simp
  then show ?thesis by (simp add: handleClient_lines received_cut [OF assms])
qed

section \<open>The conversation\<close>

lemma length_answers [simp]: "length (answers cs m) = length cs"
  by (induction cs arbitrary: m) simp_all

text \<open>C3. Client and server together. A client sends commands on the data (\<open>db_line\<close>) one after the other,
  each cut into segments anywhere; the response to each arrives cut anywhere too. Then \<^verbatim>\<open>send\<close>
  returns for each command the values the specification answers, one on a line, unless they
  contain the end mark; the connection ends without an error, the table has gone through all
  the commands and no file is touched.\<close>
theorem conversation:
  assumes "running_db ks (server_db srv) s"
    and "list_all2 (\<lambda>l segs. db_line l \<and> NL \<notin> set l \<and> cut_line l segs) ls segss"
    and "handleClient h lz4 junk (concat segss) srv s = ((sent, r), srv', s')"
  shows "r = Ok () \<and> length sent = length ls \<and> s' = s
    \<and> kv_of (server_db srv') = fold effect (map command_of ls) (kv_of (server_db srv))
    \<and> (\<forall>i < length ls. \<forall>resp. let vs = answers (map command_of ls) (kv_of (server_db srv)) ! i in
        concat resp = sent ! i \<longrightarrow> \<not> sublist END_DELIM (printVector vs)
        \<longrightarrow> fst (send True (ls ! i) resp) = printVector vs)"
proof -
  let ?as = "answers (map command_of ls) (kv_of (server_db srv))"
  obtain db' s1 where run: "run_session h (map Command ls) (server_db srv, s) = (db', s1)" by fastforce
  have ls: "list_all (\<lambda>l. db_line l \<and> NL \<notin> set l) ls"
    "list_all2 (\<lambda>l segs. NL \<notin> set l \<and> cut_line l segs) ls segss"
    using assms(2) by (auto simp: list_all2_conv_all_nth list_all_length)
  from handleClient_commands [OF assms(1) ls(1) run, of lz4 junk] assms(3) handleClient_cut [OF ls(2)]
  have e: "sent = map (\<lambda>vs. printVector vs @ END_DELIM) ?as" "r = Ok ()"
    "srv' = srv\<lparr>server_db := db'\<rparr>" "s' = s"
    by simp_all
  have "fst (send True (ls ! i) resp) = printVector (?as ! i)"
    if "i < length ls" "concat resp = sent ! i" "\<not> sublist END_DELIM (printVector (?as ! i))" for i resp
    using send_message [OF that(3), of resp "[]" "ls ! i"] that(1,2) by (auto simp: e(1))
  moreover have "kv_of db' = fold effect (map command_of ls) (kv_of (server_db srv))"
    using run_commands_eq [OF assms(1) run] by simp
  ultimately show ?thesis by (simp add: e Let_def)
qed

theorem conversation_witness:
  "\<exists>db s sent srv' s'. DB_ctor (\<lambda>_ _. 0) False ''k'' empty_fs = (Ok db, s)
    \<and> handleClient (\<lambda>_ _. 0) (\<lambda>src n cap. (0, [])) False [''put '', ''a 1'' @ [NL], ''ge'', ''t a'', [NL]]
        (sample_server db) s = ((sent, Ok ()), srv', s')
    \<and> kv_of (server_db srv') = [''a'' \<mapsto> ''1''] \<and> fst (send True ''get a'' [sent ! 1]) = ''1'' @ [NL]"
proof -
  let ?h = "\<lambda>_ _. 0" and ?lz4 = "\<lambda>src n cap. (0, [])" and ?s = "snd (open_append (aof_path ''k'') empty_fs)"
  let ?ls = "[''put a 1'', ''get a'']" and ?segss = "[[''put '', ''a 1'' @ [NL]], [''ge'', ''t a'', [NL]]]"
  obtain db where db: "DB_ctor ?h False ''k'' empty_fs = (Ok db, ?s)" "journalled ''k'' db ?s"
    "kv_of db = Map.empty"
    using first_session .
  have run: "running_db ''k'' (server_db (sample_server db)) ?s"
    using db(2) by (simp add: journalled_def running_db_def)
  have ls: "list_all2 (\<lambda>l segs. db_line l \<and> NL \<notin> set l \<and> cut_line l segs) ?ls ?segss"
    by (simp add: db_line_samples cut_line_def sent_line_def)
  obtain sent r srv' s' where hc: "handleClient ?h ?lz4 False (concat ?segss) (sample_server db) ?s = ((sent, r), srv', s')"
    by (metis prod.exhaust)
  have g: "command_of ''get a'' = Get ''a''" by code_simp
  have as: "answers (map command_of ?ls) Map.empty = [[], [''1'']]" by (simp add: sample_lines g)
  have e: "\<not> sublist END_DELIM (printVector [''1''])"
    by (simp add: END_DELIM_def printVector_def sublist_Cons_right)
  note c = conversation [OF run ls hc, unfolded sample_server_db db(3) as Let_def]
  note sends = c [THEN conjunct2, THEN conjunct2, THEN conjunct2, THEN conjunct2]
  from sends [rule_format, of 1 "[sent ! 1]"] e
  have "fst (send True ''get a'' [sent ! 1]) = ''1'' @ [NL]" by (simp add: printVector_def)
  moreover have "r = Ok ()" "kv_of (server_db srv') = [''a'' \<mapsto> ''1'']"
    using c [THEN conjunct1] c [THEN conjunct2, THEN conjunct2, THEN conjunct2, THEN conjunct1]
    by (simp_all add: sample_lines g)
  moreover have "handleClient ?h ?lz4 False [''put '', ''a 1'' @ [NL], ''ge'', ''t a'', [NL]] (sample_server db) ?s
      = ((sent, r), srv', s')"
    using hc by simp
  ultimately show ?thesis using db(1) by blast
qed

section \<open>No sequence of lines breaks the server\<close>

text \<open>The logger still refers to the name of its keyspace: true until the first \<^verbatim>\<open>use\<close>.\<close>

definition sound_db :: "DB \<Rightarrow> bool" where
  "sound_db db = (umap_wf (store db) \<and> keyspaceName (logger db) \<noteq> None)"

definition use_request :: "string \<Rightarrow> bool" where
  "use_request input = (tokenize input ! 0 = ''use'' \<and> length (tokenize input) = 2)"

lemma fault_rename [simp]: "fst (fs_rename p q s) \<noteq> Fault f"
  by (simp add: fs_rename_def split: option.split)

lemma fault_snapshot: "fst (writeBinarySnapshot lz4 st L s) \<noteq> Fault f"
  by (auto simp: fst_snapshot snapshot_result_def snapshot_bytes_def compress_def Let_def
      split: sum.split prod.split)

lemma shutdown_sound:
  assumes "sound_db db" and "shutdown lz4 db s = (r, db', s')"
  shows "r \<noteq> Fault f" and "sound_db db'"
proof -
  obtain L s1 where c: "closeLog (logger db) s = (L, s1)" by fastforce
  have k: "keyspaceName L = keyspaceName (logger db)"
    using c by (auto simp: closeLog_def Let_def split: prod.splits if_splits)
  have db': "db' = db\<lparr>logger := L\<rparr>" using shutdown_db [OF assms(2)] c by simp
  show "sound_db db'" using assms(1) by (simp add: db' sound_db_def k)
  obtain r2 s2 where cp: "compactLog (store db) (dirty db) L s1 = (r2, s2)" by fastforce
  have "r2 \<noteq> Fault f" using cp assms(1) fault_rename
    by (auto simp: compactLog_def Let_def sound_db_def k split: if_splits simp flip: prod.collapse dest!: arg_cong [where f = fst])
  moreover have "r \<in> {r2, fst (writeBinarySnapshot lz4 (store db) L s2)}"
    using assms(2) c cp by (cases r2) (auto simp: shutdown_def Let_def split: prod.splits)
  ultimately show "r \<noteq> Fault f" using fault_snapshot by (metis insertE singletonD)
qed

lemma command_sound:
  assumes "sound_db db"
  shows "\<exists>res. fst (parseCommand h l db) = Ok res" and "sound_db (snd (parseCommand h l db))"
proof -
  have "umap_wf (store db)" "usable (logger db)" using assms by (auto simp: sound_db_def usable_def)
  from parseCommand_eq [OF this] obtain st where st: "umap_wf st"
    "parseCommand h l db = (Ok (answer (command_of l) (kv_of db)), after_command (command_of l) st db)"
    by blast
  show "\<exists>res. fst (parseCommand h l db) = Ok res" by (simp add: st(2))
  show "sound_db (snd (parseCommand h l db))"
    using assms by (simp add: st sound_db_def add_entries_def)
qed

lemma dispatcher_sound:
  assumes "sound_db (server_db srv)" and "\<not> isAllSpace l" and "\<not> use_request l"
    and "dispatcher h lz4 junk l srv s = (r, srv', s')"
  shows "r \<noteq> Fault f" and "sound_db (server_db srv')"
proof -
  have t: "tokenize l \<noteq> []"
    using assms(2) by (simp add: tokenize_empty_iff)
  obtain res where p: "fst (parseCommand h l (server_db srv)) = Ok res" "sound_db (snd (parseCommand h l (server_db srv)))"
    using command_sound [OF assms(1)] by blast
  obtain rs db2 s2 where sh: "shutdown lz4 (server_db srv) s = (rs, db2, s2)" by (metis prod_cases3)
  note ss = shutdown_sound [OF assms(1) sh]
  have cl: "sound_db (fst (clearData (server_db srv) s))"
    using assms(1) by (simp add: clearData_def Let_def sound_db_def umap_wf_def)
  have u: "\<not> (tokenize l ! 0 = ''use'' \<and> length (tokenize l) = 2)" using assms(3) by (simp add: use_request_def)
  define P where "P = (\<lambda>(r :: string outcome, srv :: Server, s :: fs). r \<noteq> Fault f \<and> sound_db (server_db srv))"
  have either: "P x \<Longrightarrow> P y \<Longrightarrow> P (if b then x else y)" for x y b by simp
  have "P (dispatcher h lz4 junk l srv s)"
    unfolding dispatcher_def Let_def if_not_P [OF t] if_not_P [OF u]
    using assms(1) p ss cl by (intro either) (auto simp: P_def sh split: prod.split sum.split)
  then have "r \<noteq> Fault f \<and> sound_db (server_db srv')" by (simp add: P_def assms(4))
  then show "r \<noteq> Fault f" "sound_db (server_db srv')" by simp_all
qed

text \<open>C9. Soundness of the server. Whatever bytes arrive in whatever segments, as long as no line the
  server reads from them is blank or a \<^verbatim>\<open>use\<close>, serving the client meets no undefined
  behaviour, also with invalid commands, after a \<^verbatim>\<open>quit\<close> and when a snapshot fails, and leaves
  a sound database for the next client.\<close>
theorem handleClient_sound:
  assumes "sound_db (server_db srv)" and "\<forall>l \<in> set (received segs). \<not> isAllSpace l \<and> \<not> use_request l"
    and "handleClient h lz4 junk segs srv s = ((sent, r), srv', s')"
  shows "r = Ok () \<and> length sent \<le> length (received segs) \<and> sound_db (server_db srv')"
proof -
  have "\<forall>l \<in> set ls. \<not> isAllSpace l \<and> \<not> use_request l \<Longrightarrow> sound_db (server_db srv)
    \<Longrightarrow> serve_lines h lz4 junk ls srv s = ((sent, r), srv', s')
    \<Longrightarrow> r = Ok () \<and> length sent \<le> length ls \<and> sound_db (server_db srv')" for ls
  proof (induction ls arbitrary: srv s sent r srv' s')
    case (Cons l ls)
    obtain d srv1 s1 where d: "dispatcher h lz4 junk l srv s = (d, srv1, s1)" by (metis prod_cases3)
    obtain sent1 r1 srv2 s2 where sl: "serve_lines h lz4 junk ls srv1 s1 = ((sent1, r1), srv2, s2)"
      by (metis prod.exhaust)
    have l: "\<not> isAllSpace l" "\<not> use_request l" using Cons.prems(1) by simp_all
    note ds = dispatcher_sound [OF Cons.prems(2) l d]
    have ls: "\<forall>l \<in> set ls. \<not> isAllSpace l \<and> \<not> use_request l" using Cons.prems(1) by simp
    from Cons.IH [OF ls ds(2) sl] Cons.prems(3) ds show ?case
      by (auto simp: d sl split: sum.splits error.splits)
  qed simp
  then show ?thesis using assms by (simp add: handleClient_lines)
qed

theorem handleClient_sound_witness:
  "\<exists>sent srv' s'. handleClient (\<lambda>_ _. 0) (\<lambda>src n cap. (0, [])) False [''put a 1'' @ [NL], ''qu'', ''it'' @ [NL], ''bad'' @ [NL]]
      (sample_server sample_db) empty_fs = ((sent, Ok ()), srv', s')
    \<and> length sent \<le> 3 \<and> sound_db (server_db srv')"
proof -
  let ?segss = "[[''put a 1'' @ [NL]], [''qu'', ''it'' @ [NL]], [''bad'' @ [NL]]]" and ?ls = "[''put a 1'', ''quit'', ''bad'']"
  have "tokenize ''put a 1'' = [''put'', ''a'', ''1'']" "tokenize ''quit'' = [''quit'']" "tokenize ''bad'' = [''bad'']"
    by code_simp+
  then have lines: "\<forall>l \<in> set ?ls. \<not> isAllSpace l \<and> \<not> use_request l"
    by (auto simp: use_request_def isspace_def)
  have "list_all2 (\<lambda>l segs. NL \<notin> set l \<and> cut_line l segs) ?ls ?segss"
    by (simp add: cut_line_def sent_line_def)
  then have rc: "received (concat ?segss) = ?ls" by (rule received_cut)
  have sd: "sound_db (server_db (sample_server sample_db))"
    by (simp add: sound_db_def sample_db_def umap_wf_def)
  obtain sent r srv' s' where hc: "handleClient (\<lambda>_ _. 0) (\<lambda>src n cap. (0, [])) False (concat ?segss)
      (sample_server sample_db) empty_fs = ((sent, r), srv', s')"
    by (metis prod.exhaust)
  have "r = Ok () \<and> length sent \<le> length ?ls \<and> sound_db (server_db srv')"
    by (rule handleClient_sound [OF sd _ hc, unfolded rc, OF lines])
  with hc show ?thesis by simp
qed

end
