(* ===== verification/Interleaving.thy ===== *)
theory Interleaving
  imports Switching Requests
begin

text \<open>
  Several clients at once. Each client has a thread of its own in \<^verbatim>\<open>Server::handleClient\<close>; here the
  threads take turns, and in a turn a thread reads one line and answers it, or the flush
  thread writes what is in the buffer. The code has no lock around a command, so this is
  the concurrency it has if commands do not overlap; a turn of one client alone is one
  iteration of its loop.
\<close>

section \<open>Commands on the data that the log can give back\<close>

definition data_line :: "string \<Rightarrow> bool" where
  "data_line l = (db_line l \<and> loggable (command_of l))"

definition responses :: "string list \<Rightarrow> kv \<Rightarrow> string list" where
  "responses ls m = map (\<lambda>vs. printVector vs @ END_DELIM) (answers (map command_of ls) m)"

lemma answers_append: "answers (cs @ ds) m = answers cs m @ answers ds (fold effect cs m)"
  by (induction cs arbitrary: m) simp_all

lemma responses_append:
  "responses (ls @ ks) m = responses ls m @ responses ks (fold effect (map command_of ls) m)"
  by (simp add: responses_def answers_append)

lemma responses_Nil [simp]: "responses [] m = []"
  by (simp add: responses_def)

lemma data_lines_served:
  assumes "journalled ks (server_db srv) s" and "list_all data_line ls"
  shows "\<exists>db. serve_lines h lz4 junk ls srv s = ((responses ls (kv_of (server_db srv)), Ok ()), srv\<lparr>server_db := db\<rparr>, s)
    \<and> journalled ks db s \<and> kv_of db = fold effect (map command_of ls) (kv_of (server_db srv))"
  using assms
proof (induction ls arbitrary: srv)
  case Nil
  then show ?case by (intro exI [of _ "server_db srv"]) simp
next
  case (Cons l ls)
  let ?db = "snd (parseCommand h l (server_db srv))"
  have l: "db_line l" "loggable (command_of l)" "list_all data_line ls"
    using Cons.prems(2) by (simp_all add: data_line_def [of l])
  note jc = journalled_command [OF Cons.prems(1) l(2), of h]
  have "running_db ks (server_db srv) s"
    using Cons.prems(1) by (simp add: journalled_def running_db_def)
  note d = dispatcher_db_line [OF l(1) this, of h lz4 junk]
  obtain db where "serve_lines h lz4 junk ls (srv\<lparr>server_db := ?db\<rparr>) s
      = ((responses ls (kv_of ?db), Ok ()), srv\<lparr>server_db := db\<rparr>, s)"
    "journalled ks db s" "kv_of db = fold effect (map command_of ls) (kv_of ?db)"
    using Cons.IH [of "srv\<lparr>server_db := ?db\<rparr>"] jc(1) l(3) by auto
  then show ?case by (intro exI [of _ db]) (simp add: d jc(2) responses_def)
qed

section \<open>Turns\<close>

datatype turn = Turn nat | Flush_turn

text \<open>The segments that each client still sends, and the responses with the clients they go to.
  An exception of the dispatcher ends the thread of the client.\<close>

fun interleave ::
  "layout \<Rightarrow> lz4 \<Rightarrow> bool \<Rightarrow> turn list \<Rightarrow> (nat \<Rightarrow> string list) \<Rightarrow> Server \<Rightarrow> fs
     \<Rightarrow> ((nat \<times> string) list \<times> unit outcome) \<times> Server \<times> fs" where
  "interleave h lz4 junk [] ins srv s = (([], Ok ()), srv, s)"
| "interleave h lz4 junk (Flush_turn # ts) ins srv s =
     (let (db, s) = flush_db (server_db srv, s) in interleave h lz4 junk ts ins (srv\<lparr>server_db := db\<rparr>) s)"
| "interleave h lz4 junk (Turn c # ts) ins srv s =
     (case server_read (ins c) of
        None \<Rightarrow> interleave h lz4 junk ts (ins(c := [])) srv s
      | Some (incoming, segs) \<Rightarrow>
          (case dispatcher h lz4 junk incoming srv s of
             (Inl (Exception _), srv, s) \<Rightarrow> interleave h lz4 junk ts (ins(c := [])) srv s
           | (Inl (Undefined f), srv, s) \<Rightarrow> (([], Fault f), srv, s)
           | (Inr response, srv, s) \<Rightarrow>
               (let ((out, r), srv, s) = interleave h lz4 junk ts (ins(c := segs)) srv s
                in (((c, response @ END_DELIM) # out, r), srv, s))))"

text \<open>The lines in the order in which they are read.\<close>

fun taken :: "turn list \<Rightarrow> (nat \<Rightarrow> string list) \<Rightarrow> (nat \<times> string) list" where
  "taken [] ins = []"
| "taken (Flush_turn # ts) ins = taken ts ins"
| "taken (Turn c # ts) ins =
     (case server_read (ins c) of
        None \<Rightarrow> taken ts (ins(c := []))
      | Some (l, segs) \<Rightarrow> (c, l) # taken ts (ins(c := segs)))"

lemma received_None: "server_read segs = None \<Longrightarrow> received segs = []"
  by (subst received.simps) simp

lemma received_Some: "server_read segs = Some (l, segs') \<Longrightarrow> received segs = l # received segs'"
  by (subst received.simps) simp

lemma received_Nil [simp]: "received [] = []"
  by (rule received_None) (simp add: server_read_def)

lemma server_read_Nil [simp]: "server_read [] = None"
  by (simp add: server_read_def)

text \<open>Each client's lines are read in the order in which it sends them.\<close>

lemma taken_prefix: "prefix (map snd (filter (\<lambda>x. fst x = c) (taken ts ins))) (received (ins c))"
proof (induction ts ins rule: taken.induct)
  case (3 d ts ins)
  show ?case
  proof (cases "server_read (ins d)")
    case None
    then have "prefix (map snd (filter (\<lambda>x. fst x = c) (taken ts (ins(d := []))))) (received ((ins(d := [])) c))"
      using 3(1) by blast
    then show ?thesis using None received_None [OF None] by (cases "c = d") auto
  next
    case (Some a)
    obtain l segs where a: "a = (l, segs)" by fastforce
    have "prefix (map snd (filter (\<lambda>x. fst x = c) (taken ts (ins(d := segs))))) (received ((ins(d := segs)) c))"
      using 3(2) Some a by blast
    then show ?thesis using Some a received_Some [of "ins d" l segs] by (cases "c = d") auto
  qed
qed simp_all

section \<open>One client alone\<close>

lemma idle_turns: "server_read (ins c) = None \<Longrightarrow>
    interleave h lz4 junk (replicate n (Turn c)) ins srv s = (([], Ok ()), srv, s)"
  by (induction n arbitrary: ins) simp_all

text \<open>The turns of one client are its loop.\<close>

lemma turns_of_one:
  assumes "handleClient h lz4 junk (ins c) srv s = ((sent, r), srv', s')"
  shows "interleave h lz4 junk (replicate (length (received (ins c))) (Turn c)) ins srv s
    = ((map (Pair c) sent, r), srv', s')"
proof -
  have "serve_lines h lz4 junk (received (ins c)) srv s = ((sent, r), srv', s') \<Longrightarrow> ?thesis"
  proof (induction "received (ins c)" arbitrary: ins srv s sent)
    case Nil
    from Nil(1) [symmetric] Nil(2) show ?case by simp
  next
    case (Cons l ls)
    obtain segs where rd: "server_read (ins c) = Some (l, segs)" "received segs = ls"
      using Cons.hyps(2) by (cases "server_read (ins c)") (auto dest: received_None received_Some)
    have rc: "received (ins c) = l # ls" using Cons.hyps(2) by simp
    let ?ins = "ins(c := segs)"
    obtain d srv1 s1 where d: "dispatcher h lz4 junk l srv s = (d, srv1, s1)" by (metis prod_cases3)
    show ?case
    proof (cases d)
      case (Inl e)
      then show ?thesis using Cons.prems d idle_turns [of "ins(c := [])" c h lz4 junk]
        by (cases e) (auto simp: rc rd)
    next
      case (Inr response)
      obtain sent1 r1 srv2 s2 where sl: "serve_lines h lz4 junk ls srv1 s1 = ((sent1, r1), srv2, s2)"
        by (metis prod.exhaust)
      then have e: "sent = (response @ END_DELIM) # sent1" "r1 = r" "srv2 = srv'" "s2 = s'"
        using Cons.prems d Inr by (simp_all add: rc)
      have "interleave h lz4 junk (replicate (length (received (?ins c))) (Turn c)) ?ins srv1 s1
        = ((map (Pair c) sent1, r), srv', s')"
        using Cons.hyps(1) [of ?ins srv1 s1 sent1] rd(2) sl e(2-4) by simp
      then show ?thesis using d Inr by (simp add: rc rd e(1))
    qed
  qed
  then show ?thesis using assms by (simp add: handleClient_lines)
qed

section \<open>Any order\<close>

lemma received_taken:
  assumes "\<forall>c. list_all P (received (ins c))" and "server_read (ins d) = Some (l, segs)"
  shows "P l" and "\<forall>c. list_all P (received ((ins(d := segs)) c))"
proof -
  have "list_all P (received (ins d))" using assms(1) by blast
  then have "P l \<and> list_all P (received segs)" by (simp add: received_Some [OF assms(2)])
  then show "P l" and "\<forall>c. list_all P (received ((ins(d := segs)) c))" using assms(1) by auto
qed

lemma data_turn:
  assumes "journalled ks (server_db srv) s" and "data_line l"
  obtains db where "dispatcher h lz4 junk l srv s
      = (Ok (printVector (answer (command_of l) (kv_of (server_db srv)))), srv\<lparr>server_db := db\<rparr>, s)"
    and "journalled ks (server_db (srv\<lparr>server_db := db\<rparr>)) s"
    and "kv_of db = effect (command_of l) (kv_of (server_db srv))"
proof -
  have one: "list_all data_line [l]" using assms(2) by simp
  obtain db where d: "serve_lines h lz4 junk [l] srv s
      = ((responses [l] (kv_of (server_db srv)), Ok ()), srv\<lparr>server_db := db\<rparr>, s)"
    "journalled ks db s" "kv_of db = fold effect (map command_of [l]) (kv_of (server_db srv))"
    using data_lines_served [OF assms(1) one, of h lz4 junk] by blast
  have "dispatcher h lz4 junk l srv s
      = (Ok (printVector (answer (command_of l) (kv_of (server_db srv)))), srv\<lparr>server_db := db\<rparr>, s)"
    using d(1) by (auto simp: responses_def split: prod.splits sum.splits error.splits)
  then show ?thesis using that d(2,3) by simp
qed

definition loggable_line :: "string \<Rightarrow> bool" where
  "loggable_line l = loggable (command_of l)"

lemma interleave_data:
  assumes "running_db ks (server_db srv) s" and "\<forall>c. list_all db_line (received (ins c))"
    and "interleave h lz4 junk ts ins srv s = ((out, r), srv', s')"
  shows "r = Ok () \<and> map fst out = map fst (taken ts ins)
    \<and> map snd out = responses (map snd (taken ts ins)) (kv_of (server_db srv))
    \<and> kv_of (server_db srv') = fold effect (map command_of (map snd (taken ts ins))) (kv_of (server_db srv))
    \<and> (journalled ks (server_db srv) s \<longrightarrow> (\<forall>c. list_all loggable_line (received (ins c)))
        \<longrightarrow> journalled ks (server_db srv') s')"
  using assms
proof (induction ts arbitrary: ins srv s out)
  case (Cons t ts)
  show ?case
  proof (cases t)
    case Flush_turn
    obtain db s1 where f: "flush_db (server_db srv, s) = (db, s1)" by fastforce
    note rf = running_flush [OF Cons.prems(1) f] and jf = journalled_flush [OF _ f]
    have "running_db ks (server_db (srv\<lparr>server_db := db\<rparr>)) s1" using rf(1) by simp
    from Cons.IH [OF this Cons.prems(2), of out] Cons.prems(3) rf(3) jf(1) show ?thesis
      by (simp add: Flush_turn f)
  next
    case (Turn c)
    show ?thesis
    proof (cases "server_read (ins c)")
      case None
      have "\<forall>d. list_all P (received (ins d)) \<Longrightarrow> \<forall>d. list_all P (received ((ins(c := [])) d))" for P by simp
      from Cons.IH [where ins = "ins(c := [])", OF Cons.prems(1) this [OF Cons.prems(2)], of out] this Cons.prems(3)
      show ?thesis by (simp add: Turn None del: fun_upd_apply)
    next
      case (Some a)
      obtain l segs where a: "a = (l, segs)" by fastforce
      note rd = Some [unfolded a]
      note rt = received_taken [OF Cons.prems(2) rd]
      let ?srv = "srv\<lparr>server_db := snd (parseCommand h l (server_db srv))\<rparr>"
      note d = dispatcher_db_line [OF rt(1) Cons.prems(1), of h lz4 junk]
      have rc: "running_db ks (server_db ?srv) s" "kv_of (server_db ?srv) = effect (command_of l) (kv_of (server_db srv))"
        using running_command(1,2) [OF Cons.prems(1), of h l] by simp_all
      have jc: "journalled ks (server_db srv) s \<Longrightarrow> loggable_line l \<Longrightarrow> journalled ks (server_db ?srv) s"
        using journalled_command(1) [of ks "server_db srv" s l h] by (simp add: loggable_line_def)
      obtain out1 where i: "interleave h lz4 junk ts (ins(c := segs)) ?srv s = ((out1, r), srv', s')"
        "out = (c, printVector (answer (command_of l) (kv_of (server_db srv))) @ END_DELIM) # out1"
        using Cons.prems(3) by (auto simp: Turn Some a d split: prod.splits)
      note IH = Cons.IH [OF rc(1) rt(2) i(1)]
      have "journalled ks (server_db srv) s \<longrightarrow> (\<forall>c. list_all loggable_line (received (ins c)))
          \<longrightarrow> journalled ks (server_db srv') s'"
        using IH jc received_taken [where P = loggable_line and ins = ins and d = c, OF _ rd] by blast
      with IH rc(2) show ?thesis
        by (simp add: Turn Some a i(2) responses_def del: fun_upd_apply)
    qed
  qed
qed auto

text \<open>C4. Any number of clients at once. In whatever order the threads of the clients and the flush
  thread take their turns, every client gets responses, in the order of its own lines, as if
  the commands of all clients were executed one at a time in the order in which they are
  read, and nothing fails. Every line must be a command on the data (\<open>db_line\<close>: not blank, and
  none of the words the dispatcher takes itself, as \<open>use\<close>, \<open>stats\<close> or \<open>quit\<close>). If moreover the log
  with the buffer says at first what the table is and keys and values are such that a
  line of the log gives them back, it still does in the end.\<close>
theorem interleaved_clients:
  assumes "running_db ks (server_db srv) s" and "\<forall>c. list_all db_line (received (ins c))"
    and "interleave h lz4 junk ts ins srv s = ((out, r), srv', s')"
  shows "r = Ok () \<and> map fst out = map fst (taken ts ins)
    \<and> map snd out = responses (map snd (taken ts ins)) (kv_of (server_db srv))
    \<and> (\<forall>c. prefix (map snd (filter (\<lambda>x. fst x = c) (taken ts ins))) (received (ins c)))
    \<and> kv_of (server_db srv') = fold effect (map command_of (map snd (taken ts ins))) (kv_of (server_db srv))
    \<and> (journalled ks (server_db srv) s \<and> (\<forall>c. \<forall>l\<in>set (received (ins c)). loggable (command_of l))
        \<longrightarrow> journalled ks (server_db srv') s')"
  using interleave_data [OF assms] taken_prefix by (simp add: list_all_iff loggable_line_def)

theorem interleaved_clients_witness:
  "\<exists>db s srv' s'. DB_ctor (\<lambda>_ _. 0) False ''k'' empty_fs = (Ok db, s)
    \<and> interleave (\<lambda>_ _. 0) (\<lambda>src n cap. (0, [])) False [Turn 1, Flush_turn, Turn 0, Turn 1]
        (\<lambda>c. if c = 0 then [''get a'' @ [NL]] else if c = 1 then [''put a'', '' 1'' @ [NL]] else [])
        (sample_server db) s
      = (([(1, END_DELIM), (0, ''1'' @ [NL] @ END_DELIM)], Ok ()), srv', s')
    \<and> kv_of (server_db srv') = [''a'' \<mapsto> ''1''] \<and> journalled ''k'' (server_db srv') s'"
proof -
  let ?h = "\<lambda>_ _. 0" and ?lz4 = "\<lambda>src n cap. (0, [])" and ?s = "snd (open_append (aof_path ''k'') empty_fs)"
  let ?ins = "\<lambda>c :: nat. if c = 0 then [''get a'' @ [NL]] else if c = 1 then [''put a'', '' 1'' @ [NL]] else []"
  let ?ts = "[Turn 1, Flush_turn, Turn 0, Turn 1]"
  obtain db where db: "DB_ctor ?h False ''k'' empty_fs = (Ok db, ?s)" "journalled ''k'' db ?s" "kv_of db = Map.empty"
    using first_session .
  have cuts: "cut_line ''get a'' [''get a'' @ [NL]]" "cut_line ''put a 1'' [''put a'', '' 1'' @ [NL]]"
    by (simp_all add: cut_line_def sent_line_def)
  have rd: "server_read [''get a'' @ [NL]] = Some (''get a'', [])"
    "server_read [''put a'', '' 1'' @ [NL]] = Some (''put a 1'', [])"
    using server_read_cut [OF _ cuts(1), of "[]"] server_read_cut [OF _ cuts(2), of "[]"] by simp_all
  have tk: "taken ?ts ?ins = [(1, ''put a 1''), (0, ''get a'')]" by (simp add: rd [simplified])
  have g: "command_of ''get a'' = Get ''a''" by code_simp
  have dl: "data_line ''put a 1''" "data_line ''get a''" by (simp_all add: data_line_def db_line_samples sample_lines g)
  have ok: "\<forall>c. list_all data_line (received (?ins c))"
  proof
    fix c
    have "received (?ins c) \<in> {[''get a''], [''put a 1''], []}"
      using received_Some [OF rd(1)] received_Some [OF rd(2)] by (simp only: received_Nil split: if_split) blast
    then show "list_all data_line (received (?ins c))" using dl by fastforce
  qed
  have j: "journalled ''k'' (server_db (sample_server db)) ?s" using db(2) by simp
  then have run: "running_db ''k'' (server_db (sample_server db)) ?s" by (simp add: journalled_def running_db_def)
  have lines: "\<forall>c. list_all db_line (received (?ins c))" "\<forall>c. \<forall>l\<in>set (received (?ins c)). loggable (command_of l)"
    using ok by (auto simp: list_all_iff data_line_def)
  obtain x srv' s' where i0: "interleave ?h ?lz4 False ?ts ?ins (sample_server db) ?s = (x, srv', s')"
    by (rule prod_cases3)
  obtain out r where "x = (out, r)" by (rule prod.exhaust)
  with i0 have i: "interleave ?h ?lz4 False ?ts ?ins (sample_server db) ?s = ((out, r), srv', s')"
    by (simp only:)
  note ic = interleaved_clients [OF run lines(1) i, unfolded tk sample_server_db db(3)]
  have "map fst out = [1, 0]" "map snd out = [END_DELIM, ''1'' @ [NL] @ END_DELIM]"
    using ic [THEN conjunct2, THEN conjunct1] ic [THEN conjunct2, THEN conjunct2, THEN conjunct1]
    by (simp_all add: responses_def sample_lines g printVector_def)
  then have "out = [(1, END_DELIM), (0, ''1'' @ [NL] @ END_DELIM)]"
    by (auto simp: map_eq_Cons_conv prod_eq_iff simp flip: zip_map_fst_snd)
  moreover have "r = Ok ()" "kv_of (server_db srv') = [''a'' \<mapsto> ''1'']"
    using ic [THEN conjunct1] ic [THEN conjunct2, THEN conjunct2, THEN conjunct2, THEN conjunct2, THEN conjunct1]
    by (simp_all add: sample_lines g)
  moreover have "journalled ''k'' (server_db srv') s'"
    using ic [THEN conjunct2, THEN conjunct2, THEN conjunct2, THEN conjunct2, THEN conjunct2] j lines(2)
    by (simp only: sample_server_db simp_thms)
  ultimately show ?thesis using db(1) i by blast
qed

end
