(* ===== verification/Accept_Loop.thy ===== *)
theory Accept_Loop
  imports Server
begin

text \<open>
  The loop of \<^verbatim>\<open>Server::run\<close> on the main thread, with the two things that happen to it from
  outside: \<^verbatim>\<open>quit\<close> on a client thread lowers the flag \<^verbatim>\<open>running\<close>, and \<^verbatim>\<open>stop\<close>, called by the
  signal handler, lowers the flag and closes the acceptor. Nothing is supposed of the blocking
  accept: whether the acceptor is open or has been closed, it may return with a client or any
  error, raise an exception, or go on waiting, which is that the steps of the others go on
  without one of the main thread.
\<close>

section \<open>State and steps\<close>

datatype loop_pc = L_start | L_test | L_accept | L_close | L_done

datatype accept_result = Connected | Other_error | Operation_aborted | Bad_descriptor | Raised

datatype loop_action = Begin | Test | Accept accept_result | Leave | Quit | Stop_signal

record accept_loop =
  loop_pc :: loop_pc
  running_flag :: bool
  listening :: bool
  spawned :: nat

text \<open>\<^verbatim>\<open>Server::stop\<close>, and the signal handler, which calls it if the instance is set.\<close>

definition stop_server :: "accept_loop \<Rightarrow> accept_loop" where
  "stop_server s = s\<lparr>running_flag := False, listening := False\<rparr>"

definition signalHandler :: "bool \<Rightarrow> accept_loop \<Rightarrow> accept_loop" where
  "signalHandler instance_set s = (if instance_set then stop_server s else s)"

text \<open>Where the main thread goes on when accept has returned: the loop goes round again, or it is left
  by a \<^verbatim>\<open>break\<close>.\<close>

fun after_accept :: "accept_result \<Rightarrow> loop_pc" where
  "after_accept Connected = L_test"
| "after_accept Other_error = L_test"
| "after_accept Operation_aborted = L_close"
| "after_accept Bad_descriptor = L_close"
| "after_accept Raised = L_close"

lemma after_accept_neq [simp]:
  "after_accept r \<noteq> L_start" "after_accept r \<noteq> L_accept" "after_accept r \<noteq> L_done"
  by (cases r; simp)+

inductive loop_step :: "accept_loop \<Rightarrow> loop_action \<Rightarrow> accept_loop \<Rightarrow> bool" where
  begin_loop: "loop_pc s = L_start \<Longrightarrow> loop_step s Begin (s\<lparr>running_flag := True, loop_pc := L_test\<rparr>)"
| test: "loop_pc s = L_test \<Longrightarrow>
    loop_step s Test (s\<lparr>loop_pc := if running_flag s \<and> listening s then L_accept else L_close\<rparr>)"
| accepted: "loop_pc s = L_accept \<Longrightarrow>
    loop_step s (Accept r) (s\<lparr>loop_pc := after_accept r, spawned := spawned s + (if r = Connected then 1 else 0)\<rparr>)"
| leave: "loop_pc s = L_close \<Longrightarrow> loop_step s Leave (s\<lparr>listening := False, loop_pc := L_done\<rparr>)"
| quit: "loop_step s Quit (s\<lparr>running_flag := False\<rparr>)"
| signal: "loop_step s Stop_signal (signalHandler True s)"

inductive_cases loop_stepE: "loop_step s a s'"

inductive_simps loop_step_simps:
  "loop_step s Begin s'" "loop_step s Test s'" "loop_step s (Accept r) s'" "loop_step s Leave s'"
  "loop_step s Quit s'" "loop_step s Stop_signal s'"

inductive loop_run :: "accept_loop \<Rightarrow> loop_action list \<Rightarrow> accept_loop \<Rightarrow> bool" where
  run_none: "loop_run s [] s"
| run_step: "loop_step s a s1 \<Longrightarrow> loop_run s1 bs s2 \<Longrightarrow> loop_run s (a # bs) s2"

inductive_simps loop_run_simps: "loop_run s [] s'" "loop_run s (a # bs) s'"

text \<open>The constructed server: the acceptor listens, the flag is down.\<close>

definition constructed :: accept_loop where
  "constructed = \<lparr>loop_pc = L_start, running_flag = False, listening = True, spawned = 0\<rparr>"

section \<open>The end of the loop\<close>

definition loop_inv :: "accept_loop \<Rightarrow> bool" where
  "loop_inv s = (loop_pc s = L_done \<longrightarrow> \<not> listening s)"

lemmas stop_simps = stop_server_def signalHandler_def

interpretation accepting: step_invariant "\<lambda>s. s = constructed" "\<lambda>s s'. \<exists>a. loop_step s a s'" loop_inv
proof
  show "loop_inv s" if "s = constructed" for s using that by (simp add: loop_inv_def constructed_def)
  show "loop_inv t" if "loop_inv s" "\<exists>a. loop_step s a t" for s t
    using that unfolding loop_inv_def by (auto elim!: loop_stepE simp: stop_simps split: if_splits)
qed

lemma loop_run_steps: "loop_run s as s' \<Longrightarrow> (\<lambda>s s'. \<exists>a. loop_step s a s')\<^sup>*\<^sup>* s s'"
  by (induction rule: loop_run.induct) (auto intro: converse_rtranclp_into_rtranclp)

text \<open>The steps of the main thread; an accept that ends the loop.\<close>

definition main_step :: "loop_action \<Rightarrow> bool" where
  "main_step a = (a \<notin> {Quit, Stop_signal})"

definition breaking :: "loop_action \<Rightarrow> bool" where
  "breaking a = (a \<in> {Accept Operation_aborted, Accept Bad_descriptor, Accept Raised})"

text \<open>The steps of the main thread that are left once the acceptor is closed, and the clients that may
  still be accepted. An accept that ends the loop saves a step.\<close>

fun loop_rank :: "loop_pc \<Rightarrow> nat" where
  "loop_rank L_start = 3" | "loop_rank L_test = 2" | "loop_rank L_accept = 3"
| "loop_rank L_close = 1" | "loop_rank L_done = 0"

definition waiting :: "accept_loop \<Rightarrow> nat" where
  "waiting s = (if loop_pc s = L_accept then 1 else 0)"

lemma loop_rank_bound: "loop_rank pc \<le> 3"
  by (cases pc) simp_all

lemma stopped_step:
  assumes "loop_step s a s'" and "\<not> listening s"
  shows "\<not> listening s'"
    and "(if main_step a then 1 else 0) + (if breaking a then 1 else 0) + loop_rank (loop_pc s') \<le> loop_rank (loop_pc s)"
    and "spawned s' + waiting s' \<le> spawned s + waiting s" and "waiting s' \<le> waiting s"
proof -
  show "\<not> listening s'" using assms by (auto elim!: loop_stepE simp: stop_simps)
  show "spawned s' + waiting s' \<le> spawned s + waiting s" "waiting s' \<le> waiting s"
    using assms by (auto elim!: loop_stepE simp: stop_simps waiting_def)
  from assms(1) show "(if main_step a then 1 else 0) + (if breaking a then 1 else 0) + loop_rank (loop_pc s')
    \<le> loop_rank (loop_pc s)"
  proof cases
    case (accepted r)
    then show ?thesis by (cases r) (simp_all add: main_step_def breaking_def)
  qed (use assms(2) in \<open>auto simp: main_step_def breaking_def stop_simps\<close>)
qed

lemma stopped_run:
  assumes "loop_run s bs s'" and "\<not> listening s"
  shows "\<not> listening s'
    \<and> length (filter main_step bs) + length (filter breaking bs) + loop_rank (loop_pc s') \<le> loop_rank (loop_pc s)
    \<and> spawned s' + waiting s' \<le> spawned s + waiting s \<and> waiting s' \<le> waiting s"
  using assms
proof (induction rule: loop_run.induct)
  case (run_step s a s1 bs s2)
  note st = stopped_step [OF run_step.hyps(1) run_step.prems]
  from run_step.IH [OF st(1)] st(2-4) show ?case by (auto split: if_splits)
qed simp

text \<open>The main thread waits for nothing but accept.\<close>

lemma main_progress:
  assumes "loop_pc s \<notin> {L_accept, L_done}"
  shows "\<exists>a t. main_step a \<and> loop_step s a t"
proof -
  have "main_step Begin" "main_step Test" "main_step Leave" by (simp_all add: main_step_def)
  then show ?thesis using assms loop_step.intros(1,2,4) by (cases "loop_pc s") blast+
qed

text \<open>C23. A signal ends the server, as far as accept lets it. After the signal handler has called
  \<^verbatim>\<open>stop\<close>, in whatever order the threads go on and whatever accept returns, the main thread
  takes at most three more steps, and at most two if accept comes back with
  \<^verbatim>\<open>operation_aborted\<close>, \<^verbatim>\<open>bad_descriptor\<close> or an exception; it never begins to wait in accept again, and
  no client is accepted but one that comes to an accept which was waiting already; while it
  neither waits in accept nor has left the loop it can go on; and once it has left, the
  acceptor is closed.\<close>
theorem signal_ends_loop:
  assumes "loop_run constructed acts s" and "loop_run (signalHandler True s) bs s'"
  shows "length (filter main_step bs) \<le> (if \<exists>b\<in>set bs. breaking b then 2 else 3)
    \<and> spawned s' \<le> spawned s + (if loop_pc s = L_accept then 1 else 0)
    \<and> (loop_pc s' = L_accept \<longrightarrow> loop_pc s = L_accept)
    \<and> (loop_pc s' \<notin> {L_accept, L_done} \<longrightarrow> (\<exists>a t. main_step a \<and> loop_step s' a t))
    \<and> (loop_pc s' = L_done \<longrightarrow> \<not> listening s')"
proof -
  have "\<not> listening (signalHandler True s)" "loop_pc (signalHandler True s) = loop_pc s"
    "spawned (signalHandler True s) = spawned s"
    by (simp_all add: stop_simps)
  with stopped_run [OF assms(2)] loop_rank_bound [of "loop_pc s"]
  have "length (filter main_step bs) + length (filter breaking bs) \<le> 3"
    "spawned s' \<le> spawned s + waiting s" "waiting s' \<le> waiting s"
    by (simp_all add: waiting_def)
  moreover from this have "length (filter main_step bs) \<le> (if \<exists>b\<in>set bs. breaking b then 2 else 3)"
    by (cases "filter breaking bs") (auto simp: filter_empty_conv)
  moreover have "loop_inv s'"
  proof -
    have "loop_inv s" using accepting.inv_reachable loop_run_steps [OF assms(1)] by blast
    then have "loop_inv (signalHandler True s)" by (simp add: loop_inv_def stop_simps)
    then show ?thesis using accepting.inv_steps loop_run_steps [OF assms(2)] by blast
  qed
  ultimately show ?thesis using main_progress [of s']
    by (intro conjI) (auto simp: waiting_def loop_inv_def simp del: set_filter split: if_split_asm)
qed

theorem signal_ends_loop_witness:
  "\<exists>s s'. loop_run constructed [Begin, Test] s
    \<and> loop_run (signalHandler True s) [Quit, Accept Bad_descriptor, Leave] s'
    \<and> length (filter main_step [Quit, Accept Bad_descriptor, Leave]) \<le> 2
    \<and> spawned s' \<le> 1 \<and> \<not> listening s'"
proof -
  obtain s where s: "loop_run constructed [Begin, Test] s" "spawned s = 0" "loop_pc s = L_accept"
    by (simp add: loop_run_simps loop_step_simps constructed_def)
  obtain s' where s': "loop_run (signalHandler True s) [Quit, Accept Bad_descriptor, Leave] s'" "loop_pc s' = L_done"
    using s(3) by (simp add: loop_run_simps loop_step_simps stop_simps)
  have "breaking (Accept Bad_descriptor)" by (simp add: breaking_def)
  with signal_ends_loop [OF s(1) s'(1)] s s' show ?thesis by (auto split: if_splits)
qed

text \<open>\<^verbatim>\<open>quit\<close> does not end the server by itself. With the flag down and the acceptor open a main
  thread that waits in accept goes on waiting: only a connection, an error or a signal can
  move it. The connection is still served, and after it no other is.\<close>
lemma quit_accepts_one_more:
  assumes "\<not> running_flag s" and "loop_pc s \<noteq> L_start"
  shows "(loop_run s bs s' \<longrightarrow> spawned s' \<le> spawned s + 1 \<and> (loop_pc s \<noteq> L_accept \<longrightarrow> spawned s' = spawned s))
    \<and> (loop_step s a s' \<longrightarrow> loop_pc s = L_accept \<longrightarrow> a \<notin> range Accept \<longrightarrow> loop_pc s' = L_accept)"
proof (intro conjI impI)
  have step: "loop_step s a s' \<Longrightarrow> \<not> running_flag s \<Longrightarrow> loop_pc s \<noteq> L_start \<Longrightarrow>
      \<not> running_flag s' \<and> loop_pc s' \<noteq> L_start
      \<and> spawned s' + (if loop_pc s' = L_accept then 1 else 0) \<le> spawned s + (if loop_pc s = L_accept then 1 else 0)
      \<and> spawned s \<le> spawned s'" for s a s'
    by (erule loop_stepE) (auto simp: stop_simps)
  have run: "loop_run s bs s' \<Longrightarrow> \<not> running_flag s \<Longrightarrow> loop_pc s \<noteq> L_start \<Longrightarrow>
      spawned s' + (if loop_pc s' = L_accept then 1 else 0) \<le> spawned s + (if loop_pc s = L_accept then 1 else 0)
      \<and> spawned s \<le> spawned s'"
  proof (induction rule: loop_run.induct)
    case (run_step s a s1 bs s2)
    then show ?case using step [OF run_step.hyps(1)] by fastforce
  qed simp
  show "spawned s' \<le> spawned s + 1" if "loop_run s bs s'"
    using run [OF that assms] by (auto split: if_splits)
  show "spawned s' = spawned s" if "loop_run s bs s'" "loop_pc s \<noteq> L_accept"
    using run [OF that(1) assms] that(2) by (auto split: if_splits)
  show "loop_pc s' = L_accept" if "loop_step s a s'" "loop_pc s = L_accept" "a \<notin> range Accept"
    using that by (auto elim!: loop_stepE simp: stop_simps)
qed

end
