(* ===== verification/Program.thy ===== *)
theory Program
  imports Interleaving Accept_Loop
begin

text \<open>
  The server program of \<^verbatim>\<open>src/main.cpp\<close>: configuration, construction, the loop of
  \<^verbatim>\<open>Server::run\<close> with its clients, and destruction; and executions of the program one after
  the other on the same disk. The main thread, the threads of the clients, the flush thread and
  signals take their turns in any order, in which a turn of a client reads one line and
  answers it. After the loop the threads may still have turns, until the server is destroyed;
  what may happen then is in theory Lifetime.
\<close>

section \<open>Operations\<close>

text \<open>What happens: the main thread goes on as far as it can; its accept returns with a client, who
  will send these segments, with an error after which it tries again, or with one that ends the
  loop; a client's thread has a turn; the flush thread wakes up; a signal arrives.\<close>

datatype activity =
    Main_turn
  | Client_connects "string list"
  | Accept_error
  | Accept_breaks
  | Client_turn nat
  | Flush_wakes
  | Signal_arrives

text \<open>The main thread, until it waits in accept or has left the loop.\<close>

definition enter_accept :: "loop_pc \<Rightarrow> Server \<Rightarrow> loop_pc \<times> Server" where
  "enter_accept pc srv =
     (let srv = (if pc = L_start then srv\<lparr>running := True\<rparr> else srv);
          pc = (if pc = L_start \<or> pc = L_test
                then if running srv \<and> acceptor_open srv then L_accept else L_close else pc)
      in if pc = L_close then (L_done, srv\<lparr>acceptor_open := False\<rparr>) else (pc, srv))"

text \<open>The loop: where the main thread is, the number of clients that have connected, and what each of
  them still sends. Accept returns only when the main thread waits in it. In the end, at the
  latest, a signal calls \<^verbatim>\<open>stop\<close> and accept returns because the acceptor is closed; a server
  whose accept goes on waiting is never destroyed.\<close>

fun run_loop ::
  "layout \<Rightarrow> lz4 \<Rightarrow> bool \<Rightarrow> loop_pc \<Rightarrow> activity list \<Rightarrow> nat \<Rightarrow> (nat \<Rightarrow> string list) \<Rightarrow> Server \<Rightarrow> fs
     \<Rightarrow> ((nat \<times> string) list \<times> unit outcome) \<times> nat \<times> Server \<times> fs" where
  "run_loop h lz4 junk pc [] n ins srv s =
     (let srv = (if pc = L_done then srv else srv\<lparr>running := False, acceptor_open := False\<rparr>);
          (pc, srv) = enter_accept pc srv;
          (pc, srv) = enter_accept (if pc = L_accept then after_accept Operation_aborted else pc) srv
      in (([], Ok ()), n, srv, s))"
| "run_loop h lz4 junk pc (Main_turn # evs) n ins srv s =
     (let (pc, srv) = enter_accept pc srv in run_loop h lz4 junk pc evs n ins srv s)"
| "run_loop h lz4 junk pc (Client_connects segs # evs) n ins srv s =
     (let (pc, srv) = enter_accept pc srv
      in if pc = L_accept
         then run_loop h lz4 junk (after_accept Connected) evs (n + 1) (ins(n := segs)) srv s
         else run_loop h lz4 junk pc evs n ins srv s)"
| "run_loop h lz4 junk pc (Accept_error # evs) n ins srv s =
     (let (pc, srv) = enter_accept pc srv
      in run_loop h lz4 junk (if pc = L_accept then after_accept Other_error else pc) evs n ins srv s)"
| "run_loop h lz4 junk pc (Accept_breaks # evs) n ins srv s =
     (let (pc, srv) = enter_accept pc srv
      in run_loop h lz4 junk (if pc = L_accept then after_accept Operation_aborted else pc) evs n ins srv s)"
| "run_loop h lz4 junk pc (Client_turn c # evs) n ins srv s =
     (case server_read (ins c) of
        None \<Rightarrow> run_loop h lz4 junk pc evs n (ins(c := [])) srv s
      | Some (incoming, segs) \<Rightarrow>
          (case dispatcher h lz4 junk incoming srv s of
             (Inl (Exception _), srv, s) \<Rightarrow> run_loop h lz4 junk pc evs n (ins(c := [])) srv s
           | (Inl (Undefined f), srv, s) \<Rightarrow> (([], Fault f), n, srv, s)
           | (Inr response, srv, s) \<Rightarrow>
               (let ((out, r), n, srv, s) = run_loop h lz4 junk pc evs n (ins(c := segs)) srv s
                in (((c, response @ END_DELIM) # out, r), n, srv, s))))"
| "run_loop h lz4 junk pc (Flush_wakes # evs) n ins srv s =
     (let (db, s) = flush_db (server_db srv, s) in run_loop h lz4 junk pc evs n ins (srv\<lparr>server_db := db\<rparr>) s)"
| "run_loop h lz4 junk pc (Signal_arrives # evs) n ins srv s =
     run_loop h lz4 junk pc evs n ins (srv\<lparr>running := False, acceptor_open := False\<rparr>) s"

definition run_server ::
  "layout \<Rightarrow> lz4 \<Rightarrow> bool \<Rightarrow> activity list \<Rightarrow> Server \<Rightarrow> fs
     \<Rightarrow> ((nat \<times> string) list \<times> unit outcome) \<times> nat \<times> Server \<times> fs" where
  "run_server h lz4 junk evs srv s = run_loop h lz4 junk L_start evs 0 (\<lambda>c. []) srv s"

text \<open>An exception of the constructor is not caught.\<close>

definition server_main ::
  "layout \<Rightarrow> lz4 \<Rightarrow> bool \<Rightarrow> (string \<Rightarrow> bool) \<Rightarrow> (string option \<Rightarrow> u16 \<Rightarrow> bool) \<Rightarrow> activity list \<Rightarrow> fs
     \<Rightarrow> ((nat \<times> string) list \<times> unit outcome) \<times> fs" where
  "server_main h lz4 junk is_address listens evs s =
     (let s = spawnConfig ''config.cfg'' s;
          config = parseConfig is_address ''config.cfg'' s
      in case Server_ctor h lz4 junk is_address listens config s of
           (Inl (Exception _), s) \<Rightarrow> (([], Fault Terminated), s)
         | (Inl (Undefined f), s) \<Rightarrow> (([], Fault f), s)
         | (Inr srv, s) \<Rightarrow>
             (let ((out, r), n, srv, s) = run_server h lz4 junk evs srv s
              in case r of
                   Inl e \<Rightarrow> ((out, Inl e), s)
                 | Inr _ \<Rightarrow> (let (r, s) = Server_dtor lz4 srv s in ((out, r), s))))"

text \<open>Executions of the program one after the other, each with what the uninitialised field
  \<^verbatim>\<open>replaying\<close> holds: the responses of each, with the clients they go to, and the disk in the end.\<close>

fun executions ::
  "layout \<Rightarrow> lz4 \<Rightarrow> (string \<Rightarrow> bool) \<Rightarrow> (string option \<Rightarrow> u16 \<Rightarrow> bool) \<Rightarrow> (bool \<times> activity list) list \<Rightarrow> fs
     \<Rightarrow> (nat \<times> string) list list \<times> fs" where
  "executions h lz4 is_address listens [] s = ([], s)"
| "executions h lz4 is_address listens ((junk, evs) # es) s =
     (let ((out, _), s) = server_main h lz4 junk is_address listens evs s;
          (outs, s) = executions h lz4 is_address listens es s
      in (out # outs, s))"

section \<open>Clients of data commands\<close>

text \<open>Where the main thread comes to wait while no client lowers the flag.\<close>

definition waits :: "loop_pc \<Rightarrow> bool \<Rightarrow> loop_pc" where
  "waits pc opened = (if pc = L_accept then L_accept else if opened \<and> (pc = L_start \<or> pc = L_test) then L_accept else L_done)"

text \<open>The lines in the order in which they are read, with the clients that sent them.\<close>

fun lines_read :: "loop_pc \<Rightarrow> bool \<Rightarrow> activity list \<Rightarrow> nat \<Rightarrow> (nat \<Rightarrow> string list) \<Rightarrow> (nat \<times> string) list" where
  "lines_read pc opened [] n ins = []"
| "lines_read pc opened (Main_turn # evs) n ins = lines_read (waits pc opened) opened evs n ins"
| "lines_read pc opened (Client_connects segs # evs) n ins =
     (if waits pc opened = L_accept then lines_read L_test opened evs (n + 1) (ins(n := segs))
      else lines_read (waits pc opened) opened evs n ins)"
| "lines_read pc opened (Accept_error # evs) n ins =
     lines_read (if waits pc opened = L_accept then L_test else waits pc opened) opened evs n ins"
| "lines_read pc opened (Accept_breaks # evs) n ins =
     lines_read (if waits pc opened = L_accept then L_close else waits pc opened) opened evs n ins"
| "lines_read pc opened (Client_turn c # evs) n ins =
     (case server_read (ins c) of
        None \<Rightarrow> lines_read pc opened evs n (ins(c := []))
      | Some (l, segs) \<Rightarrow> (c, l) # lines_read pc opened evs n (ins(c := segs)))"
| "lines_read pc opened (Flush_wakes # evs) n ins = lines_read pc opened evs n ins"
| "lines_read pc opened (Signal_arrives # evs) n ins = lines_read pc False evs n ins"

definition lines_of :: "activity list \<Rightarrow> (nat \<times> string) list" where
  "lines_of evs = lines_read L_start True evs 0 (\<lambda>c. [])"

text \<open>What the clients send, the client with number \<open>c\<close> being the one that connected as such.\<close>

fun sent_by :: "activity list \<Rightarrow> nat \<Rightarrow> string list" where
  "sent_by [] c = []"
| "sent_by (Client_connects segs # evs) c = (case c of 0 \<Rightarrow> segs | Suc d \<Rightarrow> sent_by evs d)"
| "sent_by (a # evs) c = sent_by evs c"

definition sends_data :: "activity list \<Rightarrow> bool" where
  "sends_data evs = (\<forall>segs. Client_connects segs \<in> set evs \<longrightarrow> list_all data_line (received segs))"

text \<open>Each client's lines are read in the order in which it sends them.\<close>

lemma no_more_clients:
  assumes "\<forall>c\<ge>n. ins c = []" and "waits pc opened \<noteq> L_accept"
  shows "\<forall>x\<in>set (lines_read pc opened evs n ins). fst x < n"
  using assms
proof (induction pc opened evs n ins rule: lines_read.induct)
  case (6 pc opened d evs n ins)
  show ?case
  proof (cases "server_read (ins d)")
    case None
    have "\<forall>c\<ge>n. (ins(d := [])) c = []" using 6(3) by simp
    from 6(1) [OF None this 6(4)] show ?thesis by (simp add: None del: fun_upd_apply)
  next
    case (Some a)
    obtain l segs where a: "a = (l, segs)" by fastforce
    have d: "d < n" using Some 6(3) by (metis not_le option.distinct(1) server_read_Nil)
    then have "\<forall>c\<ge>n. (ins(d := segs)) c = []" using 6(3) by simp
    from 6(2) [OF Some a [symmetric] this 6(4)] show ?thesis by (simp add: Some a d del: fun_upd_apply)
  qed
qed (auto simp: waits_def split: if_splits)

lemma lines_read_prefix:
  assumes "\<forall>c\<ge>n. ins c = []"
  shows "prefix (map snd (filter (\<lambda>x. fst x = c) (lines_read pc opened evs n ins)))
    (received (if c < n then ins c else sent_by evs (c - n)))"
  using assms
proof (induction pc opened evs n ins rule: lines_read.induct)
  case (3 pc opened segs evs n ins)
  show ?case
  proof (cases "waits pc opened = L_accept")
    case True
    have new: "\<forall>c\<ge>n + 1. (ins(n := segs)) c = []" using 3(3) by simp
    have e: "(if c < n + 1 then (ins(n := segs)) c else sent_by evs (c - (n + 1)))
        = (if c < n then ins c else sent_by (Client_connects segs # evs) (c - n))"
      by (cases "c - n") (auto intro: arg_cong [where f = "sent_by evs"])
    show ?thesis using 3(1) [OF True new, unfolded e] True by (simp only: lines_read.simps simp_thms if_True)
  next
    case False
    then have "filter (\<lambda>x. fst x = c) (lines_read (waits pc opened) opened evs n ins) = []" if "\<not> c < n"
      using no_more_clients [OF 3(3), of "waits pc opened" opened evs] that
      by (auto simp: filter_empty_conv waits_def split: if_splits)
    then show ?thesis using 3(2) [OF False] 3(3) False by auto
  qed
next
  case (6 pc opened d evs n ins)
  show ?case
  proof (cases "server_read (ins d)")
    case None
    have "\<forall>c\<ge>n. (ins(d := [])) c = []" using 6(3) by simp
    moreover have "received (if c < n then (ins(d := [])) c else sent_by evs (c - n))
        = received (if c < n then ins c else sent_by evs (c - n))"
      by (simp add: received_None [OF None])
    ultimately show ?thesis using 6(1) [OF None] by (simp add: None del: fun_upd_apply split: if_split_asm)
  next
    case (Some a)
    obtain l segs where a: "a = (l, segs)" by fastforce
    have "d < n" using Some 6(3) by (metis not_le option.distinct(1) server_read_Nil)
    then have new: "\<forall>c\<ge>n. (ins(d := segs)) c = []" using 6(3) by simp
    have e: "received (if c < n then ins c else sent_by (Client_turn d # evs) (c - n))
        = (if c = d then [l] else []) @ received (if c < n then (ins(d := segs)) c else sent_by evs (c - n))"
      using \<open>d < n\<close> received_Some [of "ins d" l segs] Some a by simp
    from 6(2) [OF Some a [symmetric] new] show ?thesis unfolding e
      by (cases "c = d") (simp_all add: Some a del: fun_upd_apply)
  qed
qed auto

section \<open>Data over the loop\<close>

text \<open>How the thread's place and the flags of the server go together while no client lowers the flag.\<close>

definition in_step :: "loop_pc \<Rightarrow> bool \<Rightarrow> Server \<Rightarrow> bool" where
  "in_step pc opened srv =
     ((pc \<noteq> L_done \<longrightarrow> opened = acceptor_open srv) \<and> (pc \<noteq> L_start \<and> pc \<noteq> L_done \<and> opened \<longrightarrow> running srv))"

lemma enter_accept_in_step:
  assumes "in_step pc opened srv" and "enter_accept pc srv = (pc', srv')"
  shows "pc' = waits pc opened" and "server_db srv' = server_db srv" and "in_step pc' opened srv'"
    and "pc' = L_accept \<Longrightarrow> in_step (after_accept r) opened srv'"
proof -
  have r: "after_accept r \<noteq> L_start" "after_accept r \<noteq> L_done" by simp_all
  show "pc' = waits pc opened" "server_db srv' = server_db srv" "in_step pc' opened srv'"
    "pc' = L_accept \<Longrightarrow> in_step (after_accept r) opened srv'"
    using assms by (cases pc; auto simp: enter_accept_def in_step_def waits_def Let_def split: if_splits)+
qed

text \<open>What the loop does with lines of data.\<close>

definition served ::
  "string \<Rightarrow> (nat \<times> string) list \<Rightarrow> kv \<Rightarrow> fs \<Rightarrow> ((nat \<times> string) list \<times> unit outcome) \<times> nat \<times> Server \<times> fs \<Rightarrow> bool" where
  "served ks lns m s = (\<lambda>((out, r), n, srv', s').
     r = Ok () \<and> map fst out = map fst lns \<and> map snd out = responses (map snd lns) m
     \<and> journalled ks (server_db srv') s' \<and> kv_of (server_db srv') = fold effect (map command_of (map snd lns)) m
     \<and> writable s' = writable s \<and> (\<forall>q. q \<noteq> aof_path ks \<longrightarrow> read_file q s' = read_file q s)
     \<and> (file_text (aof_path ks) s \<noteq> [] \<longrightarrow> file_text (aof_path ks) s' \<noteq> []))"

lemma served_here: "journalled ks (server_db srv) s \<Longrightarrow> m = kv_of (server_db srv) \<Longrightarrow> served ks [] m s (([], Ok ()), n, srv, s)"
  by (simp add: served_def)

lemma served_after:
  assumes "served ks lns m s1 x" and "writable s1 = writable s"
    and "\<And>q. q \<noteq> aof_path ks \<Longrightarrow> read_file q s1 = read_file q s"
    and "file_text (aof_path ks) s \<noteq> [] \<Longrightarrow> file_text (aof_path ks) s1 \<noteq> []"
  shows "served ks lns m s x"
  using assms by (auto simp: served_def)

lemma served_line:
  assumes "served ks lns (effect (command_of l) m) s ((out, r), n, srv', s')"
  shows "served ks ((c, l) # lns) m s (((c, printVector (answer (command_of l) m) @ END_DELIM) # out, r), n, srv', s')"
  using assms by (auto simp: served_def responses_def)

lemma run_loop_data:
  assumes "journalled ks (server_db srv) s" and "in_step pc opened srv" and "sends_data evs"
    and "\<forall>c. list_all data_line (received (ins c))"
  shows "served ks (lines_read pc opened evs n ins) (kv_of (server_db srv)) s (run_loop h lz4 junk pc evs n ins srv s)"
  using assms
proof (induction pc opened evs n ins arbitrary: srv s rule: lines_read.induct)
  case (1 pc opened n ins)
  then show ?case
    by (auto simp: Let_def enter_accept_def intro!: served_here split: if_splits)
next
  case (2 pc opened evs n ins)
  obtain pc' srv' where e: "enter_accept pc srv = (pc', srv')" by fastforce
  note en = enter_accept_in_step [OF 2(3) e]
  show ?case using "2.IH" [of srv' s] 2(2,4,5) en by (simp add: e sends_data_def)
next
  case (3 pc opened segs evs n ins)
  obtain pc' srv' where e: "enter_accept pc srv = (pc', srv')" by fastforce
  note en = enter_accept_in_step [OF 3(4) e]
  have d: "sends_data evs" "\<forall>c. list_all data_line (received ((ins(n := segs)) c))"
    using 3(5,6) by (auto simp: sends_data_def)
  show ?case
  proof (cases "pc' = L_accept")
    case True
    have j: "journalled ks (server_db srv') s" "in_step L_test opened srv'"
      using 3(3) en(2) en(4) [OF True, of Connected] by simp_all
    show ?thesis using "3.IH"(1) [OF _ j d] True en(1,2) by (simp add: e del: fun_upd_apply)
  next
    case False
    then show ?thesis using "3.IH"(2) [of srv' s] 3(3,6) en d(1) by (simp add: e)
  qed
next
  case (4 pc opened evs n ins)
  obtain pc' srv' where e: "enter_accept pc srv = (pc', srv')" by fastforce
  note en = enter_accept_in_step [OF 4(3) e]
  show ?case using "4.IH" [of srv' s] 4(2,4,5) en(1-3) en(4) [of Other_error] by (auto simp: e sends_data_def)
next
  case (5 pc opened evs n ins)
  obtain pc' srv' where e: "enter_accept pc srv = (pc', srv')" by fastforce
  note en = enter_accept_in_step [OF 5(3) e]
  show ?case using "5.IH" [of srv' s] 5(2,4,5) en(1-3) en(4) [of Operation_aborted] by (auto simp: e sends_data_def)
next
  case (6 pc opened c evs n ins)
  have d: "sends_data evs" using 6(5) by (simp add: sends_data_def)
  show ?case
  proof (cases "server_read (ins c)")
    case None
    have "\<forall>d. list_all data_line (received ((ins(c := [])) d))" using 6(6) by simp
    from "6.IH"(1) [OF None 6(3,4) d this] show ?thesis by (simp add: None del: fun_upd_apply)
  next
    case (Some a)
    obtain l segs where a: "a = (l, segs)" by fastforce
    note rt = received_taken [OF 6(6) Some [unfolded a]]
    obtain db where dp: "dispatcher h lz4 junk l srv s
        = (Ok (printVector (answer (command_of l) (kv_of (server_db srv)))), srv\<lparr>server_db := db\<rparr>, s)"
      "journalled ks (server_db (srv\<lparr>server_db := db\<rparr>)) s" "kv_of db = effect (command_of l) (kv_of (server_db srv))"
      using data_turn [OF 6(3) rt(1), of h lz4 junk] .
    obtain out1 r1 n1 srv1 s1 where rl: "run_loop h lz4 junk pc evs n (ins(c := segs)) (srv\<lparr>server_db := db\<rparr>) s
        = ((out1, r1), n1, srv1, s1)"
      by (metis prod.exhaust)
    have "in_step pc opened (srv\<lparr>server_db := db\<rparr>)" using 6(4) by (simp add: in_step_def)
    from "6.IH"(2) [OF Some a [symmetric] dp(2) this d rt(2)] served_line
    show ?thesis by (simp add: Some a dp(1,3) rl del: fun_upd_apply)
  qed
next
  case (7 pc opened evs n ins)
  obtain db s1 where f: "flush_db (server_db srv, s) = (db, s1)" by fastforce
  have r: "running_db ks (server_db srv) s" using 7(2) by (simp add: journalled_def running_db_def)
  note jf = journalled_flush [OF 7(2) f] and rf = running_flush [OF r f]
  have w: "writable s1 = writable s" using run_event_writable [of h Flush "server_db srv" s db s1] f by simp
  have "in_step pc opened (srv\<lparr>server_db := db\<rparr>)" using 7(3) by (simp add: in_step_def)
  with "7.IH" [of "srv\<lparr>server_db := db\<rparr>" s1] 7(4,5) jf(1,2)
  have "served ks (lines_read pc opened evs n ins) (kv_of (server_db srv)) s1
      (run_loop h lz4 junk pc evs n ins (srv\<lparr>server_db := db\<rparr>) s1)"
    by (simp add: sends_data_def)
  from served_after [OF this w rf(2)] jf(4) show ?case by (simp add: f)
next
  case (8 pc opened evs n ins)
  have "in_step pc False (srv\<lparr>running := False, acceptor_open := False\<rparr>)" by (simp add: in_step_def)
  with "8.IH" [of "srv\<lparr>running := False, acceptor_open := False\<rparr>" s] 8(2,4,5) show ?case
    by (simp add: sends_data_def)
qed

section \<open>Executions\<close>

lemma config_path [simp]:
  "''config.cfg'' \<noteq> aof_path ks" "''config.cfg'' \<noteq> temp_path ks" "''config.cfg'' \<noteq> db_path ks"
  "aof_path ks \<noteq> ''config.cfg''"
  by (simp_all add: aof_path_def temp_path_def db_path_def)

lemma spawn_frame:
  assumes "wf_fs s"
  shows "wf_fs (spawnConfig f s)" and "writable (spawnConfig f s) = writable s"
    and "q \<noteq> f \<Longrightarrow> read_file q (spawnConfig f s) = read_file q s"
    and "writable s f \<Longrightarrow> read_file f (spawnConfig f s) \<noteq> None"
  using assms by (simp_all add: spawnConfig_def wf_write_file read_write_file)
    (auto simp: read_file_def)

lemma spawn_again:
  assumes "read_file f s' = read_file f (spawnConfig f s)" and "read_file f (spawnConfig f s) \<noteq> None"
  shows "parseConfig is_address f (spawnConfig f s') = parseConfig is_address f (spawnConfig f s)"
proof -
  have "dirents s' f \<noteq> None" using assms by (auto simp: read_file_def)
  then have "spawnConfig f s' = s'" by (auto simp: spawnConfig_def)
  then show ?thesis using assms(1) by (simp add: parseConfig_def)
qed

lemma main_data:
  assumes "wf_fs s" and "writable s ''config.cfg''" and "writable s (aof_path ks)" and "writable s (temp_path ks)"
    and "written (file_text (aof_path ks) s)" and "\<And>e p. listens e p"
    and "keyspace (parseConfig is_address ''config.cfg'' (spawnConfig ''config.cfg'' s)) = ks"
    and "sends_data evs" and "\<not> junk \<or> file_text (aof_path ks) s \<noteq> []"
    and "server_main h lz4 junk is_address listens evs s = ((out, r), s')"
  shows "map fst out = map fst (lines_of evs)"
    and "map snd out = responses (map snd (lines_of evs)) (recover (file_text (aof_path ks) s))"
    and "recover (file_text (aof_path ks) s')
      = fold effect (map command_of (map snd (lines_of evs))) (recover (file_text (aof_path ks) s))"
    and "wf_fs s'" and "writable s' = writable s" and "written (file_text (aof_path ks) s')"
    and "parseConfig is_address ''config.cfg'' (spawnConfig ''config.cfg'' s')
      = parseConfig is_address ''config.cfg'' (spawnConfig ''config.cfg'' s)"
    and "file_text (aof_path ks) s \<noteq> [] \<Longrightarrow> file_text (aof_path ks) s' \<noteq> []"
proof -
  let ?f = "''config.cfg''"
  let ?s0 = "spawnConfig ?f s" and ?cfg = "parseConfig is_address ?f (spawnConfig ?f s)"
  note sp = spawn_frame [OF assms(1), where f = ?f]
  have t0: "file_text (aof_path ks) ?s0 = file_text (aof_path ks) s" by (simp add: file_text_def sp(3))
  let ?s1 = "snd (open_append (aof_path ks) ?s0)"
  obtain db where db: "DB_ctor h junk ks ?s0 = (Ok db, ?s1)" "journalled ks db ?s1"
    "kv_of db = recover (file_text (aof_path ks) s)"
    using DB_ctor_journalled [of ?s0 ks junk h] sp(1,2) assms(3,5,9) t0 by auto
  define srv where "srv = \<lparr>server_host = host ?cfg, server_port = port ?cfg, running = False,
    acceptor_open = True, server_db = db\<rparr>"
  have srv: "server_db srv = db" "in_step L_start True srv" by (simp_all add: srv_def in_step_def)
  have j: "journalled ks (server_db srv) ?s1" using db(2) by (simp add: srv)
  have ins: "\<forall>c. list_all data_line (received ((\<lambda>c :: nat. []) c))" by simp
  obtain out2 r2 n2 srv2 s2 where rl: "run_server h lz4 junk evs srv ?s1 = ((out2, r2), n2, srv2, s2)"
    by (metis prod.exhaust)
  have sv: "served ks (lines_of evs) (kv_of db) ?s1 ((out2, r2), n2, srv2, s2)"
    using run_loop_data [OF j srv(2) assms(8) ins, of 0 h lz4 junk] rl
    by (simp only: run_server_def lines_of_def srv)
  note ru = sv [unfolded served_def prod.case]
  obtain r3 s3 where d: "Server_dtor lz4 srv2 s2 = (r3, s3)" by fastforce
  have e: "out = out2" "s' = s3"
    using assms(6,10) ru d
    by (simp_all add: server_main_def Server_ctor_def Let_def assms(7) db(1) rl [unfolded srv_def])
  have w1: "writable ?s1 = writable s" by (simp add: sp(2))
  have j2: "journalled ks (server_db srv2) s2" and t2: "writable s2 (temp_path ks)"
    using ru w1 assms(4) by simp_all
  note dt = Server_dtor_text [OF j2 t2 d]
  show "map fst out = map fst (lines_of evs)"
    and "map snd out = responses (map snd (lines_of evs)) (recover (file_text (aof_path ks) s))"
    and "recover (file_text (aof_path ks) s')
      = fold effect (map command_of (map snd (lines_of evs))) (recover (file_text (aof_path ks) s))"
    using ru dt(1) db(3) by (simp_all only: e)
  show "wf_fs s'" "writable s' = writable s" "written (file_text (aof_path ks) s')"
    using dt(2-4) ru w1 by (simp_all add: e)
  show "file_text (aof_path ks) s' \<noteq> []" if "file_text (aof_path ks) s \<noteq> []"
    using dt(6) ru that t0 sp(1) by (simp add: e file_text_open)
  have "read_file ?f s' = read_file ?f ?s0"
    using dt(5) [where q = ?f] ru read_open_append [OF sp(1), of ?f "aof_path ks"] by (simp add: e)
  then show "parseConfig is_address ?f (spawnConfig ?f s') = ?cfg"
    using sp(4) assms(2) by (intro spawn_again)
qed

text \<open>The lines of all executions in order.\<close>

definition all_lines :: "(bool \<times> activity list) list \<Rightarrow> (nat \<times> string) list" where
  "all_lines es = concat (map (\<lambda>(junk, evs). lines_of evs) es)"

lemma executions_data:
  assumes "wf_fs s" and "writable s ''config.cfg''" and "writable s (aof_path ks)" and "writable s (temp_path ks)"
    and "written (file_text (aof_path ks) s)" and "\<And>e p. listens e p"
    and "keyspace (parseConfig is_address ''config.cfg'' (spawnConfig ''config.cfg'' s)) = ks"
    and "list_all (\<lambda>(junk, evs). sends_data evs) es"
    and "list_all (\<lambda>(junk, evs). \<not> junk) es \<or> file_text (aof_path ks) s \<noteq> []"
    and "executions h lz4 is_address listens es s = (outs, s')"
  shows "map (map fst) outs = map (\<lambda>(junk, evs). map fst (lines_of evs)) es
    \<and> map snd (concat outs) = responses (map snd (all_lines es)) (recover (file_text (aof_path ks) s))
    \<and> recover (file_text (aof_path ks) s')
      = fold effect (map command_of (map snd (all_lines es))) (recover (file_text (aof_path ks) s))"
  using assms(1-5,7-10)
proof (induction es arbitrary: s outs)
  case (Cons e es)
  obtain junk evs where e: "e = (junk, evs)" by fastforce
  have l: "sends_data evs" "list_all (\<lambda>(junk, evs). sends_data evs) es" "\<not> junk \<or> file_text (aof_path ks) s \<noteq> []"
    using Cons.prems(7,8) by (auto simp: e)
  obtain out r s1 where m: "server_main h lz4 junk is_address listens evs s = ((out, r), s1)"
    by (metis prod.exhaust)
  obtain outs1 s2 where x: "executions h lz4 is_address listens es s1 = (outs1, s2)" by fastforce
  have o: "outs = out # outs1" "s2 = s'" using x m Cons.prems(9) by (simp_all add: e)
  note md = main_data [OF Cons.prems(1-5) assms(6) Cons.prems(6) l(1,3) m]
  have flags: "list_all (\<lambda>(junk, evs). \<not> junk) es \<or> file_text (aof_path ks) s1 \<noteq> []"
    using Cons.prems(8) md(8) by (auto simp: e)
  have "map (map fst) outs1 = map (\<lambda>(junk, evs). map fst (lines_of evs)) es
    \<and> map snd (concat outs1) = responses (map snd (all_lines es)) (recover (file_text (aof_path ks) s1))
    \<and> recover (file_text (aof_path ks) s')
      = fold effect (map command_of (map snd (all_lines es))) (recover (file_text (aof_path ks) s1))"
    by (rule Cons.IH [OF md(4) _ _ _ md(6) _ l(2) flags x [unfolded o(2)]])
      (simp_all only: md(5,7) Cons.prems(2-4,6))
  then show ?case using md(1-3) by (simp add: o(1) e all_lines_def responses_append)
qed (simp add: all_lines_def)

text \<open>C1. The program is a persistent map. Over any number of executions on the same disk, each with
  any number of clients whose threads, with the main thread, the flush thread and signals, take
  their turns in any order, the responses are those of the specification to all commands in the
  order in which they are read, beginning with what the log said at first; each goes to the
  client that sent the command, and each client's lines are read in its order; in the end the
  log says what the commands made of it. Restarts do not show. Conditions: the clients send
  commands on the data (\<open>db_line\<close>: not \<open>use\<close>, \<open>quit\<close>, \<open>stats\<close> and the like, and no blank line) whose
  keys and values a line of the log gives back (\<open>loggable\<close>); the log is one that the program
  has written; configuration, log and temporary file can be written and the server can
  listen; and the uninitialised field \<^verbatim>\<open>replaying\<close> may hold anything in every execution if the
  log is not empty at first, and otherwise is false. The server is destroyed when the listed
  turns are over.\<close>
theorem persistent_map:
  assumes "wf_fs s" and "writable s ''config.cfg''" and "writable s (aof_path ks)" and "writable s (temp_path ks)"
    and "written (file_text (aof_path ks) s)" and "\<And>e p. listens e p"
    and "keyspace (parseConfig is_address ''config.cfg'' (spawnConfig ''config.cfg'' s)) = ks"
    and "list_all (\<lambda>(junk, evs). sends_data evs) es"
    and "list_all (\<lambda>(junk, evs). \<not> junk) es \<or> file_text (aof_path ks) s \<noteq> []"
    and "executions h lz4 is_address listens es s = (outs, s')"
  shows "map (map fst) outs = map (\<lambda>(junk, evs). map fst (lines_of evs)) es
    \<and> map snd (concat outs) = responses (map snd (all_lines es)) (recover (file_text (aof_path ks) s))
    \<and> (\<forall>(junk, evs)\<in>set es. \<forall>c. prefix (map snd (filter (\<lambda>x. fst x = c) (lines_of evs))) (received (sent_by evs c)))
    \<and> recover (file_text (aof_path ks) s')
      = fold effect (map command_of (map snd (all_lines es))) (recover (file_text (aof_path ks) s))"
proof -
  have "prefix (map snd (filter (\<lambda>x. fst x = c) (lines_of evs))) (received (sent_by evs c))" for evs c
    using lines_read_prefix [of 0 "\<lambda>c. []" c L_start True evs] by (simp add: lines_of_def)
  with executions_data [OF assms] show ?thesis by blast
qed

theorem persistent_map_witness:
  "fst (executions (\<lambda>_ _. 0) (\<lambda>src n cap. (0, [])) (\<lambda>a. a = ''127.0.0.1'') (\<lambda>_ _. True)
     [(False, [Client_connects [''put a'', '' 1'' @ [NL]], Main_turn, Client_connects [''get a'' @ [NL]],
        Client_turn 0, Client_turn 1, Flush_wakes, Signal_arrives]),
      (False, [Client_connects [''get a'' @ [NL]], Client_turn 0])] empty_fs)
   = [[(0, END_DELIM), (1, ''1'' @ [NL] @ END_DELIM)], [(0, ''1'' @ [NL] @ END_DELIM)]]"
proof -
  let ?e1 = "[Client_connects [''put a'', '' 1'' @ [NL]], Main_turn, Client_connects [''get a'' @ [NL]],
    Client_turn 0, Client_turn 1, Flush_wakes, Signal_arrives]"
  let ?e2 = "[Client_connects [''get a'' @ [NL]], Client_turn 0]"
  let ?es = "[(False, ?e1), (False, ?e2)]" and ?addr = "\<lambda>a. a = ''127.0.0.1''"
  have cuts: "cut_line ''get a'' [''get a'' @ [NL]]" "cut_line ''put a 1'' [''put a'', '' 1'' @ [NL]]"
    by (simp_all add: cut_line_def sent_line_def)
  have rd: "server_read [''get a'' @ [NL]] = Some (''get a'', [])"
    "server_read [''put a'', '' 1'' @ [NL]] = Some (''put a 1'', [])"
    using server_read_cut [OF _ cuts(1), of "[]"] server_read_cut [OF _ cuts(2), of "[]"] by simp_all
  have lines: "lines_of ?e1 = [(0, ''put a 1''), (1, ''get a'')]" "lines_of ?e2 = [(0, ''get a'')]"
    by (simp_all add: lines_of_def waits_def rd [simplified])
  have g: "command_of ''get a'' = Get ''a''" by code_simp
  have dl: "data_line ''put a 1''" "data_line ''get a''" by (simp_all add: data_line_def db_line_samples sample_lines g)
  have "received [''get a'' @ [NL]] = [''get a'']" "received [''put a'', '' 1'' @ [NL]] = [''put a 1'']"
    using received_Some [OF rd(1)] received_Some [OF rd(2)] by simp_all
  with dl have sd: "list_all (\<lambda>(junk, evs). sends_data evs) ?es" by (auto simp: sends_data_def)
  have cfg: "keyspace (parseConfig ?addr ''config.cfg'' (spawnConfig ''config.cfg'' empty_fs)) = ''default''"
    using parse_config_text [of ?addr default_config]
    by (simp add: spawnConfig_def read_write_file plain_config_def default_config_def HOST_DEFAULT_def
        KEYSPACE_DEFAULT_def isspace_def)
  obtain outs s' where x: "executions (\<lambda>_ _. 0) (\<lambda>src n cap. (0, [])) ?addr (\<lambda>_ _. True) ?es empty_fs = (outs, s')"
    by fastforce
  note pm = persistent_map [OF _ _ _ _ _ _ cfg sd _ x]
  have "map (map fst) outs = [[0, 1], [0]]" using pm [THEN conjunct1] by (simp add: lines [simplified])
  moreover have "map snd (concat outs) = [END_DELIM, ''1'' @ [NL] @ END_DELIM, ''1'' @ [NL] @ END_DELIM]"
    using pm [THEN conjunct2, THEN conjunct1]
    by (simp add: all_lines_def lines [simplified] responses_def sample_lines g printVector_def)
  ultimately have "outs = [[(0, END_DELIM), (1, ''1'' @ [NL] @ END_DELIM)], [(0, ''1'' @ [NL] @ END_DELIM)]]"
    by (auto simp: map_eq_Cons_conv)
  then show ?thesis by (simp only: x fst_conv)
qed

section \<open>The loop of the program and the loop of the threads\<close>

definition loop_state :: "Server \<Rightarrow> nat \<Rightarrow> loop_pc \<Rightarrow> accept_loop" where
  "loop_state srv n pc =
     \<lparr>loop_pc = pc, running_flag = running srv, listening = acceptor_open srv, spawned = n\<rparr>"

lemma use_flags:
  "use_keyspace h lz4 junk ks srv s = (r, srv', s') \<Longrightarrow>
    running srv' = running srv \<and> acceptor_open srv' = acceptor_open srv"
  by (auto simp: use_keyspace_def split: prod.splits sum.splits error.splits)

lemma dispatcher_flags:
  assumes "dispatcher h lz4 junk l srv s = (r, srv', s')"
  shows "(running srv' \<longrightarrow> running srv) \<and> acceptor_open srv' = acceptor_open srv"
proof -
  define P where "P = (\<lambda>(r :: string outcome, srv' :: Server, s :: fs).
    (running srv' \<longrightarrow> running srv) \<and> acceptor_open srv' = acceptor_open srv)"
  have either: "P x \<Longrightarrow> P y \<Longrightarrow> P (if b then x else y)" for x y b by simp
  have use: "P (use_keyspace h lz4 junk ks srv s)" for ks
    using use_flags [of h lz4 junk ks srv s] by (auto simp: P_def split: prod.split)
  have "P (dispatcher h lz4 junk l srv s)"
    unfolding dispatcher_def Let_def by (intro either use) (auto simp: P_def split: prod.split)
  then show ?thesis by (simp add: P_def assms)
qed

lemma loop_run_append: "loop_run s as t \<Longrightarrow> loop_run t bs u \<Longrightarrow> loop_run s (as @ bs) u"
  by (induction rule: loop_run.induct) (auto intro: run_step)

text \<open>The thread of a client lowers the flag, or leaves it.\<close>

lemma flag_run:
  assumes "(running srv' \<longrightarrow> running srv)" and "acceptor_open srv' = acceptor_open srv"
  shows "\<exists>acts. loop_run (loop_state srv n pc) acts (loop_state srv' n pc)"
proof (cases "running srv' = running srv")
  case True
  with assms(2) show ?thesis by (intro exI [of _ "[]"]) (simp add: loop_run_simps loop_state_def)
next
  case False
  with assms show ?thesis
    by (intro exI [of _ "[Quit]"]) (simp add: loop_run_simps loop_step_simps loop_state_def)
qed

lemma enter_run:
  assumes "enter_accept pc srv = (pc', srv')"
  shows "\<exists>acts. loop_run (loop_state srv n pc) acts (loop_state srv' n pc')"
proof -
  have "loop_run (loop_state srv n pc)
      (if pc = L_start then if acceptor_open srv then [Begin, Test] else [Begin, Test, Leave]
       else if pc = L_test then if running srv \<and> acceptor_open srv then [Test] else [Test, Leave]
       else if pc = L_close then [Leave] else [])
      (loop_state srv' n pc')"
    using assms by (auto simp: enter_accept_def Let_def loop_run_simps loop_step_simps loop_state_def split: if_splits)
  then show ?thesis by blast
qed

text \<open>The main thread comes to accept, and accept returns.\<close>

lemma accept_run:
  assumes "enter_accept pc srv = (pc', srv')"
  shows "\<exists>acts. loop_run (loop_state srv n pc) acts
    (if pc' = L_accept then loop_state srv' (n + (if r = Connected then 1 else 0)) (after_accept r) else loop_state srv' n pc')"
proof (cases "pc' = L_accept")
  case True
  have "loop_run (loop_state srv' n pc') [Accept r] (loop_state srv' (n + (if r = Connected then 1 else 0)) (after_accept r))"
    using True by (simp add: loop_run_simps loop_step_simps loop_state_def)
  with enter_run [OF assms, of n] loop_run_append True show ?thesis by (simp only: simp_thms if_True) blast
qed (use enter_run [OF assms, of n] in simp)

lemma run_loop_ends:
  assumes "run_loop h lz4 junk pc [] n ins srv s = ((out, r), n', srv', s')"
  shows "\<exists>acts. loop_run (loop_state srv n pc) acts (loop_state srv' n' L_done)"
proof -
  define srv0 where "srv0 = (if pc = L_done then srv else srv\<lparr>running := False, acceptor_open := False\<rparr>)"
  have "loop_run (loop_state srv n pc) (if pc = L_done then [] else [Stop_signal]) (loop_state srv0 n pc)"
    by (simp add: srv0_def loop_run_simps loop_step_simps loop_state_def stop_simps)
  moreover obtain pc1 srv1 where e1: "enter_accept pc srv0 = (pc1, srv1)" by fastforce
  let ?pc = "if pc1 = L_accept then after_accept Operation_aborted else pc1"
  have "\<exists>as. loop_run (loop_state srv0 n pc) as (loop_state srv1 n ?pc)"
    using accept_run [OF e1, of n Operation_aborted] by (auto split: if_splits)
  moreover obtain pc2 srv2 where e2: "enter_accept ?pc srv1 = (pc2, srv2)" by fastforce
  moreover note enter_run [OF e2, of n]
  moreover have "pc1 \<in> {L_accept, L_done}" using e1 by (cases pc) (auto simp: enter_accept_def Let_def split: if_splits)
  then have "pc2 = L_done" using e2 by (auto simp: enter_accept_def Let_def)
  moreover have "n' = n" "srv' = srv2" using assms e1 e2 by (simp_all add: Let_def srv0_def [symmetric])
  ultimately show ?thesis using loop_run_append by blast
qed

lemma run_loop_follows:
  assumes "run_loop h lz4 junk pc evs n ins srv s = ((out, Ok ()), n', srv', s')"
  shows "\<exists>acts. loop_run (loop_state srv n pc) acts (loop_state srv' n' L_done)"
  using assms
proof (induction h lz4 junk pc evs n ins srv s arbitrary: out rule: run_loop.induct)
  case (1 h lz4 junk pc n ins srv s)
  then show ?case by (rule run_loop_ends)
next
  case (2 h lz4 junk pc evs n ins srv s)
  obtain pc1 srv1 where e: "enter_accept pc srv = (pc1, srv1)" by fastforce
  show ?case using "2.IH" [OF e [symmetric] refl] 2(2) enter_run [OF e, of n] loop_run_append by (simp add: e) blast
next
  case (3 h lz4 junk pc segs evs n ins srv s)
  obtain pc1 srv1 where e: "enter_accept pc srv = (pc1, srv1)" by fastforce
  note run = accept_run [OF e, of n Connected]
  show ?case
  proof (cases "pc1 = L_accept")
    case True
    have "run_loop h lz4 junk (after_accept Connected) evs (n + 1) (ins(n := segs)) srv1 s = ((out, Ok ()), n', srv', s')"
      using 3(3) by (simp add: e True del: fun_upd_apply)
    from "3.IH"(1) [OF e [symmetric] refl True this] run True loop_run_append show ?thesis by simp blast
  next
    case False
    then show ?thesis using "3.IH"(2) [OF e [symmetric] refl False] 3(3) run loop_run_append by (simp add: e) blast
  qed
next
  case (4 h lz4 junk pc evs n ins srv s)
  obtain pc1 srv1 where e: "enter_accept pc srv = (pc1, srv1)" by fastforce
  show ?case
    using "4.IH" [OF e [symmetric] refl] 4(2) accept_run [OF e, of n Other_error] loop_run_append
    by (simp add: e split: if_splits) blast+
next
  case (5 h lz4 junk pc evs n ins srv s)
  obtain pc1 srv1 where e: "enter_accept pc srv = (pc1, srv1)" by fastforce
  show ?case
    using "5.IH" [OF e [symmetric] refl] 5(2) accept_run [OF e, of n Operation_aborted] loop_run_append
    by (simp add: e split: if_splits) blast+
next
  case (6 h lz4 junk pc c evs n ins srv s)
  show ?case
  proof (cases "server_read (ins c)")
    case None
    then show ?thesis using "6.IH"(1) 6(4) by (simp del: fun_upd_apply)
  next
    case (Some a)
    obtain l segs where a: "a = (l, segs)" by fastforce
    obtain d srv1 s1 where d: "dispatcher h lz4 junk l srv s = (d, srv1, s1)" by (metis prod_cases3)
    obtain acts where f: "loop_run (loop_state srv n pc) acts (loop_state srv1 n pc)"
      using flag_run [of srv1 srv n pc] dispatcher_flags [OF d] by blast
    have "\<exists>as. loop_run (loop_state srv1 n pc) as (loop_state srv' n' L_done)"
    proof (cases d)
      case (Inl x)
      then obtain e where x: "d = Inl (Exception e)" using 6(4) by (cases x) (simp_all add: Some a d)
      show ?thesis using "6.IH"(2) [OF Some a [symmetric] d [symmetric] x refl] 6(4) by (simp add: Some a d x del: fun_upd_apply)
    next
      case (Inr response)
      obtain out1 where "run_loop h lz4 junk pc evs n (ins(c := segs)) srv1 s1 = ((out1, Ok ()), n', srv', s')"
        using 6(4) by (auto simp: Some a d Inr split: prod.splits)
      then show ?thesis using "6.IH"(3) [OF Some a [symmetric] d [symmetric] Inr refl] by blast
    qed
    with f loop_run_append show ?thesis by blast
  qed
next
  case (7 h lz4 junk pc evs n ins srv s)
  obtain db s1 where f: "flush_db (server_db srv, s) = (db, s1)" by fastforce
  show ?case using "7.IH" [OF f [symmetric] refl] 7(2) by (simp add: f loop_state_def)
next
  case (8 h lz4 junk pc evs n ins srv s)
  let ?srv = "srv\<lparr>running := False, acceptor_open := False\<rparr>"
  have "loop_run (loop_state srv n pc) [Stop_signal] (loop_state ?srv n pc)"
    by (simp add: loop_run_simps loop_step_simps loop_state_def stop_simps)
  with "8.IH" 8(2) loop_run_append show ?case by (simp only: run_loop.simps) blast
qed



end
