(* ===== verification/Cli.thy ===== *)
theory Cli
  imports Client
begin

text \<open>
  The command line client of \<^verbatim>\<open>src/cli.cpp\<close>: the loop over the lines of standard input, with
  the exchange with the server as a parameter \<open>exchange\<close> on a state of its own, and the
  program around it. Standard output is the text printed so far.
\<close>

section \<open>Operations\<close>

text \<open>\<^verbatim>\<open>std::getline(std::cin, s)\<close> on the text that is left and the state of the stream: a stream
  that has met its end leaves \<open>s\<close> alone.\<close>

fun read_line :: "string \<times> bool \<Rightarrow> string \<Rightarrow> string \<times> (string \<times> bool)" where
  "read_line (text, False) old = (old, (text, False))"
| "read_line (text, True) old =
     (takeWhile (\<lambda>c. c \<noteq> NL) text, (tl (dropWhile (\<lambda>c. c \<noteq> NL) text), NL \<in> set text))"

text \<open>The arrow in the text of \<^verbatim>\<open>welcome\<close>, in UTF-8, and the text with the end of its line.\<close>

definition ARROW :: string where "ARROW = [CHR 0xE2, CHR 0x86, CHR 0x92]"

definition welcome_text :: string where
  "welcome_text = unlines [
     [],
     ''            taprootdb'',
     ''    ----------------------------------'',
     ''    ----------------------------------'',
     ''   '',
     ''    put     '' @ ARROW @ '' store value by key'',
     ''    del     '' @ ARROW @ '' delete key-value pair'',
     ''    get     '' @ ARROW @ '' retrieve value by key'',
     ''    mput    '' @ ARROW @ '' store multiple values by key'',
     ''    mdel    '' @ ARROW @ '' delete multiple values by key'',
     ''    mget    '' @ ARROW @ '' retrieve multiple values by key'',
     [],
     ''    show    '' @ ARROW @ '' display all key-value pairs'',
     ''    keys    '' @ ARROW @ '' display all keys'',
     ''    values  '' @ ARROW @ '' display all values'',
     [],
     ''    use     '' @ ARROW @ '' switch keyspace'',
     ''    clear   '' @ ARROW @ '' delete all data from keyspace (!)'',
     ''    stats   '' @ ARROW @ '' display stats'',
     ''    help    '' @ ARROW @ '' display commands'',
     ''    quit    '' @ ARROW @ '' close the program'',
     ''    '']"

text \<open>The loop, with the keyspace variable, the state of the exchange and the output. The result
  are their values when the loop ends.\<close>

partial_function (option) cli_loop ::
  "(string \<Rightarrow> 'w \<Rightarrow> string \<times> 'w) \<Rightarrow> string \<times> bool \<Rightarrow> string \<Rightarrow> 'w \<Rightarrow> string
     \<Rightarrow> (string \<times> 'w \<times> string) option" where
  "cli_loop exchange cin ks w out =
     (let out = out @ [NL] @ ''tap> '';
          (input, cin) = read_line cin []
      in if input = ''help'' then cli_loop exchange cin ks w (out @ welcome_text)
         else if input = ''use'' then
           (let out = out @ [NL] @ ''Enter keyspace to use'' @ [NL] @ ''> '';
                (ks, cin) = read_line cin ks
            in cli_loop exchange cin ks w out)
         else
           (let (res, w) = exchange input w; out = out @ res @ [NL]
            in if res = ''BYE'' then Some (ks, w, out) else cli_loop exchange cin ks w out))"

definition cli ::
  "(string \<Rightarrow> 'w \<Rightarrow> string \<times> 'w) \<Rightarrow> string \<times> bool \<Rightarrow> string \<Rightarrow> 'w \<Rightarrow> (string \<times> 'w \<times> string) option" where
  "cli exchange cin ks w =
     (case cli_loop exchange cin ks w welcome_text of
        None \<Rightarrow> None
      | Some (ks, w, out) \<Rightarrow> Some (ks, w, out @ [NL] @ ''Goodbye'' @ [NL] @ [NL]))"

text \<open>The configuration of the client: the file, then up to three arguments.\<close>

definition cli_config :: "(string \<Rightarrow> bool) \<Rightarrow> string list \<Rightarrow> fs \<Rightarrow> Config" where
  "cli_config is_address argv s =
     (let config = parseConfig is_address ''config.cfg'' s;
          config = (if length argv > 1 then snd (validateHost is_address config (argv ! 1)) else config);
          config = (if length argv > 2 then snd (validatePort config (argv ! 2)) else config);
          config = (if length argv > 3 then config\<lparr>keyspace := argv ! 3\<rparr> else config)
      in config)"

text \<open>The program: an exception of the constructor is not caught. The inner \<open>None\<close> is a loop that
  does not end.\<close>

definition cli_main ::
  "(string \<Rightarrow> bool) \<Rightarrow> (nat \<Rightarrow> string option) \<Rightarrow> (string \<Rightarrow> 'w \<Rightarrow> string \<times> 'w) \<Rightarrow> string list
     \<Rightarrow> string \<times> bool \<Rightarrow> fs \<Rightarrow> 'w \<Rightarrow> (string \<times> 'w \<times> string) option outcome" where
  "cli_main is_address connect exchange argv cin s w =
     (let config = cli_config is_address argv s
      in case Client_ctor is_address connect config of
           Inl _ \<Rightarrow> Fault Terminated
         | Inr _ \<Rightarrow> Ok (cli exchange cin (keyspace config) w))"

section \<open>The loop\<close>

text \<open>C36. The loop ends only with the answer \<open>BYE\<close>: as long as the exchange does not give it, from
  a state that satisfies what the exchange keeps, the program does not return, not even at
  the end of its input.\<close>
theorem cli_ends_only_with_BYE:
  assumes "P w" and "\<And>input w. P w \<Longrightarrow> fst (exchange input w) \<noteq> ''BYE'' \<and> P (snd (exchange input w))"
  shows "cli exchange cin ks w = None"
proof -
  have ends: "(\<forall>input w. P w \<longrightarrow> fst (exchange input w) \<noteq> ''BYE'' \<and> P (snd (exchange input w))) \<Longrightarrow> \<not> P w"
    if "cli_loop exchange cin ks w out = Some r" for out r
    using that
  proof (induction rule: cli_loop.raw_induct [rotated, consumes 1, case_names step])
    case (step cli_loop exchange cin ks w out r)
    obtain input cin1 where i: "read_line cin [] = (input, cin1)" by (rule prod.exhaust)
    obtain ks2 cin2 where k: "read_line cin1 ks = (ks2, cin2)" by (rule prod.exhaust)
    obtain res w1 where e: "exchange input w = (res, w1)" by (rule prod.exhaust)
    consider out' where "cli_loop exchange cin1 ks w out' = Some r"
      | out' where "cli_loop exchange cin2 ks2 w out' = Some r"
      | "res = ''BYE''" | out' where "cli_loop exchange cin1 ks w1 out' = Some r"
      using step(2) by (auto simp: i k e Let_def split: if_splits)
    then show ?case
    proof cases
      case 4
      then have "\<not> P w1" using step(1,3) by blast
      then show ?thesis using step(3) e by (metis snd_conv)
    next
      case 3
      then show ?thesis using step(3) e by (metis fst_conv)
    qed (use step(1,3) in blast)+
  qed
  have "cli_loop exchange cin ks w out = None" for out
  proof (cases "cli_loop exchange cin ks w out")
    case (Some r)
    from ends [OF this] assms(2) have "\<not> P w" by blast
    with assms(1) show ?thesis by blast
  qed
  then show ?thesis by (simp add: cli_def)
qed

theorem cli_ends_only_with_BYE_witness:
  "cli (\<lambda>input n. (if input = ''quit'' \<and> n = (0::nat) then ''BYE'' else [], Suc n)) (''get a'' @ [NL] @ ''quit'', True) ''k'' 1 = None"
  by (rule cli_ends_only_with_BYE [where P = "\<lambda>n. 0 < n"]) simp_all

text \<open>What the loop prints for a list of lines without \<open>use\<close>, and the state after them.\<close>

fun transcript :: "(string \<Rightarrow> 'w \<Rightarrow> string \<times> 'w) \<Rightarrow> string list \<Rightarrow> 'w \<Rightarrow> string" where
  "transcript exchange [] w = []"
| "transcript exchange (l # ls) w =
     [NL] @ ''tap> '' @ (if l = ''help'' then welcome_text @ transcript exchange ls w
       else fst (exchange l w) @ [NL] @ transcript exchange ls (snd (exchange l w)))"

lemma read_line_line:
  "NL \<notin> set l \<Longrightarrow> read_line (l @ NL # r, True) old = (l, (r, True))"
  by simp

lemma transcript_line:
  "transcript exchange (l # ls) w = [NL] @ ''tap> '' @ (if l = ''help'' then welcome_text @ transcript exchange ls w
     else fst (exchange l w) @ [NL] @ transcript exchange ls (snd (exchange l w)))"
  by (simp only: transcript.simps)

lemma loop_ends_at_BYE:
  assumes "list_all (\<lambda>l. NL \<notin> set l \<and> l \<noteq> ''use'') (ls @ [q])" and "q \<noteq> ''help''"
    and "w' = fold (\<lambda>l w. snd (exchange l w)) (filter (\<lambda>l. l \<noteq> ''help'') ls) w"
    and "\<And>us l vs. filter (\<lambda>l. l \<noteq> ''help'') ls = us @ l # vs \<Longrightarrow>
      fst (exchange l (fold (\<lambda>l w. snd (exchange l w)) us w)) \<noteq> ''BYE''"
    and "fst (exchange q w') = ''BYE''"
  shows "cli_loop exchange (unlines (ls @ [q]) @ rest, True) ks w out
    = Some (ks, snd (exchange q w'), out @ transcript exchange (ls @ [q]) w)"
  using assms
proof (induction ls arbitrary: w out)
  case Nil
  then have q: "NL \<notin> set q" "q \<noteq> ''use''" by simp_all
  obtain w1 where "exchange q w = (''BYE'', w1)" using Nil(3,5) by (cases "exchange q w") simp
  with q Nil(2,3) show ?case by (subst cli_loop.simps) (simp add: read_line_line Let_def)
next
  case (Cons l ls)
  have l: "NL \<notin> set l" "l \<noteq> ''use''" "list_all (\<lambda>l. NL \<notin> set l \<and> l \<noteq> ''use'') (ls @ [q])"
    using Cons.prems(1) by simp_all
  let ?rest = "unlines (ls @ [q]) @ rest" and ?t = "transcript exchange (ls @ [q])"
  let ?out = "out @ [NL] @ ''tap> ''"
  have read: "read_line (unlines ((l # ls) @ [q]) @ rest, True) [] = (l, (?rest, True))"
    using read_line_line [OF l(1), of ?rest] by simp
  note tr = transcript_line [of exchange l "ls @ [q]" w, folded append_Cons]
  show ?case
  proof (cases "l = ''help''")
    case True
    have "cli_loop exchange (?rest, True) ks w (?out @ welcome_text)
        = Some (ks, snd (exchange q w'), (?out @ welcome_text) @ ?t w)"
      using Cons.prems(2-5) True by (intro Cons.IH [OF l(3)]) simp_all
    then show ?thesis
      by (subst cli_loop.simps) (simp only: read [unfolded True] tr [unfolded True] Let_def True if_True prod.case refl
          simp_thms append_assoc)
  next
    case False
    obtain res w1 where e: "exchange l w = (res, w1)" by (rule prod.exhaust)
    have "res \<noteq> ''BYE''" using Cons.prems(4) [of "[]" l] False e by simp
    moreover have "cli_loop exchange (?rest, True) ks w1 (?out @ res @ [NL])
        = Some (ks, snd (exchange q w'), (?out @ res @ [NL]) @ ?t w1)"
    proof (rule Cons.IH [OF l(3) Cons.prems(2)])
      show "w' = fold (\<lambda>l w. snd (exchange l w)) (filter (\<lambda>l. l \<noteq> ''help'') ls) w1"
        using Cons.prems(3) False e by simp
      show "fst (exchange q w') = ''BYE''" by (rule Cons.prems(5))
      fix us l' vs assume "filter (\<lambda>l. l \<noteq> ''help'') ls = us @ l' # vs"
      with Cons.prems(4) [of "l # us" l' vs] False e
      show "fst (exchange l' (fold (\<lambda>l w. snd (exchange l w)) us w1)) \<noteq> ''BYE''" by simp
    qed
    ultimately show ?thesis using False l(2) e
      by (subst cli_loop.simps) (simp only: read tr Let_def if_False prod.case append_assoc
          fst_conv snd_conv)
  qed
qed

end
