(* ===== verification/LZ4.thy ===== *)
theory LZ4
  imports Snapshot
begin

unbundle bit_operations_syntax

text \<open>
  The compressor the snapshot uses: \<^verbatim>\<open>LZ4_compress_default\<close> of \<^verbatim>\<open>third-party/lz4/lz4.c\<close>, which
  runs \<^verbatim>\<open>LZ4_compress_generic_validated\<close> on a fresh state, without a dictionary, with
  acceleration 1, on a 64-bit little-endian machine. A pointer into the source is its index,
  \<^verbatim>\<open>op\<close> is the number of bytes written. The bytes that wide copies write past \<^verbatim>\<open>op\<close> are
  written again before they count and do not appear.
\<close>

section \<open>Constants and memory\<close>

type_synonym u32 = "32 word"
type_synonym u64 = "64 word"

datatype tableType_t = ByU32 | ByU16

definition MINMATCH :: nat where "MINMATCH = 4"
definition LASTLITERALS :: nat where "LASTLITERALS = 5"
definition MFLIMIT :: nat where "MFLIMIT = 12"
definition LZ4_minLength :: nat where "LZ4_minLength = MFLIMIT + 1"
definition LZ4_DISTANCE_MAX :: nat where "LZ4_DISTANCE_MAX = 65535"
definition ML_BITS :: nat where "ML_BITS = 4"
definition ML_MASK :: nat where "ML_MASK = 2 ^ ML_BITS - 1"
definition RUN_BITS :: nat where "RUN_BITS = 8 - ML_BITS"
definition RUN_MASK :: nat where "RUN_MASK = 2 ^ RUN_BITS - 1"
definition LZ4_64Klimit :: nat where "LZ4_64Klimit = 64 * 1024 + (MFLIMIT - 1)"
definition LZ4_skipTrigger :: nat where "LZ4_skipTrigger = 6"
definition LZ4_HASHLOG :: nat where "LZ4_HASHLOG = 12"

lemmas lz4_constants [simp] = MINMATCH_def LASTLITERALS_def MFLIMIT_def LZ4_minLength_def LZ4_DISTANCE_MAX_def
  ML_BITS_def ML_MASK_def RUN_BITS_def RUN_MASK_def LZ4_skipTrigger_def

fun le_word :: "u8 list \<Rightarrow> 'a :: len word" where
  "le_word [] = 0"
| "le_word (b # bs) = ucast b OR push_bit 8 (le_word bs)"

definition LZ4_read16 :: "u8 list \<Rightarrow> nat \<Rightarrow> u16" where
  "LZ4_read16 src p = le_word (take 2 (drop p src))"

definition LZ4_read32 :: "u8 list \<Rightarrow> nat \<Rightarrow> u32" where
  "LZ4_read32 src p = le_word (take 4 (drop p src))"

definition LZ4_read_ARCH :: "u8 list \<Rightarrow> nat \<Rightarrow> u64" where
  "LZ4_read_ARCH src p = le_word (take 8 (drop p src))"

definition LZ4_writeLE16 :: "u16 \<Rightarrow> u8 list" where
  "LZ4_writeLE16 value = [ucast value, ucast (drop_bit 8 value)]"

section \<open>Common functions\<close>

text \<open>\<^verbatim>\<open>__builtin_ctzll\<close>: the number of the lowest bit that is set.\<close>

function ctz_from :: "nat \<Rightarrow> u64 \<Rightarrow> nat" where
  "ctz_from i w = (if 64 \<le> i \<or> bit w i then i else ctz_from (Suc i) w)"
  by pat_completeness auto
termination
  by (relation "measure (\<lambda>(i, w). 64 - i)") auto

declare ctz_from.simps [simp del]

definition LZ4_NbCommonBytes :: "u64 \<Rightarrow> nat" where
  "LZ4_NbCommonBytes val = ctz_from 0 val div 8"

text \<open>The loop of \<^verbatim>\<open>LZ4_count\<close> over eight bytes at a time: where it stops, and the number of bytes
  that are still equal there if a difference stopped it.\<close>

function count_loop :: "u8 list \<Rightarrow> nat \<Rightarrow> nat \<Rightarrow> nat \<Rightarrow> nat \<times> nat \<times> nat option" where
  "count_loop src pIn pMatch pInLimit =
     (if pIn + 7 < pInLimit
      then let diff = LZ4_read_ARCH src pMatch XOR LZ4_read_ARCH src pIn
           in if diff = 0 then count_loop src (pIn + 8) (pMatch + 8) pInLimit
              else (pIn, pMatch, Some (LZ4_NbCommonBytes diff))
      else (pIn, pMatch, None))"
  by pat_completeness auto
termination
  by (relation "measure (\<lambda>(src, pIn, pMatch, pInLimit). pInLimit - pIn)") auto

declare count_loop.simps [simp del]

definition LZ4_count :: "u8 list \<Rightarrow> nat \<Rightarrow> nat \<Rightarrow> nat \<Rightarrow> nat" where
  "LZ4_count src pIn pMatch pInLimit =
     (let pStart = pIn in
      case count_loop src pIn pMatch pInLimit of
        (pIn, pMatch, Some k) \<Rightarrow> pIn + k - pStart
      | (pIn, pMatch, None) \<Rightarrow>
          (let (pIn, pMatch) = (if pIn + 3 < pInLimit \<and> LZ4_read32 src pMatch = LZ4_read32 src pIn
                                then (pIn + 4, pMatch + 4) else (pIn, pMatch));
               (pIn, pMatch) = (if pIn + 1 < pInLimit \<and> LZ4_read16 src pMatch = LZ4_read16 src pIn
                                then (pIn + 2, pMatch + 2) else (pIn, pMatch));
               pIn = (if pIn < pInLimit \<and> src ! pMatch = src ! pIn then pIn + 1 else pIn)
           in pIn - pStart))"

section \<open>The hash table\<close>

definition LZ4_hash4 :: "u32 \<Rightarrow> tableType_t \<Rightarrow> nat" where
  "LZ4_hash4 sequence tableType =
     (if tableType = ByU16
      then unat (drop_bit (MINMATCH * 8 - (LZ4_HASHLOG + 1)) (sequence * 2654435761))
      else unat (drop_bit (MINMATCH * 8 - LZ4_HASHLOG) (sequence * 2654435761)))"

definition LZ4_hash5 :: "u64 \<Rightarrow> tableType_t \<Rightarrow> nat" where
  "LZ4_hash5 sequence tableType =
     (let hashLog = (if tableType = ByU16 then LZ4_HASHLOG + 1 else LZ4_HASHLOG)
      in unat (drop_bit (64 - hashLog) (push_bit 24 sequence * 889523592379)))"

definition LZ4_hashPosition :: "u8 list \<Rightarrow> nat \<Rightarrow> tableType_t \<Rightarrow> nat" where
  "LZ4_hashPosition src p tableType =
     (if tableType \<noteq> ByU16 then LZ4_hash5 (LZ4_read_ARCH src p) tableType
      else LZ4_hash4 (LZ4_read32 src p) tableType)"

type_synonym hash_table = "nat \<Rightarrow> nat"

text \<open>The entries have 32 or 16 bits.\<close>

definition LZ4_putIndexOnHash :: "nat \<Rightarrow> nat \<Rightarrow> hash_table \<Rightarrow> tableType_t \<Rightarrow> hash_table" where
  "LZ4_putIndexOnHash idx h table tableType =
     table(h := idx mod (case tableType of ByU32 \<Rightarrow> 2 ^ 32 | ByU16 \<Rightarrow> 2 ^ 16))"

definition LZ4_getIndexOnHash :: "nat \<Rightarrow> hash_table \<Rightarrow> tableType_t \<Rightarrow> nat" where
  "LZ4_getIndexOnHash h table tableType = table h"

section \<open>Searching\<close>

definition mflimitPlusOne :: "u8 list \<Rightarrow> nat" where
  "mflimitPlusOne src = length src - MFLIMIT + 1"

definition matchlimit :: "u8 list \<Rightarrow> nat" where
  "matchlimit src = length src - LASTLITERALS"

text \<open>The loop that looks for a match: where, with what, and the table it leaves; \<open>None\<close> is the jump
  to the last literals.\<close>

function find_match ::
  "u8 list \<Rightarrow> tableType_t \<Rightarrow> hash_table \<Rightarrow> nat \<Rightarrow> nat \<Rightarrow> nat \<Rightarrow> nat \<Rightarrow> (nat \<times> nat \<times> hash_table) option" where
  "find_match src tableType table forwardIp forwardH step searchMatchNb =
     (let h = forwardH; current = forwardIp; matchIndex = LZ4_getIndexOnHash h table tableType; ip = forwardIp
      in if forwardIp + step > mflimitPlusOne src then None
         else let forwardIp = forwardIp + step;
                  step = searchMatchNb div 2 ^ LZ4_skipTrigger;
                  forwardH = LZ4_hashPosition src forwardIp tableType;
                  table = LZ4_putIndexOnHash current h table tableType
              in if \<not> (tableType \<noteq> ByU16 \<and> matchIndex + LZ4_DISTANCE_MAX < current)
                    \<and> LZ4_read32 src matchIndex = LZ4_read32 src ip
                 then Some (ip, matchIndex, table)
                 else find_match src tableType table forwardIp forwardH step (searchMatchNb + 1))"
  by pat_completeness auto
termination
  by (relation "measures [\<lambda>(src, tt, t, f, fh, st, nb). mflimitPlusOne src + 1 - f,
        \<lambda>(src, tt, t, f, fh, st, nb). 64 - nb, \<lambda>(src, tt, t, f, fh, st, nb). if st = 0 then 1 else 0]")
    (auto simp: Let_def)

declare find_match.simps [simp del]

text \<open>Catching up: the match is extended backwards. Before the first comparison \<^verbatim>\<open>ip > anchor\<close> holds (the
  code asserts it).\<close>

fun catch_up :: "u8 list \<Rightarrow> nat \<Rightarrow> nat \<Rightarrow> nat \<Rightarrow> nat \<times> nat" where
  "catch_up src anchor ip 0 = (ip, 0)"
| "catch_up src anchor ip (Suc m) =
     (if ip > anchor \<and> src ! (ip - 1) = src ! m then catch_up src anchor (ip - 1) m else (ip, Suc m))"

section \<open>Writing\<close>

text \<open>A length that did not fit into the token: for literals one byte after the other, for matches
  four at a time.\<close>

fun literal_length :: "nat \<Rightarrow> u8 list" where
  "literal_length len = (if 255 \<le> len then 255 # literal_length (len - 255) else [of_nat len])"

fun match_length :: "nat \<Rightarrow> u8 list" where
  "match_length matchCode =
     (if 4 * 255 \<le> matchCode then replicate 4 255 @ match_length (matchCode - 4 * 255)
      else replicate (matchCode div 255) 255 @ [of_nat (matchCode mod 255)])"

declare literal_length.simps [simp del] match_length.simps [simp del]

definition literal_token :: "nat \<Rightarrow> u8" where
  "literal_token litLength = push_bit ML_BITS (of_nat (if litLength \<ge> RUN_MASK then RUN_MASK else litLength))"

definition literal_part :: "u8 list \<Rightarrow> u8 list" where
  "literal_part literals =
     (if length literals \<ge> RUN_MASK then literal_length (length literals - RUN_MASK) else []) @ literals"

text \<open>One sequence. The lower half of the token is added when the length of the match is known.\<close>

definition write_sequence :: "u8 list \<Rightarrow> nat \<Rightarrow> nat \<Rightarrow> u8 list" where
  "write_sequence literals offset matchCode =
     (literal_token (length literals) + of_nat (if matchCode \<ge> ML_MASK then ML_MASK else matchCode))
       # literal_part literals @ LZ4_writeLE16 (of_nat offset)
       @ (if matchCode \<ge> ML_MASK then match_length (matchCode - ML_MASK) else [])"

text \<open>The test for the end of the output: \<open>None\<close> is the directive \<^verbatim>\<open>notLimited\<close>.\<close>

definition exceeds :: "nat option \<Rightarrow> nat \<Rightarrow> bool" where
  "exceeds olimit p = (case olimit of None \<Rightarrow> False | Some limit \<Rightarrow> limit < p)"

definition last_literals :: "u8 list \<Rightarrow> nat option \<Rightarrow> nat \<Rightarrow> nat \<Rightarrow> u8 list option" where
  "last_literals src olimit oPos anchor =
     (let lastRun = length src - anchor
      in if exceeds olimit (oPos + lastRun + 1 + (lastRun + 255 - RUN_MASK) div 255) then None
         else Some (literal_token lastRun # literal_part (drop anchor src)))"

section \<open>The main loop\<close>

text \<open>The search always starts on the byte behind \<open>anchor\<close>; \<open>Some\<close> is the label \<^verbatim>\<open>_next_match\<close>,
  with the number of literals before the match and the index it matches. The result is
  what is written from \<open>oPos\<close> on, and \<open>None\<close> if there is no room.\<close>

function LZ4_loop ::
  "u8 list \<Rightarrow> tableType_t \<Rightarrow> nat option \<Rightarrow> hash_table \<Rightarrow> nat \<Rightarrow> nat \<Rightarrow> (nat \<times> nat) option \<Rightarrow> u8 list option" where
  "LZ4_loop src tableType olimit table oPos anchor None =
     (case find_match src tableType table (anchor + 1) (LZ4_hashPosition src (anchor + 1) tableType) 1
             (1 * 2 ^ LZ4_skipTrigger) of
        None \<Rightarrow> last_literals src olimit oPos anchor
      | Some (ip, match, table) \<Rightarrow>
          (let (ip, match) = catch_up src anchor ip match;
               litLength = ip - anchor
           in if exceeds olimit (oPos + 1 + litLength + (2 + 1 + LASTLITERALS) + litLength div 255) then None
              else LZ4_loop src tableType olimit table oPos anchor (Some (litLength, match))))"
| "LZ4_loop src tableType olimit table oPos anchor (Some (litLength, match)) =
     (let ip = anchor + litLength;
          literals = take litLength (drop anchor src);
          matchCode = LZ4_count src (ip + MINMATCH) (match + MINMATCH) (matchlimit src);
          sequence = write_sequence literals (ip - match) matchCode;
          nextPos = oPos + length sequence;
          nextAnchor = ip + (matchCode + MINMATCH)
      in if exceeds olimit (oPos + 1 + length (literal_part literals) + 2 + (1 + LASTLITERALS) + (matchCode + 240) div 255)
         then None
         else map_option (append sequence)
           (if nextAnchor \<ge> mflimitPlusOne src then last_literals src olimit nextPos nextAnchor
            else let ip = nextAnchor;
                     table = LZ4_putIndexOnHash (ip - 2) (LZ4_hashPosition src (ip - 2) tableType) table tableType;
                     h = LZ4_hashPosition src ip tableType;
                     matchIndex = LZ4_getIndexOnHash h table tableType;
                     table = LZ4_putIndexOnHash ip h table tableType
                 in if (tableType = ByU16 \<or> matchIndex + LZ4_DISTANCE_MAX \<ge> ip)
                       \<and> LZ4_read32 src matchIndex = LZ4_read32 src ip
                    then LZ4_loop src tableType olimit table nextPos ip (Some (0, matchIndex))
                    else LZ4_loop src tableType olimit table nextPos ip None))"
  by pat_completeness auto
termination
  by (relation "measures [\<lambda>(src, tt, ol, t, p, a, m). mflimitPlusOne src - a, \<lambda>(src, tt, ol, t, p, a, m). if m = None then 1 else 0]")
    (auto split: if_splits)

declare LZ4_loop.simps [simp del]

definition LZ4_compress_generic :: "u8 list \<Rightarrow> nat option \<Rightarrow> tableType_t \<Rightarrow> u8 list option" where
  "LZ4_compress_generic src olimit tableType =
     (if length src < LZ4_minLength then last_literals src olimit 0 0
      else let table = LZ4_putIndexOnHash 0 (LZ4_hashPosition src 0 tableType) (\<lambda>h. 0) tableType
           in LZ4_loop src tableType olimit table 0 0 None)"

text \<open>The size and the capacity are \<^verbatim>\<open>int\<close>s; the result is the size, 0 if there is no room or the size
  is not supported, and what has been written.\<close>

definition LZ4_compress_default :: lz4 where
  "LZ4_compress_default source inputSize maxOutputSize =
     (let olimit = (if maxOutputSize \<ge> LZ4_compressBound inputSize then None else Some (nat maxOutputSize));
          tableType = (if inputSize < int LZ4_64Klimit then ByU16 else ByU32)
      in if uint (of_int inputSize :: u32) > LZ4_MAX_INPUT_SIZE then (0, [])
         else case LZ4_compress_generic (take (nat inputSize) source) olimit tableType of
                None \<Rightarrow> (0, [])
              | Some dst \<Rightarrow> (int (length dst), dst))"

end
