(* ===== verification/LZ4_Format.thy ===== *)
theory LZ4_Format
  imports LZ4
begin

text \<open>
  The block format of LZ4: its decoder, \<^verbatim>\<open>LZ4_decompress_unsafe_generic\<close> of \<^verbatim>\<open>lz4.c\<close> without a
  prefix and a dictionary, as the meaning of a block, and what it makes of the sequences the
  compressor writes. The C code trusts its input to go on; here a read past the end and the
  offset 0, a copy of bytes that were never written, are errors.
\<close>

section \<open>The decoder\<close>

fun read_long_length_no_check :: "u8 list \<Rightarrow> (nat \<times> u8 list) option" where
  "read_long_length_no_check [] = None"
| "read_long_length_no_check (b # bs) =
     (if b = 255 then map_option (\<lambda>(l, r). (255 + l, r)) (read_long_length_no_check bs) else Some (unat b, bs))"

definition read_length :: "nat \<Rightarrow> u8 list \<Rightarrow> (nat \<times> u8 list) option" where
  "read_length nibble bs =
     (if nibble = 15 then map_option (\<lambda>(l, r). (15 + l, r)) (read_long_length_no_check bs) else Some (nibble, bs))"

text \<open>The copy byte by byte, in which the match may overlap what is being written.\<close>

fun copy_match :: "u8 list \<Rightarrow> nat \<Rightarrow> nat \<Rightarrow> u8 list" where
  "copy_match out offset 0 = out"
| "copy_match out offset (Suc ml) = copy_match (out @ [out ! (length out - offset)]) offset ml"

lemma read_long_shorter: "read_long_length_no_check bs = Some (l, r) \<Longrightarrow> length r \<le> length bs"
  by (induction bs arbitrary: l r) (auto split: if_splits intro: le_SucI)

lemma read_length_shorter: "read_length m bs = Some (l, r) \<Longrightarrow> length r \<le> length bs"
  by (auto simp: read_length_def dest: read_long_shorter split: if_splits)

lemma drop_two_shorter: "b0 # b1 # r = drop n bs \<Longrightarrow> length r \<le> length bs"
  by (metis diff_le_self le_SucI le_trans length_Cons length_drop nat_le_linear not_less_eq_eq)

text \<open>The result is what was written, with the input behind the block.\<close>

function decompress_unsafe :: "u8 list \<Rightarrow> u8 list \<Rightarrow> nat \<Rightarrow> (u8 list \<times> u8 list) option" where
  "decompress_unsafe bs out decompressedSize =
     (case bs of
        [] \<Rightarrow> None
      | token # bs \<Rightarrow>
          (case read_length (unat (drop_bit ML_BITS token)) bs of
             None \<Rightarrow> None
           | Some (ll, bs) \<Rightarrow>
               if decompressedSize - length out < ll \<or> length bs < ll then None
               else let out = out @ take ll bs; bs = drop ll bs
                    in if decompressedSize - length out < MFLIMIT
                       then (if length out = decompressedSize then Some (out, bs) else None)
                       else (case bs of
                               b0 # b1 # bs \<Rightarrow>
                                 (case read_length (unat (token AND 15)) bs of
                                    None \<Rightarrow> None
                                  | Some (ml, bs) \<Rightarrow>
                                      let offset = unat b0 + 256 * unat b1; ml = ml + MINMATCH
                                      in if decompressedSize - length out < ml then None
                                         else if offset > length out \<or> offset = 0 then None
                                         else let out = copy_match out offset ml
                                              in if decompressedSize - length out < LASTLITERALS then None
                                                 else decompress_unsafe bs out decompressedSize)
                             | _ \<Rightarrow> None)))"
  by pat_completeness auto
termination
  by (relation "measure (\<lambda>(bs, out, n). length bs)") (auto dest!: read_length_shorter drop_two_shorter)

declare decompress_unsafe.simps [simp del]

section \<open>Lengths and tokens\<close>

lemma literal_length_eq: "literal_length len = replicate (len div 255) 255 @ [of_nat (len mod 255)]"
proof (induction len rule: literal_length.induct)
  case (1 len)
  show ?case
  proof (cases "255 \<le> len")
    case True
    then have "len div 255 = Suc ((len - 255) div 255)" "len mod 255 = (len - 255) mod 255"
      by (simp_all add: le_div_geq le_mod_geq)
    with True 1 show ?thesis by (subst literal_length.simps) simp
  qed (subst literal_length.simps, simp)
qed

text \<open>Four bytes at a time or one: the same text.\<close>

lemma match_length_eq: "match_length n = literal_length n"
proof (induction n rule: match_length.induct)
  case (1 n)
  show ?case
  proof (cases "4 * 255 \<le> n")
    case True
    then obtain m where n: "n = m + 4 * 255" by (metis le_add_diff_inverse2)
    have "n div 255 = m div 255 + 4" "n mod 255 = m mod 255"
      unfolding n using div_mult_self1 [of 255 m 4] mod_mult_self1 [of m 4 255] by simp_all
    moreover have "match_length m = literal_length m" using 1 [OF True] by (simp add: n)
    moreover have "match_length n = replicate 4 255 @ match_length m" using True by (subst match_length.simps) (simp add: n)
    ultimately show ?thesis by (simp add: literal_length_eq add.commute flip: replicate_add append_assoc)
  next
    case False
    then show ?thesis by (subst match_length.simps) (simp add: literal_length_eq)
  qed
qed

lemma read_long_replicate:
  "m < 255 \<Longrightarrow> read_long_length_no_check (replicate k 255 @ of_nat m # r) = Some (255 * k + m, r)"
proof (induction k)
  case 0
  have "(of_nat m :: u8) \<noteq> 255"
  proof
    assume "(of_nat m :: u8) = 255"
    then have "unat (of_nat m :: u8) = 255" by simp
    with 0 show False by (simp add: unat_of_nat)
  qed
  with 0 show ?case by (simp add: unat_of_nat)
qed simp

lemma read_literal_length: "read_long_length_no_check (literal_length len @ r) = Some (len, r)"
  using read_long_replicate [of "len mod 255" "len div 255" r] by (simp add: literal_length_eq)

lemma length_literal_length: "length (literal_length len) = len div 255 + 1"
  by (simp add: literal_length_eq)

lemma unat_parts:
  "unat (drop_bit n (w :: 'a :: len word)) = unat w div 2 ^ n"
  "unat (take_bit n w) = unat w mod 2 ^ n"
  "unat (ucast w :: 'b :: len word) = unat w mod 2 ^ LENGTH('b)"
proof -
  have "take_bit LENGTH('a) (unat w) = unat w" by (simp add: take_bit_nat_eq_self)
  then show "unat (drop_bit n w) = unat w div 2 ^ n"
    by (simp only: unsigned_drop_bit_eq flip: drop_bit_eq_div)
  show "unat (take_bit n w) = unat w mod 2 ^ n"
    by (subst take_bit_eq_mod [symmetric]) (simp add: unsigned_take_bit_eq)
  show "unat (ucast w :: 'b word) = unat w mod 2 ^ LENGTH('b)"
    by (subst take_bit_eq_mod [symmetric]) (simp add: unsigned_ucast_eq)
qed

lemma unat_u8: "n < 256 \<Longrightarrow> unat (of_nat n :: u8) = n"
  by (simp add: unat_of_nat)

lemma literal_token_nibbles:
  assumes "m \<le> 15"
  shows "unat (drop_bit ML_BITS (literal_token l + of_nat m)) = min l 15"
    and "unat ((literal_token l + of_nat m) AND 15) = m"
proof -
  let ?k = "min l 15"
  have t: "literal_token l + of_nat m = (of_nat (16 * ?k + m) :: u8)"
    by (auto simp: literal_token_def push_bit_eq_mult min_def)
  have u: "unat (of_nat (16 * ?k + m) :: u8) = 16 * ?k + m"
    by (rule unat_u8) (use assms in simp)
  have "unat (drop_bit 4 (of_nat (16 * ?k + m) :: u8)) = (16 * ?k + m) div 16"
    unfolding unat_parts u by simp
  then show "unat (drop_bit ML_BITS (literal_token l + of_nat m)) = min l 15"
    using assms unfolding t by (simp del: of_nat_add of_nat_mult)
  have "(of_nat (16 * ?k + m) :: u8) AND 15 = take_bit 4 (of_nat (16 * ?k + m))"
    by (simp add: take_bit_eq_mask mask_eq_exp_minus_1 del: of_nat_add of_nat_mult)
  then have "unat ((of_nat (16 * ?k + m) :: u8) AND 15) = unat (of_nat (16 * ?k + m) :: u8) mod 2 ^ 4"
    by (simp only: unat_parts)
  then have "unat ((of_nat (16 * ?k + m) :: u8) AND 15) = (16 * ?k + m) mod 16" unfolding u by simp
  then show "unat ((literal_token l + of_nat m) AND 15) = m"
    using assms unfolding t by simp
qed

lemma literal_token_last: "unat (drop_bit ML_BITS (literal_token l)) = min l 15"
  using literal_token_nibbles(1) [of 0 l] by simp

lemma read_literal_part:
  "read_length (min (length ls) 15) (literal_part ls @ r) = Some (length ls, ls @ r)"
  by (auto simp: read_length_def literal_part_def read_literal_length min_def)

lemma read_match_part:
  "read_length (if matchCode \<ge> 15 then 15 else matchCode)
     ((if matchCode \<ge> 15 then match_length (matchCode - 15) else []) @ r) = Some (matchCode, r)"
  by (simp add: read_length_def match_length_eq read_literal_length)

lemma write_read_LE16:
  assumes "offset < 65536"
  shows "unat (ucast (of_nat offset :: u16) :: u8) + 256 * unat (ucast (drop_bit 8 (of_nat offset :: u16)) :: u8) = offset"
proof -
  let ?w = "of_nat offset :: u16"
  have u: "unat ?w = offset" using assms by (simp add: unat_of_nat)
  have "unat (ucast ?w :: u8) = offset mod 256" "unat (ucast (drop_bit 8 ?w) :: u8) = offset div 256 mod 256"
    unfolding unat_parts u by simp_all
  then show ?thesis using assms by simp
qed

lemma length_copy_match [simp]: "length (copy_match out offset ml) = length out + ml"
  by (induction out offset ml rule: copy_match.induct) simp_all

section \<open>Decoding what is written\<close>

text \<open>A sequence with its literals, and the last literals.\<close>

lemma decompress_sequence:
  assumes "length out + length ls + 12 \<le> n" and "length out + length ls + (matchCode + 4) + 5 \<le> n"
    and "0 < offset" and "offset \<le> length out + length ls" and "offset < 65536"
  shows "decompress_unsafe (write_sequence ls offset matchCode @ r) out n
    = decompress_unsafe r (copy_match (out @ ls) offset (matchCode + 4)) n"
proof -
  let ?m = "if matchCode \<ge> 15 then 15 else matchCode"
  let ?rest = "LZ4_writeLE16 (of_nat offset) @ (if matchCode \<ge> 15 then match_length (matchCode - 15) else []) @ r"
  have ws: "write_sequence ls offset matchCode @ r = (literal_token (length ls) + of_nat ?m) # literal_part ls @ ?rest"
    by (simp add: write_sequence_def)
  have m: "?m \<le> 15" by simp
  note nib = literal_token_nibbles [OF m, of "length ls"]
  have room: "\<not> n - length out < length ls" "\<not> n - (length out + length ls) < 12"
    "\<not> n - (length out + length ls) < matchCode + 4" "\<not> n - (length out + length ls + (matchCode + 4)) < 5"
    "\<not> length out + length ls < offset" "offset \<noteq> 0"
    using assms(1-4) by simp_all
  show ?thesis
    unfolding ws
    by (subst decompress_unsafe.simps)
      (simp add: nib [simplified] read_literal_part read_match_part LZ4_writeLE16_def write_read_LE16 [OF assms(5)]
        Let_def room del: if_split)
qed

lemma decompress_last:
  assumes "length out + length ls = n"
  shows "decompress_unsafe (literal_token (length ls) # literal_part ls @ r) out n = Some (out @ ls, r)"
  using assms
  by (subst decompress_unsafe.simps) (simp add: literal_token_last [simplified] read_literal_part Let_def)

text \<open>The copy continues a text in which the bytes from here on are those before.\<close>

lemma copy_match_text:
  assumes "out = take p src" and "p + ml \<le> length src" and "0 < offset" and "offset \<le> p"
    and "\<forall>k < ml. src ! (p + k) = src ! (p - offset + k)"
  shows "copy_match out offset ml = take (p + ml) src"
  using assms
proof (induction out offset ml arbitrary: p rule: copy_match.induct)
  case (2 out offset ml)
  have p: "p < length src" "length out = p" using 2(2,3) by simp_all
  have "out ! (length out - offset) = src ! p"
    using 2(2,4,5,6) p by (simp add: nth_take [of "p - offset" p src]) (metis add_0_right zero_less_Suc)
  then have "out @ [out ! (length out - offset)] = take (Suc p) src"
    using p(1) 2(2) by (simp add: take_Suc_conv_app_nth)
  moreover have "src ! (Suc p + k) = src ! (Suc p - offset + k)" if "k < ml" for k
    using 2(5,6) that by (metis Suc_diff_le Suc_less_eq add_Suc add_Suc_right)
  ultimately have "copy_match (out @ [out ! (length out - offset)]) offset ml = take (Suc p + ml) src"
    using 2(1) [of "Suc p"] 2(3-5) by simp
  then show ?case by simp
qed simp

end
