(* ===== verification/LZ4_Match.thy ===== *)
theory LZ4_Match
  imports LZ4_Format
begin

text \<open>
  The parts of the compressor that compare the text with itself: reads of several bytes at a
  time against single bytes, the length of a match, the search and the extension backwards.
\<close>

section \<open>Windows of the source\<close>

definition agree :: "u8 list \<Rightarrow> nat \<Rightarrow> nat \<Rightarrow> nat \<Rightarrow> bool" where
  "agree src p q n = (\<forall>k < n. src ! (p + k) = src ! (q + k))"

lemma agree_0 [simp]: "agree src p q 0"
  by (simp add: agree_def)

lemma agree_add: "agree src p q (m + n) \<longleftrightarrow> agree src p q m \<and> agree src (p + m) (q + m) n"
proof -
  have "(\<forall>k < m + n. P k) \<longleftrightarrow> (\<forall>k < m. P k) \<and> (\<forall>k < n. P (m + k))" for P :: "nat \<Rightarrow> bool"
    by (metis add_less_cancel_left le_add_diff_inverse not_less trans_less_add1)
  then show ?thesis by (simp only: agree_def add.assoc)
qed

lemma agree_mono: "agree src p q n \<Longrightarrow> m \<le> n \<Longrightarrow> agree src p q m"
  by (simp add: agree_def)

lemma agree_Suc: "agree src p q (Suc n) \<longleftrightarrow> src ! p = src ! q \<and> agree src (Suc p) (Suc q) n"
  using agree_add [of src p q 1 n] by (simp add: agree_def)

lemma agree_window:
  assumes "p + n \<le> length src" and "q + n \<le> length src"
  shows "take n (drop p src) = take n (drop q src) \<longleftrightarrow> agree src p q n"
  using assms by (auto simp: agree_def list_eq_iff_nth_eq)

section \<open>Words of bytes\<close>

lemma bit_le_word:
  "bit (le_word bs :: 'a :: len word) n
    \<longleftrightarrow> n < LENGTH('a) \<and> n div 8 < length bs \<and> bit (bs ! (n div 8)) (n mod 8)"
proof (induction bs arbitrary: n)
  case (Cons b bs)
  show ?case
  proof (cases "n < 8")
    case True
    then show ?thesis by (auto simp: bit_simps)
  next
    case False
    then obtain m where m: "n = m + 8" by (metis add.commute le_Suc_ex not_less)
    have "n div 8 = Suc (m div 8)" "n mod 8 = m mod 8" by (simp_all add: m)
    moreover have "\<not> bit b n" using False bit_imp_le_length [of b n] by auto
    moreover have "n < LENGTH('a) \<Longrightarrow> m < LENGTH('a)" by (simp add: m)
    ultimately show ?thesis using Cons [of m] by (auto simp: bit_simps m)
  qed
qed simp

lemma le_word_bits:
  assumes "8 * length bs \<le> LENGTH('a)" and "k < length bs" and "j < 8"
  shows "bit (le_word bs :: 'a :: len word) (8 * k + j) = bit (bs ! k) j"
  using assms by (simp add: bit_le_word)

lemma le_word_inject:
  assumes "length bs = length cs" and "8 * length bs \<le> LENGTH('a)"
  shows "(le_word bs :: 'a :: len word) = le_word cs \<longleftrightarrow> bs = cs"
proof
  assume eq: "(le_word bs :: 'a word) = le_word cs"
  show "bs = cs"
  proof (rule nth_equalityI [OF assms(1)])
    fix k assume k: "k < length bs"
    have "bit (bs ! k) j = bit (cs ! k) j" if "j < 8" for j
      using le_word_bits [where 'a = 'a, of bs k j] le_word_bits [where 'a = 'a, of cs k j] assms k that eq by simp
    then show "bs ! k = cs ! k" by (intro bit_word_eqI) simp
  qed
qed simp

lemma read_agree:
  assumes "p < q"
  shows "q + 2 \<le> length src \<Longrightarrow> LZ4_read16 src p = LZ4_read16 src q \<longleftrightarrow> agree src p q 2"
    and "q + 4 \<le> length src \<Longrightarrow> LZ4_read32 src p = LZ4_read32 src q \<longleftrightarrow> agree src p q 4"
    and "q + 8 \<le> length src \<Longrightarrow> LZ4_read_ARCH src p = LZ4_read_ARCH src q \<longleftrightarrow> agree src p q 8"
  using assms by (simp_all add: LZ4_read16_def LZ4_read32_def LZ4_read_ARCH_def le_word_inject agree_window)

text \<open>The lowest bit in which two words differ is in the first byte in which they do.\<close>

lemma ctz_from_bit:
  assumes "bit w n" and "i \<le> n"
  shows "bit w (ctz_from i w) \<and> (\<forall>j. i \<le> j \<and> j < ctz_from i w \<longrightarrow> \<not> bit w j)"
  using assms
proof (induction i w rule: ctz_from.induct)
  case (1 i w)
  have n: "n < 64" using 1(2) bit_imp_le_length by fastforce
  show ?case
  proof (cases "bit w i")
    case True
    then have "ctz_from i w = i" by (subst ctz_from.simps) simp
    with True show ?thesis by auto
  next
    case False
    then have "i < n" using 1(2,3) le_neq_implies_less by metis
    then have "bit w (ctz_from (Suc i) w) \<and> (\<forall>j. Suc i \<le> j \<and> j < ctz_from (Suc i) w \<longrightarrow> \<not> bit w j)"
      using 1 n False by simp
    moreover have "ctz_from i w = ctz_from (Suc i) w"
      using False \<open>i < n\<close> n by (subst ctz_from.simps) simp
    ultimately show ?thesis using False by (metis le_neq_implies_less Suc_leI)
  qed
qed

lemma common_bytes:
  assumes "length bs = 8" and "length cs = 8" and "bs \<noteq> cs"
  defines "k \<equiv> LZ4_NbCommonBytes (le_word bs XOR le_word cs)"
  shows "k < 8" and "bs ! k \<noteq> cs ! k" and "\<And>j. j < k \<Longrightarrow> bs ! j = cs ! j"
proof -
  let ?d = "le_word bs XOR le_word cs :: u64" and ?n = "ctz_from 0 (le_word bs XOR le_word cs)"
  have bits: "bit ?d (8 * i + j) = (bit (bs ! i) j \<noteq> bit (cs ! i) j)" if "i < 8" "j < 8" for i j
    using that assms(1,2) le_word_bits [where 'a = 64, of bs i j] le_word_bits [where 'a = 64, of cs i j]
    by (simp add: bit_xor_iff)
  have "(le_word bs :: u64) \<noteq> le_word cs" using assms(1-3) by (simp add: le_word_inject)
  then have "?d \<noteq> 0" by (auto simp: bit_eq_iff bit_xor_iff)
  then obtain n where "bit ?d n" by (auto simp: bit_eq_iff)
  then have c: "bit ?d ?n" "\<And>j. j < ?n \<Longrightarrow> \<not> bit ?d j" using ctz_from_bit [of ?d n 0] by auto
  have n: "?n < 64" using c(1) bit_imp_le_length by fastforce
  have k: "k = ?n div 8" by (simp add: k_def LZ4_NbCommonBytes_def)
  show "k < 8" using n by (simp add: k)
  have "?n = 8 * k + ?n mod 8" by (simp add: k)
  then show "bs ! k \<noteq> cs ! k" using c(1) bits [of k "?n mod 8"] \<open>k < 8\<close> by auto
  show "bs ! j = cs ! j" if "j < k" for j
  proof (rule bit_word_eqI)
    fix i assume "i < LENGTH(8)"
    then have "8 * j + i < ?n" using that k by (simp add: less_eq_div_iff_mult_less_eq)
    then show "bit (bs ! j) i = bit (cs ! j) i"
      using c(2) bits [of j i] that \<open>k < 8\<close> \<open>i < _\<close> by auto
  qed
qed

section \<open>The length of a match\<close>

text \<open>The reference: one byte after the other.\<close>

fun common :: "u8 list \<Rightarrow> nat \<Rightarrow> nat \<Rightarrow> nat \<Rightarrow> nat" where
  "common src p q 0 = 0"
| "common src p q (Suc n) = (if src ! p = src ! q then Suc (common src (Suc p) (Suc q) n) else 0)"

lemma le_common: "c \<le> common src p q n \<longleftrightarrow> c \<le> n \<and> agree src p q c"
proof (induction src p q n arbitrary: c rule: common.induct)
  case (2 src p q n)
  then show ?case by (cases c) (auto simp: agree_Suc)
qed auto

text \<open>The loop stops less than eight bytes before the end of what is common, or knows where it is.\<close>

lemma count_loop_spec:
  assumes "q \<le> lim" and "lim \<le> length src" and "p < q" and "c \<le> common src p q (lim - q)"
    and "count_loop src (q + c) (p + c) lim = (q', p', r)"
  shows "\<exists>d. q' = q + d \<and> p' = p + d \<and> d \<le> common src p q (lim - q)
    \<and> (case r of None \<Rightarrow> common src p q (lim - q) < d + 8 | Some k \<Rightarrow> common src p q (lim - q) = d + k)"
  using assms(4,5)
proof (induction "lim - (q + c)" arbitrary: c rule: less_induct)
  case less
  let ?L = "common src p q (lim - q)" and ?diff = "LZ4_read_ARCH src (p + c) XOR LZ4_read_ARCH src (q + c)"
  have c: "c \<le> lim - q" "agree src p q c" using less.prems(1) by (simp_all add: le_common)
  have L: "?L \<le> lim - q" using le_common [of ?L] by blast
  consider "\<not> q + c + 7 < lim" | "q + c + 7 < lim" "?diff = 0" | "q + c + 7 < lim" "?diff \<noteq> 0" by blast
  then show ?case
  proof cases
    case 1
    then have "q' = q + c \<and> p' = p + c \<and> r = None" using less.prems(2) by (simp add: count_loop.simps [of src "q + c"])
    with 1 less.prems(1) L show ?thesis by (intro exI [of _ c]) simp
  next
    case 2
    then have "LZ4_read_ARCH src (p + c) = LZ4_read_ARCH src (q + c)" by (auto simp: bit_eq_iff bit_xor_iff)
    then have "agree src (p + c) (q + c) 8" using 2(1) assms(2,3) by (simp add: read_agree)
    then have "c + 8 \<le> ?L" using c 2(1) by (simp add: le_common agree_add)
    moreover have "count_loop src (q + (c + 8)) (p + (c + 8)) lim = (q', p', r)"
      using less.prems(2) 2 by (subst (asm) count_loop.simps) (simp add: add.assoc)
    ultimately show ?thesis using less.hyps [of "c + 8"] 2(1) by simp
  next
    case 3
    let ?bs = "take 8 (drop (p + c) src)" and ?cs = "take 8 (drop (q + c) src)"
    have len: "length ?bs = 8" "length ?cs = 8" using 3(1) assms(2,3) by simp_all
    have nth: "?bs ! j = src ! (p + (c + j))" "?cs ! j = src ! (q + (c + j))" if "j < 8" for j
      using that 3(1) assms(2,3) by (simp_all add: add.assoc)
    have d: "?diff = le_word ?bs XOR le_word ?cs" by (simp add: LZ4_read_ARCH_def)
    have "?bs \<noteq> ?cs" using 3(2) by (auto simp: d)
    note cb = common_bytes [OF len this, folded d]
    let ?k = "LZ4_NbCommonBytes ?diff"
    have "agree src (p + c) (q + c) ?k"
      using cb(1,3) nth by (auto simp: agree_def add.assoc)
    then have "c + ?k \<le> ?L" using c 3(1) cb(1) by (simp add: le_common agree_add)
    moreover have "\<not> agree src p q (Suc (c + ?k))"
      using cb(1,2) nth [OF cb(1)] by (auto simp: agree_def)
    then have "\<not> Suc (c + ?k) \<le> ?L" by (simp add: le_common)
    ultimately have "?L = c + ?k" by simp
    moreover have "q' = q + c \<and> p' = p + c \<and> r = Some ?k"
      using less.prems(2) 3 by (auto simp: count_loop.simps [of src "q + c"])
    ultimately show ?thesis by (intro exI [of _ c]) simp
  qed
qed

text \<open>A comparison of some bytes at once halves the distance to the end of what is common.\<close>

lemma count_step:
  assumes "d \<le> common src p q n" and "common src p q n < d + 2 * w" and "0 < w"
    and "eq = (d + w \<le> n \<and> agree src (p + d) (q + d) w)"
  shows "(if eq then d + w else d) \<le> common src p q n \<and> common src p q n < (if eq then d + w else d) + w"
proof -
  have "eq \<longleftrightarrow> d + w \<le> common src p q n"
    using assms(1,4) by (auto simp: le_common agree_add)
  then show ?thesis using assms(1,2) by auto
qed

lemma LZ4_count_eq:
  assumes "pIn \<le> pInLimit" and "pInLimit \<le> length src" and "pMatch < pIn"
  shows "LZ4_count src pIn pMatch pInLimit = common src pMatch pIn (pInLimit - pIn)"
proof -
  let ?n = "pInLimit - pIn" and ?L = "common src pMatch pIn (pInLimit - pIn)"
  obtain q p r where cl: "count_loop src pIn pMatch pInLimit = (q, p, r)" by (metis prod_cases3)
  obtain d where d: "q = pIn + d" "p = pMatch + d" "d \<le> ?L"
    "case r of None \<Rightarrow> ?L < d + 8 | Some k \<Rightarrow> ?L = d + k"
    using count_loop_spec [OF assms, of 0 q p r] cl by auto
  show ?thesis
  proof (cases r)
    case (Some k)
    then show ?thesis using d(4) by (simp add: LZ4_count_def cl d(1))
  next
    case None
    then have L: "?L < d + 2 * 4" using d(4) by simp
    have n: "?L \<le> ?n" using le_common [of ?L] by blast
    define e where "e = (if d + 4 \<le> ?n \<and> agree src (pMatch + d) (pIn + d) 4 then d + 4 else d)"
    have e: "e \<le> ?L" "?L < e + 2 * 2"
      using count_step [OF d(3) L _ refl] by (simp_all add: e_def split: if_splits)
    define f where "f = (if e + 2 \<le> ?n \<and> agree src (pMatch + e) (pIn + e) 2 then e + 2 else e)"
    have f: "f \<le> ?L" "?L < f + 2 * 1"
      using count_step [OF e _ refl] by (simp_all add: f_def split: if_splits)
    define g where "g = (if f + 1 \<le> ?n \<and> agree src (pMatch + f) (pIn + f) 1 then f + 1 else f)"
    have g: "?L = g"
      using count_step [OF f _ refl] by (simp add: g_def split: if_splits)
    have s4: "(if pIn + d + 3 < pInLimit \<and> LZ4_read32 src (pMatch + d) = LZ4_read32 src (pIn + d)
        then (pIn + d + 4, pMatch + d + 4) else (pIn + d, pMatch + d)) = (pIn + e, pMatch + e)"
      using assms by (auto simp: e_def read_agree)
    have s2: "(if pIn + e + 1 < pInLimit \<and> LZ4_read16 src (pMatch + e) = LZ4_read16 src (pIn + e)
        then (pIn + e + 2, pMatch + e + 2) else (pIn + e, pMatch + e)) = (pIn + f, pMatch + f)"
      using assms by (auto simp: f_def read_agree)
    have s1: "(if pIn + f < pInLimit \<and> src ! (pMatch + f) = src ! (pIn + f) then pIn + f + 1 else pIn + f) = pIn + g"
      using assms by (auto simp: g_def agree_def)
    show ?thesis
      using None by (simp only: LZ4_count_def cl d(1,2) Let_def prod.case option.case s4 s2 s1 g diff_add_inverse)
  qed
qed

text \<open>C22. The optimised comparison. \<^verbatim>\<open>LZ4_count\<close> reads eight, four and two bytes at a time and counts
  trailing zeros of a difference; it computes the number of bytes that two places of the text
  have in common before a limit.\<close>
theorem LZ4_count_correct:
  assumes "pIn \<le> pInLimit" and "pInLimit \<le> length src" and "pMatch < pIn"
  shows "LZ4_count src pIn pMatch pInLimit = common src pMatch pIn (pInLimit - pIn)"
  using assms by (rule LZ4_count_eq)

theorem LZ4_count_correct_witness:
  "LZ4_count (to_u8 ''abcdefghijabcdefghijabcdX'') 10 0 20 = 10"
proof -
  have "LZ4_count (to_u8 ''abcdefghijabcdefghijabcdX'') 10 0 20 = common (to_u8 ''abcdefghijabcdefghijabcdX'') 0 10 (20 - 10)"
    by (rule LZ4_count_correct) (simp_all add: to_u8_def)
  also have "\<dots> = 10" by code_simp
  finally show ?thesis .
qed

section \<open>The search\<close>

text \<open>All entries of the table are positions before a bound.\<close>

definition entries_below :: "hash_table \<Rightarrow> nat \<Rightarrow> bool" where
  "entries_below table b = (\<forall>h. table h < b)"

lemma entries_below_mono: "entries_below table b \<Longrightarrow> b \<le> c \<Longrightarrow> entries_below table c"
  by (auto simp: entries_below_def intro: less_le_trans)

definition index_limit :: "tableType_t \<Rightarrow> nat" where
  "index_limit tableType = (case tableType of ByU32 \<Rightarrow> 2 ^ 32 | ByU16 \<Rightarrow> 2 ^ 16)"

lemma entries_below_put:
  assumes "entries_below table b" and "idx < b"
  shows "entries_below (LZ4_putIndexOnHash idx h table tableType) b"
proof -
  have "idx mod n < b" for n using assms(2) by (meson le_less_trans mod_less_eq_dividend)
  then show ?thesis using assms(1) by (simp add: entries_below_def LZ4_putIndexOnHash_def)
qed

text \<open>A position that is stored in a table of its size.\<close>

definition source_fits :: "u8 list \<Rightarrow> tableType_t \<Rightarrow> bool" where
  "source_fits src tableType = (case tableType of ByU32 \<Rightarrow> True | ByU16 \<Rightarrow> length src < LZ4_64Klimit)"

text \<open>What is known at the label \<^verbatim>\<open>_next_match\<close>: the match is before the position and not too far,
  the two agree up to four bytes behind a position, below which all the entries are, and from
  which the end of the text is far enough.\<close>

definition match_ok :: "u8 list \<Rightarrow> nat \<Rightarrow> nat \<Rightarrow> nat \<Rightarrow> bool" where
  "match_ok src ip match q =
     (match < ip \<and> ip - match \<le> LZ4_DISTANCE_MAX \<and> ip \<le> q \<and> agree src match ip (q - ip + 4)
      \<and> q + 12 \<le> length src)"

lemma match_found:
  assumes "match < ip" and "ip + 12 \<le> length src" and "source_fits src tableType"
    and "tableType = ByU16 \<or> match + LZ4_DISTANCE_MAX \<ge> ip" and "LZ4_read32 src match = LZ4_read32 src ip"
  shows "match_ok src ip match ip"
proof -
  have "ip - match \<le> LZ4_DISTANCE_MAX"
    using assms(2-4) by (cases tableType) (auto simp: source_fits_def LZ4_64Klimit_def)
  moreover have "agree src match ip 4" using assms(1,2,5) by (simp add: read_agree)
  ultimately show ?thesis using assms(1,2) by (simp add: match_ok_def)
qed

lemma find_match_spec:
  assumes "find_match src tableType table forwardIp forwardH step searchMatchNb = Some (ip, match, table')"
    and "entries_below table forwardIp" and "1 \<le> step" and "64 \<le> searchMatchNb" and "source_fits src tableType"
    and "13 \<le> length src"
  shows "forwardIp \<le> ip \<and> match_ok src ip match ip \<and> entries_below table' (ip + 1)"
  using assms
proof (induction src tableType table forwardIp forwardH step searchMatchNb rule: find_match.induct)
  case (1 src tableType table forwardIp forwardH step searchMatchNb)
  let ?m = "LZ4_getIndexOnHash forwardH table tableType"
  let ?t = "LZ4_putIndexOnHash forwardIp forwardH table tableType"
  let ?ok = "\<not> (tableType \<noteq> ByU16 \<and> ?m + LZ4_DISTANCE_MAX < forwardIp) \<and> LZ4_read32 src ?m = LZ4_read32 src forwardIp"
  have room: "\<not> forwardIp + step > mflimitPlusOne src"
    using "1.prems"(1) by (subst (asm) find_match.simps) (auto simp: Let_def split: if_splits)
  have b: "entries_below ?t (forwardIp + 1)"
    using "1.prems"(2) by (intro entries_below_put) (auto intro: entries_below_mono)
  have m: "?m < forwardIp" using "1.prems"(2) by (simp add: entries_below_def LZ4_getIndexOnHash_def)
  show ?case
  proof (cases ?ok)
    case True
    then have e: "ip = forwardIp" "match = ?m" "table' = ?t"
      using "1.prems"(1) room by (auto simp: find_match.simps [of src tableType table forwardIp])
    have "forwardIp + 12 \<le> length src" using room "1.prems"(3,6) by (simp add: mflimitPlusOne_def)
    then have "match_ok src forwardIp ?m forwardIp"
      using True m "1.prems"(5) by (intro match_found [where tableType = tableType]) auto
    with b show ?thesis by (simp add: e)
  next
    case False
    let ?f = "forwardIp + step" and ?step = "searchMatchNb div 2 ^ LZ4_skipTrigger"
    have rec: "find_match src tableType ?t ?f (LZ4_hashPosition src ?f tableType) ?step (searchMatchNb + 1)
        = Some (ip, match, table')"
    proof -
      have "find_match src tableType table forwardIp forwardH step searchMatchNb
        = (if ?ok then Some (forwardIp, ?m, ?t)
           else find_match src tableType ?t ?f (LZ4_hashPosition src ?f tableType) ?step (searchMatchNb + 1))"
        using room by (subst find_match.simps) (simp add: Let_def)
      with "1.prems"(1) show ?thesis unfolding if_not_P [OF False] by (simp only:)
    qed
    have "1 \<le> ?step" using "1.prems"(4) by (simp add: div_greater_zero_iff)
    moreover have "entries_below ?t ?f" using b "1.prems"(3) by (auto intro: entries_below_mono)
    ultimately have "?f \<le> ip \<and> match_ok src ip match ip \<and> entries_below table' (ip + 1)"
      using "1.IH" [OF refl refl refl refl room refl refl refl refl False rec] "1.prems"(4-6) by simp
    then show ?thesis by simp
  qed
qed

lemma catch_up_spec:
  assumes "catch_up src anchor ip match = (ip', match')" and "match_ok src ip match q" and "anchor \<le> ip"
  shows "anchor \<le> ip' \<and> ip' \<le> ip \<and> match_ok src ip' match' q"
  using assms
proof (induction src anchor ip match rule: catch_up.induct)
  case (2 src anchor ip m)
  show ?case
  proof (cases "ip > anchor \<and> src ! (ip - 1) = src ! m")
    case True
    then obtain i where i: "ip = Suc i" by (cases ip) auto
    have "agree src m i (q - i + 4)"
    proof -
      have "Suc i \<le> q" using "2.prems"(2) i by (simp add: match_ok_def)
      then have n: "q - i + 4 = Suc (q - Suc i + 4)" by arith
      have "agree src (Suc m) (Suc i) (q - Suc i + 4)" using "2.prems"(2) unfolding match_ok_def i by blast
      moreover have "src ! m = src ! i" using True i by simp
      ultimately show ?thesis unfolding n agree_Suc by blast
    qed
    then have "match_ok src i m q" using "2.prems"(2) by (auto simp: match_ok_def i)
    then have "anchor \<le> ip' \<and> ip' \<le> i \<and> match_ok src ip' match' q"
      using "2.IH" [OF True] "2.prems"(1) True i by simp
    then show ?thesis using i by simp
  next
    case False
    then show ?thesis using "2.prems" by auto
  qed
qed auto

end
