(* ===== verification/LZ4_Correct.thy ===== *)
theory LZ4_Correct
  imports LZ4_Match
begin

text \<open>
  The compressor against the format: what it writes decodes to the source, fits into the bound
  and into the room it is given, and with the room of the bound it does not fail. So the
  contract that theory Snapshot asks of a compressor, the locale \<open>compressor\<close>, has an
  interpretation, and the snapshot of the program can be read back.
\<close>

section \<open>The lengths of what is written\<close>

lemma length_literal_part:
  "length (literal_part ls) = length ls + (if length ls \<ge> 15 then (length ls - 15) div 255 + 1 else 0)"
  by (simp add: literal_part_def length_literal_length)

lemma length_write_sequence:
  "length (write_sequence ls offset matchCode)
    \<le> length ls + (matchCode + 4) + (length ls + (matchCode + 4)) div 255"
proof -
  let ?d = "(length ls + (matchCode + 4)) div 255"
  have l: "length (literal_part ls) \<le> length ls + ?d + (if length ls \<ge> 15 then 1 else 0)"
    using div_le_mono [of "length ls - 15" "length ls + (matchCode + 4)" 255] by (simp add: length_literal_part)
  have m: "length (match_length (matchCode - 15)) \<le> matchCode - 15 + 1"
    by (simp add: match_length_eq length_literal_length)
  have e: "length (write_sequence ls offset matchCode)
    = 3 + length (literal_part ls) + (if matchCode \<ge> 15 then length (match_length (matchCode - 15)) else 0)"
    by (simp add: write_sequence_def LZ4_writeLE16_def)
  show ?thesis
  proof (cases "matchCode \<ge> 15")
    case True
    with l m show ?thesis unfolding e by (simp split: if_splits)
  next
    case False
    with l show ?thesis unfolding e by (simp split: if_splits)
  qed
qed

lemma div_add_le: "a div c + b div c \<le> (a + b) div (c :: nat)"
  by (rule ord_le_eq_trans [OF le_add1 div_add1_eq [symmetric]])

section \<open>Good results\<close>

text \<open>What the compressor leaves from \<open>anchor\<close> on, with \<open>oPos\<close> bytes written before.\<close>

definition good :: "u8 list \<Rightarrow> nat option \<Rightarrow> nat \<Rightarrow> nat \<Rightarrow> u8 list option \<Rightarrow> bool" where
  "good src olimit oPos anchor result =
     (case result of
        None \<Rightarrow> olimit \<noteq> None
      | Some dst \<Rightarrow> decompress_unsafe dst (take anchor src) (length src) = Some (src, [])
          \<and> length dst \<le> (length src - anchor) + (length src - anchor) div 255 + 2
          \<and> \<not> exceeds olimit (oPos + length dst))"

lemma exceeds_None [simp]: "exceeds None p = False"
  by (simp add: exceeds_def)

lemma exceeds_mono: "exceeds olimit p \<Longrightarrow> p \<le> q \<Longrightarrow> exceeds olimit q"
  by (simp add: exceeds_def split: option.splits)

lemma good_None: "exceeds olimit p \<Longrightarrow> good src olimit oPos anchor None"
  by (cases olimit) (simp_all add: good_def)

text \<open>The extra bytes of a length, against what the code reserves and what the bound allows.\<close>

lemma extra_bytes:
  "(if run \<ge> 15 then (run - 15) div 255 + 1 else 0) \<le> (run + 255 - RUN_MASK) div 255"
  "(if run \<ge> 15 then (run - 15) div 255 + 1 else 0) \<le> run div 255 + 1"
proof -
  show "(if run \<ge> 15 then (run - 15) div 255 + 1 else 0) \<le> (run + 255 - RUN_MASK) div 255"
  proof (cases "run \<ge> 15")
    case True
    then obtain r where "run = r + 15" by (metis le_add_diff_inverse2)
    then show ?thesis by simp
  qed simp
  show "(if run \<ge> 15 then (run - 15) div 255 + 1 else 0) \<le> run div 255 + 1"
    using div_le_mono [of "run - 15" run 255] by simp
qed

lemma last_literals_good:
  assumes "anchor \<le> length src"
  shows "good src olimit oPos anchor (last_literals src olimit oPos anchor)"
proof -
  define run where "run = length src - anchor"
  define dst where "dst = literal_token run # literal_part (drop anchor src)"
  have e: "last_literals src olimit oPos anchor
      = (if exceeds olimit (oPos + run + 1 + (run + 255 - RUN_MASK) div 255) then None else Some dst)"
    by (simp add: last_literals_def run_def dst_def Let_def)
  have d: "decompress_unsafe dst (take anchor src) (length src) = Some (src, [])"
    using decompress_last [of "take anchor src" "drop anchor src" "length src" "[]"] assms
    by (simp add: dst_def run_def)
  have len: "length dst = run + 1 + (if run \<ge> 15 then (run - 15) div 255 + 1 else 0)"
    by (simp add: dst_def length_literal_part run_def)
  have b: "length dst \<le> run + run div 255 + 2" using len extra_bytes(2) [of run] by linarith
  have x: "oPos + length dst \<le> oPos + run + 1 + (run + 255 - RUN_MASK) div 255"
    using len extra_bytes(1) [of run] by linarith
  show ?thesis
  proof (cases "exceeds olimit (oPos + run + 1 + (run + 255 - RUN_MASK) div 255)")
    case True
    then show ?thesis unfolding e if_P [OF True] by (rule good_None)
  next
    case False
    then have "\<not> exceeds olimit (oPos + length dst)" using exceeds_mono x by blast
    with d b show ?thesis unfolding e if_not_P [OF False] by (simp add: good_def run_def)
  qed
qed

lemma bound_add:
  "(a :: nat) \<le> x + dx \<Longrightarrow> b \<le> y + dy + 2 \<Longrightarrow> s = x + y \<Longrightarrow> dx + dy \<le> ds \<Longrightarrow> a + b \<le> s + ds + 2"
  by simp

text \<open>A sequence before a good result.\<close>

lemma sequence_good:
  assumes m: "match_ok src (anchor + n) match q" and c: "agree src match (anchor + n) (mc + 4)"
    and e: "anchor + n + (mc + 4) + 5 \<le> length src"
    and g: "good src olimit (oPos + length (write_sequence (take n (drop anchor src)) (anchor + n - match) mc))
      (anchor + n + (mc + 4)) result"
  shows "good src olimit oPos anchor
    (map_option (append (write_sequence (take n (drop anchor src)) (anchor + n - match) mc)) result)"
proof (cases result)
  case None
  with g show ?thesis by (simp add: good_def)
next
  case (Some dst)
  let ?ip = "anchor + n" and ?ls = "take n (drop anchor src)"
  let ?seq = "write_sequence ?ls (?ip - match) mc" and ?next = "anchor + n + (mc + 4)"
  have len: "length ?ls = n" "length (take anchor src) = anchor" using e by simp_all
  have d: "decompress_unsafe dst (take ?next src) (length src) = Some (src, [])"
    and b: "length dst \<le> (length src - ?next) + (length src - ?next) div 255 + 2"
    and x: "\<not> exceeds olimit (oPos + length ?seq + length dst)"
    using g Some by (simp_all add: good_def)
  have mo: "match < ?ip" "?ip - match < 65536" "?ip + 12 \<le> length src"
    using m by (auto simp: match_ok_def)
  have app: "take anchor src @ ?ls = take ?ip src" by (simp add: take_add)
  have "copy_match (take ?ip src) (?ip - match) (mc + 4) = take (?ip + (mc + 4)) src"
    using mo e c by (intro copy_match_text [OF refl]) (simp_all add: agree_def add.commute)
  moreover have "decompress_unsafe (?seq @ dst) (take anchor src) (length src)
      = decompress_unsafe dst (copy_match (take anchor src @ ?ls) (?ip - match) (mc + 4)) (length src)"
    by (rule decompress_sequence) (use mo e len in simp_all)
  ultimately have "decompress_unsafe (?seq @ dst) (take anchor src) (length src) = Some (src, [])"
    using d by (simp only: app)
  moreover have "length (?seq @ dst) \<le> (length src - anchor) + (length src - anchor) div 255 + 2"
  proof -
    have "length ?seq \<le> n + (mc + 4) + (n + (mc + 4)) div 255"
      using length_write_sequence [of ?ls "?ip - match" mc] len(1) by simp
    moreover have s: "length src - anchor = (n + (mc + 4)) + (length src - ?next)" using e by simp
    moreover have "(n + (mc + 4)) div 255 + (length src - ?next) div 255 \<le> (length src - anchor) div 255"
      unfolding s by (rule div_add_le)
    ultimately show ?thesis unfolding length_append using b bound_add by blast
  qed
  ultimately show ?thesis using x Some by (simp add: good_def add.assoc)
qed

section \<open>The main loop\<close>

lemma match_end:
  assumes "match_ok src ip match q" and "mc = LZ4_count src (ip + MINMATCH) (match + MINMATCH) (matchlimit src)"
  shows "agree src match ip (mc + 4)" and "q + 4 \<le> ip + (mc + 4)" and "ip + (mc + 4) + 5 \<le> length src"
proof -
  have m: "match < ip" "ip \<le> q" "agree src match ip (q - ip + 4)" "q + 12 \<le> length src"
    using assms(1) unfolding match_ok_def by blast+
  let ?n = "matchlimit src - (ip + 4)"
  have mc: "mc = common src (match + 4) (ip + 4) ?n"
    using LZ4_count_eq [of "ip + 4" "matchlimit src" src "match + 4"] m assms(2) by (simp add: matchlimit_def)
  then have "mc \<le> ?n" "agree src (match + 4) (ip + 4) mc" using le_common [of mc] by blast+
  moreover have "agree src match ip (4 + (q - ip))" using m(3) by (simp only: add.commute)
  then have a: "agree src match ip 4" "agree src (match + 4) (ip + 4) (q - ip)" by (simp_all only: agree_add)
  ultimately show "agree src match ip (mc + 4)" using agree_add [of src match ip 4 mc] by (simp add: add.commute)
  show "ip + (mc + 4) + 5 \<le> length src" using \<open>mc \<le> ?n\<close> m(2,4) by (simp add: matchlimit_def)
  have "q - ip \<le> mc" unfolding mc le_common using a(2) m(2,4) by (simp add: matchlimit_def)
  then show "q + 4 \<le> ip + (mc + 4)" using m(2) by simp
qed

definition loop_inv_lz4 :: "u8 list \<Rightarrow> hash_table \<Rightarrow> nat \<Rightarrow> (nat \<times> nat) option \<Rightarrow> bool" where
  "loop_inv_lz4 src table anchor found =
     (case found of
        None \<Rightarrow> entries_below table (anchor + 1) \<and> anchor \<le> length src
      | Some (n, match) \<Rightarrow> \<exists>q. match_ok src (anchor + n) match q \<and> entries_below table (q + 1))"

text \<open>The table after a match, and the position behind it.\<close>

lemma next_position:
  assumes "entries_below table (q + 1)" and "q + 4 \<le> nxt" and "nxt + 12 \<le> length src" and "source_fits src tableType"
    and tab: "tab = LZ4_putIndexOnHash (nxt - 2) h' table tableType" and tab': "tab' = LZ4_putIndexOnHash nxt h tab tableType"
    and idx: "idx = LZ4_getIndexOnHash h tab tableType"
  shows "loop_inv_lz4 src tab' nxt None"
    and "(tableType = ByU16 \<or> idx + LZ4_DISTANCE_MAX \<ge> nxt) \<and> LZ4_read32 src idx = LZ4_read32 src nxt
      \<Longrightarrow> loop_inv_lz4 src tab' nxt (Some (0, idx))"
proof -
  have t: "entries_below tab nxt"
    unfolding tab by (rule entries_below_put [OF entries_below_mono [OF assms(1)]]) (use assms(2) in simp_all)
  have t': "entries_below tab' (nxt + 1)"
    unfolding tab' by (rule entries_below_put [OF entries_below_mono [OF t]]) simp_all
  have "idx < nxt" using t by (simp add: idx entries_below_def LZ4_getIndexOnHash_def)
  then show "(tableType = ByU16 \<or> idx + LZ4_DISTANCE_MAX \<ge> nxt) \<and> LZ4_read32 src idx = LZ4_read32 src nxt
      \<Longrightarrow> loop_inv_lz4 src tab' nxt (Some (0, idx))"
    using t' match_found [of idx nxt src tableType] assms(3,4) by (auto simp: loop_inv_lz4_def)
  show "loop_inv_lz4 src tab' nxt None" using t' assms(3) by (simp add: loop_inv_lz4_def)
qed

text \<open>From the search to \<^verbatim>\<open>_next_match\<close>, and from there to a later position.\<close>

lemma search_good:
  assumes inv: "loop_inv_lz4 src table anchor None" and src: "source_fits src tableType" "13 \<le> length src"
    and matched: "\<And>table n match. loop_inv_lz4 src table anchor (Some (n, match))
      \<Longrightarrow> good src olimit oPos anchor (LZ4_loop src tableType olimit table oPos anchor (Some (n, match)))"
  shows "good src olimit oPos anchor (LZ4_loop src tableType olimit table oPos anchor None)"
proof (cases "find_match src tableType table (anchor + 1) (LZ4_hashPosition src (anchor + 1) tableType) 1 (1 * 2 ^ LZ4_skipTrigger)")
  case None
  then show ?thesis using last_literals_good inv by (subst LZ4_loop.simps) (simp add: loop_inv_lz4_def)
next
  case (Some f)
  obtain ip match table' where f: "f = (ip, match, table')" by (metis prod_cases3)
  obtain ip' match' where cu: "catch_up src anchor ip match = (ip', match')" by fastforce
  have "entries_below table (anchor + 1)" using inv by (simp add: loop_inv_lz4_def)
  then have fm: "anchor + 1 \<le> ip \<and> match_ok src ip match ip \<and> entries_below table' (ip + 1)"
    by (rule find_match_spec [OF Some [unfolded f]]) (use src in simp_all)
  then have "anchor \<le> ip' \<and> ip' \<le> ip \<and> match_ok src ip' match' ip"
    by (intro catch_up_spec [OF cu]) simp_all
  with fm have "loop_inv_lz4 src table' anchor (Some (ip' - anchor, match'))"
    by (auto simp: loop_inv_lz4_def)
  note g = matched [OF this]
  let ?x = "exceeds olimit (oPos + 1 + (ip' - anchor) + (2 + 1 + LASTLITERALS) + (ip' - anchor) div 255)"
  have e: "LZ4_loop src tableType olimit table oPos anchor None
      = (if ?x then None else LZ4_loop src tableType olimit table' oPos anchor (Some (ip' - anchor, match')))"
    using Some by (subst LZ4_loop.simps(1)) (simp add: f cu)
  show ?thesis
  proof (cases ?x)
    case True
    then show ?thesis unfolding e if_P [OF True] by (rule good_None)
  next
    case False
    with g show ?thesis unfolding e if_not_P [OF False] by blast
  qed
qed

lemma match_good:
  assumes inv: "loop_inv_lz4 src table anchor (Some (n, match))" and src: "source_fits src tableType" "13 \<le> length src"
    and later: "\<And>table oPos anchor' found. anchor < anchor' \<Longrightarrow> anchor' \<le> length src \<Longrightarrow> loop_inv_lz4 src table anchor' found
      \<Longrightarrow> good src olimit oPos anchor' (LZ4_loop src tableType olimit table oPos anchor' found)"
  shows "good src olimit oPos anchor (LZ4_loop src tableType olimit table oPos anchor (Some (n, match)))"
proof -
  obtain q where q: "match_ok src (anchor + n) match q" "entries_below table (q + 1)"
    using inv by (auto simp: loop_inv_lz4_def)
  define mc where "mc = LZ4_count src (anchor + n + MINMATCH) (match + MINMATCH) (matchlimit src)"
  define sq where "sq = write_sequence (take n (drop anchor src)) (anchor + n - match) mc"
  define nxt where "nxt = anchor + n + (mc + MINMATCH)"
  define tab where "tab = LZ4_putIndexOnHash (nxt - 2) (LZ4_hashPosition src (nxt - 2) tableType) table tableType"
  define idx where "idx = LZ4_getIndexOnHash (LZ4_hashPosition src nxt tableType) tab tableType"
  define tab' where "tab' = LZ4_putIndexOnHash nxt (LZ4_hashPosition src nxt tableType) tab tableType"
  let ?again = "(tableType = ByU16 \<or> idx + LZ4_DISTANCE_MAX \<ge> nxt) \<and> LZ4_read32 src idx = LZ4_read32 src nxt"
  let ?x = "exceeds olimit (oPos + 1 + length (literal_part (take n (drop anchor src))) + 2 + (1 + LASTLITERALS) + (mc + 240) div 255)"
  let ?rest = "if nxt \<ge> mflimitPlusOne src then last_literals src olimit (oPos + length sq) nxt
    else if ?again then LZ4_loop src tableType olimit tab' (oPos + length sq) nxt (Some (0, idx))
    else LZ4_loop src tableType olimit tab' (oPos + length sq) nxt None"
  have e: "LZ4_loop src tableType olimit table oPos anchor (Some (n, match))
      = (if ?x then None else map_option (append sq) ?rest)"
    by (subst LZ4_loop.simps(2)) (simp only: Let_def tab'_def idx_def tab_def nxt_def sq_def mc_def)
  note me = match_end [OF q(1) mc_def]
  have nx: "q + 4 \<le> nxt" "nxt + 5 \<le> length src" "nxt = anchor + n + (mc + 4)" "anchor < nxt" "nxt \<le> length src"
    using me(2,3) by (simp_all add: nxt_def)
  have "good src olimit (oPos + length sq) nxt ?rest"
  proof (cases "nxt \<ge> mflimitPlusOne src")
    case True
    then show ?thesis using last_literals_good nx(5) by simp
  next
    case ne: False
    then have "nxt + 12 \<le> length src" using src(2) by (simp add: mflimitPlusOne_def)
    note np = next_position [OF q(2) nx(1) this src(1) tab_def tab'_def idx_def]
    show ?thesis unfolding if_not_P [OF ne] using later [OF nx(4,5) np(1)] later [OF nx(4,5) np(2)] by simp
  qed
  then have "good src olimit oPos anchor (map_option (append sq) ?rest)"
    unfolding sq_def nx(3) by (intro sequence_good [OF q(1) me(1)]) (use me(3) in simp_all)
  then show ?thesis using good_None [of olimit _ src oPos anchor] unfolding e by simp
qed

lemma LZ4_loop_good:
  assumes "source_fits src tableType" and "13 \<le> length src" and "loop_inv_lz4 src table anchor found"
  shows "good src olimit oPos anchor (LZ4_loop src tableType olimit table oPos anchor found)"
  using assms(3)
proof (induction "length src - anchor" arbitrary: anchor table oPos found rule: less_induct)
  case less
  have matched: "good src olimit oPos anchor (LZ4_loop src tableType olimit table oPos anchor (Some (n, match)))"
    if "loop_inv_lz4 src table anchor (Some (n, match))" for table n match
    by (rule match_good [OF that assms(1,2)], rule less.hyps) simp_all
  show ?case
  proof (cases found)
    case None
    with less.prems show ?thesis using search_good [OF _ assms(1,2) matched] by simp
  next
    case (Some f)
    with less.prems show ?thesis using matched [of _ "fst f" "snd f"] by simp
  qed
qed

section \<open>The interface\<close>

lemma LZ4_compress_generic_good:
  assumes "source_fits src tableType"
  shows "good src olimit 0 0 (LZ4_compress_generic src olimit tableType)"
proof (cases "length src < LZ4_minLength")
  case True
  then show ?thesis unfolding LZ4_compress_generic_def if_P [OF True] by (intro last_literals_good) simp
next
  case False
  have "entries_below (LZ4_putIndexOnHash 0 (LZ4_hashPosition src 0 tableType) (\<lambda>h. 0) tableType) 1"
    by (intro entries_below_put) (simp_all add: entries_below_def)
  then have "loop_inv_lz4 src (LZ4_putIndexOnHash 0 (LZ4_hashPosition src 0 tableType) (\<lambda>h. 0) tableType) 0 None"
    by (simp add: loop_inv_lz4_def)
  then show ?thesis
    unfolding LZ4_compress_generic_def if_not_P [OF False] Let_def
    using False assms by (intro LZ4_loop_good) simp_all
qed

lemma LZ4_compress_default_cases:
  assumes "int (length src) \<le> LZ4_MAX_INPUT_SIZE" and "LZ4_compress_default src (int (length src)) cap = (r, dst)"
  shows "(r = 0 \<and> dst = [] \<and> cap < LZ4_compressBound (int (length src)))
    \<or> (0 < r \<and> r = int (length dst) \<and> r \<le> cap \<and> r \<le> LZ4_compressBound (int (length src))
         \<and> decompress_unsafe dst [] (length src) = Some (src, []))"
proof -
  let ?n = "length src" and ?bound = "LZ4_compressBound (int (length src))"
  define olimit where "olimit = (if cap \<ge> ?bound then None else Some (nat cap))"
  define tt where "tt = (if int ?n < int LZ4_64Klimit then ByU16 else ByU32)"
  have u: "uint (of_int (int ?n) :: u32) = int ?n"
    using assms(1) by (simp add: LZ4_MAX_INPUT_SIZE_def unsigned_of_nat take_bit_nat_eq_self_iff)
  have e: "LZ4_compress_default src (int ?n) cap
      = (case LZ4_compress_generic src olimit tt of None \<Rightarrow> (0, []) | Some dst \<Rightarrow> (int (length dst), dst))"
    using assms(1) by (simp only: LZ4_compress_default_def u Let_def olimit_def tt_def if_False not_less nat_int take_all_iff
        take_all [OF order_refl]) simp
  have b: "?bound = int ?n + int ?n div 255 + 16" using assms(1) by (simp only: LZ4_compressBound_def u) simp
  have "source_fits src tt" by (simp add: source_fits_def tt_def)
  then have g: "good src olimit 0 0 (LZ4_compress_generic src olimit tt)" by (rule LZ4_compress_generic_good)
  show ?thesis
  proof (cases "LZ4_compress_generic src olimit tt")
    case None
    then have "r = 0" "dst = []" using assms(2) e by simp_all
    moreover have "olimit \<noteq> None" using g None by (simp add: good_def)
    then have "cap < ?bound" by (simp add: olimit_def split: if_splits)
    ultimately show ?thesis by simp
  next
    case (Some d)
    then have d: "r = int (length dst)" "d = dst" using assms(2) e by auto
    have dec: "decompress_unsafe dst [] ?n = Some (src, [])" and len: "length dst \<le> ?n + ?n div 255 + 2"
      and lim: "\<not> exceeds olimit (length dst)"
      using g Some by (simp_all add: good_def d)
    have "dst \<noteq> []" using dec by (auto simp: decompress_unsafe.simps)
    moreover have "int (length dst) \<le> int ?n + int (?n div 255) + 2" using len by linarith
    then have "r \<le> ?bound" unfolding b d(1) by (simp add: zdiv_int)
    moreover have "r \<le> cap"
    proof (cases "cap \<ge> ?bound")
      case True
      then show ?thesis using \<open>r \<le> ?bound\<close> by simp
    next
      case False
      then have "length dst \<le> nat cap" using lim by (simp add: olimit_def exceeds_def)
      then show ?thesis using \<open>dst \<noteq> []\<close> by (cases "0 \<le> cap") (simp_all add: d le_nat_iff)
    qed
    ultimately show ?thesis using dec by (simp add: d(1))
  qed
qed

definition LZ4_decompress :: "u8 list \<Rightarrow> nat \<Rightarrow> u8 list option" where
  "LZ4_decompress bs n = map_option fst (decompress_unsafe bs [] n)"

interpretation linked: compressor LZ4_compress_default LZ4_decompress
proof unfold_locales
  fix src :: "u8 list" and cap n dst
  assume a: "int (length src) \<le> LZ4_MAX_INPUT_SIZE" "LZ4_compressBound (int (length src)) \<le> cap"
    and e: "LZ4_compress_default src (int (length src)) cap = (n, dst)"
  show "0 < n \<and> nat n \<le> length dst \<and> LZ4_decompress (take (nat n) dst) (length src) = Some src"
    using LZ4_compress_default_cases [OF a(1) e] a(2) by (auto simp: LZ4_decompress_def)
next
  fix k :: int and src cap
  assume "LZ4_MAX_INPUT_SIZE < uint (of_int k :: 32 word)"
  then show "fst (LZ4_compress_default src k cap) = 0" by (simp add: LZ4_compress_default_def Let_def)
qed

text \<open>C19. The compressor and the format. For every input up to LZ4's largest, and every capacity:
  either \<^verbatim>\<open>LZ4_compress_default\<close> answers 0, which it does not with the room of
  \<^verbatim>\<open>LZ4_compressBound\<close>, or what it writes is as long as it says, is within the capacity
  and the bound, and is decoded to exactly the input by the decoder of the block format.\<close>
theorem LZ4_roundtrip:
  assumes "int (length src) \<le> LZ4_MAX_INPUT_SIZE" and "LZ4_compress_default src (int (length src)) cap = (r, dst)"
  shows "(r = 0 \<and> dst = [] \<and> cap < LZ4_compressBound (int (length src)))
    \<or> (0 < r \<and> r = int (length dst) \<and> r \<le> cap \<and> r \<le> LZ4_compressBound (int (length src))
         \<and> decompress_unsafe dst [] (length src) = Some (src, []))"
  using assms by (rule LZ4_compress_default_cases)

theorem LZ4_roundtrip_witness:
  "\<exists>r dst. LZ4_compress_default (replicate 30 97) 30 46 = (r, dst) \<and> 0 < r \<and> r \<le> 46
     \<and> decompress_unsafe dst [] 30 = Some (replicate 30 97, [])"
proof -
  obtain r dst where e: "LZ4_compress_default (replicate 30 97) (int (length (replicate 30 (97 :: u8)))) 46 = (r, dst)"
    by fastforce
  have "LZ4_compressBound 30 = 46" by (simp add: LZ4_compressBound_def LZ4_MAX_INPUT_SIZE_def)
  then have "0 < r \<and> r \<le> 46 \<and> decompress_unsafe dst [] 30 = Some (replicate 30 97, [])"
    using LZ4_roundtrip [OF _ e] unfolding LZ4_MAX_INPUT_SIZE_def by auto
  then show ?thesis using e by (intro exI [of _ r] exI [of _ dst]) simp
qed

section \<open>The snapshot of the program\<close>

text \<open>From 4 GiB on LZ4 is told the size modulo \<open>2 ^ 32\<close> and compresses only so much.\<close>

lemma LZ4_reads_size: "LZ4_compress_default (take (nat k) src) k cap = LZ4_compress_default src k cap"
  by (simp only: LZ4_compress_default_def take_take min.idem)

lemma compress_wraps:
  assumes "2 ^ 32 \<le> length src" and "length src mod 2 ^ 32 = n" and "int n \<le> LZ4_MAX_INPUT_SIZE"
  shows "\<exists>block. compress LZ4_compress_default src = Ok block \<and> length block < length src
    \<and> LZ4_decompress block n = Some (take n src)"
proof -
  have small: "n < 2 ^ 31" using assms(3) by (simp add: LZ4_MAX_INPUT_SIZE_def)
  have n: "to_int32 (length src) = int n"
  proof -
    have "(of_nat (length src) :: 32 word) = of_nat n"
      unfolding assms(2) [symmetric] by (simp add: word_of_nat_eq_iff take_bit_eq_mod)
    then show ?thesis using to_int32_small [OF small] by (simp only: to_int32_def)
  qed
  have len: "length (take n src) = n"
    using assms(2) mod_less_eq_dividend [of "length src" "2 ^ 32"] by (simp only: length_take min_absorb2)
  obtain r dst where e: "LZ4_compress_default (take n src) (int n) (LZ4_compressBound (int n)) = (r, dst)" by fastforce
  then have e': "LZ4_compress_default src (int n) (LZ4_compressBound (int n)) = (r, dst)"
    using LZ4_reads_size [of "int n" src] by simp
  have c: "0 < r" "r = int (length dst)" "r \<le> LZ4_compressBound (int n)"
    "decompress_unsafe dst [] n = Some (take n src, [])"
    using LZ4_compress_default_cases [of "take n src" "LZ4_compressBound (int n)" r dst, unfolded len, OF assms(3) e] by auto
  have "src \<noteq> []" using assms(1) by auto
  then have k: "compress LZ4_compress_default src = Ok dst"
    by (simp only: compress_def n e' Let_def prod.case if_False) (use c(1,2) in simp)
  have "LZ4_compressBound (int n) < 2 ^ 32"
    using assms(3) by (auto simp: LZ4_compressBound_def LZ4_MAX_INPUT_SIZE_def)
  then have "length dst < length src" using c(2,3) assms(1) by simp
  with k c(4) show ?thesis by (auto simp: LZ4_decompress_def)
qed

lemma snapshot_wraps:
  assumes "2 ^ 32 \<le> length (serialize state)" and "length (serialize state) mod 2 ^ 32 = n" and "int n \<le> LZ4_MAX_INPUT_SIZE"
    and "wf_fs s" and "writable s (dbFilepath L)"
    and "writeBinarySnapshot LZ4_compress_default state L s = (result, s')"
  shows "result = Ok () \<and> (\<exists>block. read_file (dbFilepath L) s'
        = Some (CHR 0x01 # le64 (of_nat (length (serialize state))) @ from_u8 block)
      \<and> LZ4_decompress block n = Some (take n (to_u8 (serialize state))))"
proof -
  have l: "length (to_u8 (serialize state)) = length (serialize state)" by simp
  obtain block where b: "compress LZ4_compress_default (to_u8 (serialize state)) = Ok block"
    "length block < length (serialize state)" "LZ4_decompress block n = Some (take n (to_u8 (serialize state)))"
    using compress_wraps [of "to_u8 (serialize state)" n, unfolded l, OF assms(1-3)] by blast
  let ?out = "CHR 0x01 # le64 (of_nat (length (serialize state))) @ from_u8 block"
  have out: "snapshot_bytes LZ4_compress_default (serialize state) = Ok ?out"
    using b(2) assms(1) by (simp add: snapshot_bytes_def Let_def b(1) COMPRESSION_THRESHOLD_def)
  obtain i s1 where i: "open_trunc (dbFilepath L) s = (Some i, s1)"
    using assms(5) fst_open_trunc by (metis not_None_eq prod.collapse)
  have "(result, s') = (Ok (), write_file (dbFilepath L) ?out s)"
    using assms(6) by (simp add: writeBinarySnapshot_def write_file_def stream_write_def out i)
  then show ?thesis using assms(4,5) b(3) by (auto simp: read_write_file)
qed

text \<open>C20. The snapshot with the compressor the program links, for every length \<open>len\<close> of the serialized
  table. Up to LZ4's largest input (2,113,929,216 bytes) the snapshot is written, and reading it
  back, decoding the block where there is one, gives the table, entry by entry. Beyond it
  what LZ4 is told, the length modulo 4 GiB, decides: past LZ4's largest input it refuses, and the
  exception leaves an empty snapshot file where the old one was; otherwise, which can only be
  from 4 GiB on, the snapshot seems to succeed, but the block holds no more than the
  remainder, from the beginning of the table (at exactly 4 GiB nothing).\<close>
theorem snapshot_with_LZ4:
  assumes "table_fits state" and "wf_fs s" and "writable s (dbFilepath L)" and "length (serialize state) = len"
    and "writeBinarySnapshot LZ4_compress_default state L s = (result, s')"
  shows "(int len \<le> LZ4_MAX_INPUT_SIZE \<longrightarrow>
      result = Ok () \<and> Option.bind (read_file (dbFilepath L) s') (read_snapshot LZ4_decompress) = Some state)
    \<and> (LZ4_MAX_INPUT_SIZE < int (len mod 2 ^ 32) \<longrightarrow>
      result = Throw ''Cannot compress data.'' \<and> read_file (dbFilepath L) s' = Some [])
    \<and> (LZ4_MAX_INPUT_SIZE < int len \<and> int (len mod 2 ^ 32) \<le> LZ4_MAX_INPUT_SIZE \<longrightarrow>
      2 ^ 32 \<le> len \<and> result = Ok ()
      \<and> (\<exists>block. read_file (dbFilepath L) s' = Some (CHR 0x01 # le64 (of_nat len) @ from_u8 block)
        \<and> LZ4_decompress block (len mod 2 ^ 32) = Some (take (len mod 2 ^ 32) (to_u8 (serialize state)))))"
proof (intro conjI impI)
  assume "int len \<le> LZ4_MAX_INPUT_SIZE"
  then show "result = Ok ()" "Option.bind (read_file (dbFilepath L) s') (read_snapshot LZ4_decompress) = Some state"
    using linked.snapshot_reads [OF assms(1,2) _ assms(3)] assms(4,5) by simp_all
next
  assume "LZ4_MAX_INPUT_SIZE < int (len mod 2 ^ 32)"
  from linked.snapshot_refused [OF this [folded assms(4)] assms(2,3)] assms(5)
  show "result = Throw ''Cannot compress data.''" "read_file (dbFilepath L) s' = Some []" by simp_all
next
  assume r: "LZ4_MAX_INPUT_SIZE < int len \<and> int (len mod 2 ^ 32) \<le> LZ4_MAX_INPUT_SIZE"
  show big: "2 ^ 32 \<le> len"
  proof (rule ccontr)
    assume "\<not> 2 ^ 32 \<le> len"
    then have "len mod 2 ^ 32 = len" by (intro mod_less) (simp only: not_le)
    with r show False by simp
  qed
  from snapshot_wraps [OF big [folded assms(4)] refl, of s L result s'] r assms(2-5)
  show "result = Ok ()" "\<exists>block. read_file (dbFilepath L) s' = Some (CHR 0x01 # le64 (of_nat len) @ from_u8 block)
      \<and> LZ4_decompress block (len mod 2 ^ 32) = Some (take (len mod 2 ^ 32) (to_u8 (serialize state)))"
    by (simp_all only: conjunct2 HOL.simp_thms)
qed

definition snapshot_log :: Log where
  "snapshot_log = \<lparr>keyspaceName = None, logFilepath = [], dbFilepath = db_path ''d'', logfile = None, logBuffer = [],
     stopFlushThread = True, fileDescriptor = None\<rparr>"

lemma dbFilepath_snapshot_log: "dbFilepath snapshot_log = db_path ''d''"
  by (simp add: snapshot_log_def)

text \<open>A value of 11 MiB, which is compressed, one that is too large, and one of 4 GiB.\<close>

theorem snapshot_with_LZ4_witness:
  "Option.bind (read_file (db_path ''d'')
       (snd (writeBinarySnapshot LZ4_compress_default [(''k'', replicate (11 * 2 ^ 20) CHR ''x'')] snapshot_log empty_fs)))
     (read_snapshot LZ4_decompress) = Some [(''k'', replicate (11 * 2 ^ 20) CHR ''x'')]
   \<and> fst (writeBinarySnapshot LZ4_compress_default [(''k'', replicate (nat LZ4_MAX_INPUT_SIZE) CHR ''x'')] snapshot_log empty_fs)
     = Throw ''Cannot compress data.''
   \<and> fst (writeBinarySnapshot LZ4_compress_default [(''k'', replicate (2 ^ 32) CHR ''x'')] snapshot_log empty_fs) = Ok ()"
proof -
  have fits: "table_fits [(''k'', replicate n CHR ''x'')]" if "n \<le> 2 ^ 32" for n
    using that by (simp add: table_fits_def fits_def)
  have len: "length (serialize [(''k'', replicate n CHR ''x'')]) = 28 + n" for n by (simp add: length_serialize)
  have w: "writable empty_fs (dbFilepath snapshot_log)" by simp
  note inst = snapshot_with_LZ4 [OF fits empty_fs_simps(1) w len prod.collapse [symmetric], unfolded dbFilepath_snapshot_log]
  have "Option.bind (read_file (db_path ''d'')
       (snd (writeBinarySnapshot LZ4_compress_default [(''k'', replicate (11 * 2 ^ 20) CHR ''x'')] snapshot_log empty_fs)))
     (read_snapshot LZ4_decompress) = Some [(''k'', replicate (11 * 2 ^ 20) CHR ''x'')]"
    using inst [of "11 * 2 ^ 20", THEN conjunct1] by (simp only: LZ4_MAX_INPUT_SIZE_def) simp
  moreover have "fst (writeBinarySnapshot LZ4_compress_default [(''k'', replicate (nat LZ4_MAX_INPUT_SIZE) CHR ''x'')]
      snapshot_log empty_fs) = Throw ''Cannot compress data.''"
    using inst [of "nat LZ4_MAX_INPUT_SIZE", THEN conjunct2, THEN conjunct1] by (simp only: LZ4_MAX_INPUT_SIZE_def) simp
  moreover have "fst (writeBinarySnapshot LZ4_compress_default [(''k'', replicate (2 ^ 32) CHR ''x'')] snapshot_log empty_fs) = Ok ()"
    using inst [of "2 ^ 32", THEN conjunct2, THEN conjunct2] by (simp only: LZ4_MAX_INPUT_SIZE_def) simp
  ultimately show ?thesis by blast
qed

end
