(* ===== verification/System.thy ===== *)
theory System
  imports Program Cli LZ4_Correct
begin

text \<open>
  The whole system, from the keyboard to the disk: the command line client, connected to a
  server by a stream of bytes, with the compressor that is linked to it.
\<close>

section \<open>One command\<close>

text \<open>\<^verbatim>\<open>Client::send\<close> writes the line, the server serves it, and the response comes back.\<close>

definition exchange :: "layout \<Rightarrow> lz4 \<Rightarrow> bool \<Rightarrow> string \<Rightarrow> Server \<times> fs \<Rightarrow> string \<times> Server \<times> fs" where
  "exchange h lz4 junk input = (\<lambda>(srv, s).
     let ((sent, r), srv, s) = handleClient h lz4 junk [sent_line input] srv s
     in (fst (send True input [concat sent]), srv, s))"

lemma handleClient_line:
  assumes "NL \<notin> set l" and "dispatcher h lz4 junk l srv s = (Ok response, srv', s')"
  shows "handleClient h lz4 junk [sent_line l] srv s = (([response @ END_DELIM], Ok ()), srv', s')"
proof -
  have "handleClient h lz4 junk [] srv s = (([], Ok ()), srv, s)" for srv s
    by (subst handleClient.simps) (simp add: server_read_def)
  then show ?thesis
    using server_read_segment [OF assms(1), of "[]"] assms(2)
    by (subst handleClient.simps) (simp add: sent_line_def)
qed

lemma exchange_line:
  assumes "NL \<notin> set l" and "dispatcher h lz4 junk l srv s = (Ok response, srv', s')"
    and "\<not> sublist END_DELIM response"
  shows "exchange h lz4 junk l (srv, s) = (response, srv', s')"
  using send_message [OF assms(3), of "[response @ END_DELIM]" "[]" l]
  by (auto simp: exchange_def handleClient_line [OF assms(1,2)])

lemma exchange_data:
  assumes "journalled ks (server_db srv) s" and "data_line l" and "NL \<notin> set l"
    and "\<not> sublist END_DELIM (printVector (answer (command_of l) (kv_of (server_db srv))))"
  shows "\<exists>db. exchange h lz4 junk l (srv, s)
      = (printVector (answer (command_of l) (kv_of (server_db srv))), srv\<lparr>server_db := db\<rparr>, s)
    \<and> journalled ks db s \<and> kv_of db = effect (command_of l) (kv_of (server_db srv))"
proof -
  let ?db = "snd (parseCommand h l (server_db srv))"
  have l: "db_line l" "loggable (command_of l)" using assms(2) by (simp_all add: data_line_def)
  have r: "running_db ks (server_db srv) s" using assms(1) by (simp add: journalled_def running_db_def)
  note jc = journalled_command [OF assms(1) l(2), of h]
  show ?thesis
    using exchange_line [OF assms(3) dispatcher_db_line [OF l(1) r] assms(4)] jc(1,2)
    by (intro exI [of _ ?db]) simp
qed

lemma printVector_not_BYE: "printVector vs \<noteq> ''BYE''"
proof (cases vs rule: rev_cases)
  case (snoc us v)
  then have "last (printVector vs) = NL" by (simp add: printVector_def)
  moreover have "last ''BYE'' \<noteq> NL" by simp
  ultimately show ?thesis by metis
qed (simp add: printVector_def)

section \<open>A session at the keyboard\<close>

definition shown :: "string list \<Rightarrow> string" where
  "shown vs = [NL] @ ''tap> '' @ printVector vs @ [NL]"

lemma typed_lines:
  assumes "journalled ks (server_db srv) s"
    and "list_all (\<lambda>l. data_line l \<and> NL \<notin> set l \<and> l \<noteq> ''help'') ls"
    and "list_all (\<lambda>vs. \<not> sublist END_DELIM (printVector vs)) (answers (map command_of ls) (kv_of (server_db srv)))"
  shows "\<exists>db. fold (\<lambda>l w. snd (exchange h lz4 junk l w)) ls (srv, s) = (srv\<lparr>server_db := db\<rparr>, s)
    \<and> journalled ks db s \<and> kv_of db = fold effect (map command_of ls) (kv_of (server_db srv))
    \<and> transcript (exchange h lz4 junk) (ls @ later) (srv, s)
      = concat (map shown (answers (map command_of ls) (kv_of (server_db srv))))
        @ transcript (exchange h lz4 junk) later (srv\<lparr>server_db := db\<rparr>, s)
    \<and> (\<forall>us l vs. ls = us @ l # vs \<longrightarrow>
        fst (exchange h lz4 junk l (fold (\<lambda>l w. snd (exchange h lz4 junk l w)) us (srv, s))) \<noteq> ''BYE'')"
  using assms
proof (induction ls arbitrary: srv)
  case Nil
  then show ?case by (intro exI [of _ "server_db srv"]) simp
next
  case (Cons l ls)
  let ?e = "exchange h lz4 junk" and ?m = "kv_of (server_db srv)"
  have l: "data_line l" "NL \<notin> set l" "l \<noteq> ''help''" "\<not> sublist END_DELIM (printVector (answer (command_of l) ?m))"
    using Cons.prems(2,3) by simp_all
  obtain db1 where d: "?e l (srv, s) = (printVector (answer (command_of l) ?m), srv\<lparr>server_db := db1\<rparr>, s)"
    "journalled ks db1 s" "kv_of db1 = effect (command_of l) ?m"
    using exchange_data [OF Cons.prems(1) l(1,2,4), of h lz4 junk] by blast
  have "journalled ks (server_db (srv\<lparr>server_db := db1\<rparr>)) s" using d(2) by simp
  then obtain db where IH: "fold (\<lambda>l w. snd (?e l w)) ls (srv\<lparr>server_db := db1\<rparr>, s) = (srv\<lparr>server_db := db\<rparr>, s)"
    "journalled ks db s" "kv_of db = fold effect (map command_of ls) (kv_of db1)"
    "transcript ?e (ls @ later) (srv\<lparr>server_db := db1\<rparr>, s) = concat (map shown (answers (map command_of ls) (kv_of db1)))
      @ transcript ?e later (srv\<lparr>server_db := db\<rparr>, s)"
    "\<forall>us l vs. ls = us @ l # vs \<longrightarrow>
      fst (?e l (fold (\<lambda>l w. snd (?e l w)) us (srv\<lparr>server_db := db1\<rparr>, s))) \<noteq> ''BYE''"
    using Cons.IH [of "srv\<lparr>server_db := db1\<rparr>"] Cons.prems(2,3) d(3) by auto
  have first: "fst (?e l' (fold (\<lambda>l w. snd (?e l w)) us (srv, s))) \<noteq> ''BYE''" if "l # ls = us @ l' # vs" for us l' vs
  proof (cases us)
    case Nil
    with that d(1) show ?thesis using printVector_not_BYE by simp
  next
    case (Cons u us')
    with that d(1) IH(5) show ?thesis by simp
  qed
  have tr: "transcript ?e ((l # ls) @ later) (srv, s)
      = shown (answer (command_of l) ?m) @ transcript ?e (ls @ later) (srv\<lparr>server_db := db1\<rparr>, s)"
    using l(3) by (simp add: d(1) shown_def)
  show ?case
  proof (intro exI [of _ db] conjI allI impI)
    show "transcript ?e ((l # ls) @ later) (srv, s)
      = concat (map shown (answers (map command_of (l # ls)) ?m)) @ transcript ?e later (srv\<lparr>server_db := db\<rparr>, s)"
      by (simp only: tr IH(4) d(3) list.map answers.simps concat.simps append_assoc)
  qed (use IH(1-3) d first in simp_all)
qed

section \<open>The snapshot of a shutdown\<close>

text \<open>The size of the serialized table is a function of the map.\<close>

definition snapshot_size :: "(string \<rightharpoonup> string) \<Rightarrow> nat" where
  "snapshot_size m = 11 + (\<Sum>k\<in>dom m. 16 + length k + length (the (m k)))"

lemma length_serialize_map: "umap_wf st \<Longrightarrow> length (serialize st) = snapshot_size (map_of st)"
  by (simp add: length_serialize snapshot_size_def umap_wf_def
      sum_list_map_of [of st "\<lambda>k v. 16 + length k + length v", simplified])

lemma table_fits_serialize: "length (serialize st) < 2 ^ 64 \<Longrightarrow> table_fits st"
proof -
  have "length st \<le> (\<Sum>(k, v)\<leftarrow>st. 16 + length k + length v)" by (induction st) auto
  moreover have "list_all (\<lambda>(k, v). fits k \<and> fits v) st" if "(\<Sum>(k, v)\<leftarrow>st. 16 + length k + length v) < 2 ^ 64"
    using that by (induction st) (auto simp: fits_def)
  moreover assume "length (serialize st) < 2 ^ 64"
  ultimately show ?thesis by (simp add: table_fits_def length_serialize)
qed

lemma snapshot_of_shutdown:
  assumes "wf_fs s" and "log_open ks (logger db) s" and "writable s (temp_path ks)" and "writable s (db_path ks)"
    and "snapshot_bytes lz4 (serialize (store db)) = Ok out" and "shutdown lz4 db s = (r, db', s')"
  shows "r = Ok ()" and "read_file (db_path ks) s' = Some out"
proof -
  show "r = Ok ()" using shutdown_result [OF assms(1-3,6)] assms(4,5) by (simp add: snapshot_result_def)
  obtain L1 s1 where c: "closeLog (logger db) s = (L1, s1)" by fastforce
  note cl = closeLog_eq [OF assms(1,2) c]
  have L1: "keyspaceName L1 = Some ks" "logFilepath L1 = aof_path ks" "dbFilepath L1 = db_path ks"
    using assms(2) by (simp_all add: cl(1) log_open_def)
  obtain r2 s2 where k: "compactLog (store db) (dirty db) L1 s1 = (r2, s2)" by fastforce
  have t1: "writable s1 (temp_path ks)" using assms(3) cl(3) by simp
  note cp = compactLog_eq [OF cl(2) L1(1,2) t1 k]
  have "s' = snd (writeBinarySnapshot lz4 (store db) L1 s2)"
    using assms(6) c k cp(1) by (auto simp: shutdown_def split: prod.splits)
  also have "\<dots> = write_file (db_path ks) out s2"
    using fst_open_trunc [of "db_path ks" s2] assms(4,5) cp(3) cl(3)
    by (auto simp: writeBinarySnapshot_def write_file_def stream_write_def L1 split: option.split prod.split)
  finally show "read_file (db_path ks) s' = Some out" using cp(2,3) cl(3) assms(4) by (simp add: read_write_file)
qed

definition map_in_snapshot :: "string \<Rightarrow> fs \<Rightarrow> (string \<rightharpoonup> string) option" where
  "map_in_snapshot ks s = map_option map_of (Option.bind (read_file (db_path ks) s) (read_snapshot LZ4_decompress))"

lemma quit_line:
  assumes "journalled ks (server_db srv) s" and "writable s (temp_path ks)" and "writable s (db_path ks)"
    and "int (snapshot_size (kv_of (server_db srv))) \<le> LZ4_MAX_INPUT_SIZE"
  shows "\<exists>srv' s'. exchange h LZ4_compress_default junk ''quit'' (srv, s) = (''BYE'', srv', s')
    \<and> \<not> running srv' \<and> recover (file_text (aof_path ks) s') = kv_of (server_db srv)
    \<and> map_in_snapshot ks s' = Some (kv_of (server_db srv))"
proof -
  let ?lz4 = LZ4_compress_default
  have f: "wf_fs s" "log_open ks (logger (server_db srv)) s" "umap_wf (store (server_db srv))"
    using assms(1) by (simp_all add: journalled_def)
  have size: "int (length (serialize (store (server_db srv)))) \<le> LZ4_MAX_INPUT_SIZE"
    using assms(4) by (simp add: length_serialize_map f(3))
  then have "table_fits (store (server_db srv))" by (intro table_fits_serialize) (simp add: LZ4_MAX_INPUT_SIZE_def)
  then obtain out where out: "snapshot_bytes ?lz4 (serialize (store (server_db srv))) = Ok out"
    "read_snapshot LZ4_decompress out = Some (store (server_db srv))"
    using linked.snapshot_bytes_read [OF _ size] by blast
  obtain r db s' where sh: "shutdown ?lz4 (server_db srv) s = (r, db, s')" by (metis prod_cases3)
  note snap = snapshot_of_shutdown [OF f(1,2) assms(2,3) out(1) sh]
  have "tokenize ''quit'' = [''quit'']" by code_simp
  then have "dispatcher h ?lz4 junk ''quit'' srv s = (Ok ''BYE'', srv\<lparr>running := False, server_db := db\<rparr>, s')"
    by (simp add: dispatcher_def sh snap(1))
  moreover have "\<not> sublist END_DELIM ''BYE''" by (simp add: END_DELIM_def sublist_Cons_right)
  ultimately have "exchange h ?lz4 junk ''quit'' (srv, s) = (''BYE'', srv\<lparr>running := False, server_db := db\<rparr>, s')"
    by (intro exchange_line) simp_all
  then show ?thesis
    using shutdown_recover(2) [OF assms(1,2) sh] by (auto simp: map_in_snapshot_def snap(2) out(2))
qed

section \<open>A session\<close>

text \<open>C2. A session at the keyboard. The user types commands on the data and then \<^verbatim>\<open>quit\<close>, and anything
  after it: the program shows for each command what the specification answers, says goodbye
  and ends, and then the log on the disk says what the commands made of the map, and so does
  the snapshot. Conditions: the commands are on the data (\<open>db_line\<close>) with keys and values that
  a line of the log gives back, and none of the lines is \<open>help\<close> or \<open>use\<close>, which the client takes
  itself; no answer contains the end mark of the protocol, \<open>END\<close> with a newline, where \<^verbatim>\<open>send\<close> stops
  reading; the snapshot of the final table is not larger than what LZ4 compresses
  (2,113,929,216 bytes), as otherwise \<^verbatim>\<open>quit\<close> throws and there is no goodbye; and the temporary
  log and the snapshot can be written.\<close>
theorem cli_session:
  assumes "journalled ks (server_db srv) s" and "writable s (temp_path ks)" and "writable s (db_path ks)"
    and "list_all (\<lambda>l. data_line l \<and> NL \<notin> set l \<and> l \<noteq> ''help'' \<and> l \<noteq> ''use'') ls"
    and "list_all (\<lambda>vs. \<not> sublist END_DELIM (printVector vs)) (answers (map command_of ls) (kv_of (server_db srv)))"
    and "int (snapshot_size (fold effect (map command_of ls) (kv_of (server_db srv)))) \<le> LZ4_MAX_INPUT_SIZE"
  shows "\<exists>srv' s'. cli (exchange h LZ4_compress_default junk) (unlines (ls @ [''quit'']) @ rest, True) variable (srv, s)
      = Some (variable, (srv', s'), welcome_text
          @ concat (map shown (answers (map command_of ls) (kv_of (server_db srv))))
          @ [NL] @ ''tap> BYE'' @ [NL] @ [NL] @ ''Goodbye'' @ [NL] @ [NL])
    \<and> \<not> running srv'
    \<and> recover (file_text (aof_path ks) s') = fold effect (map command_of ls) (kv_of (server_db srv))
    \<and> map_in_snapshot ks s' = Some (fold effect (map command_of ls) (kv_of (server_db srv)))"
proof -
  let ?e = "exchange h LZ4_compress_default junk" and ?m = "kv_of (server_db srv)"
  have ls: "list_all (\<lambda>l. data_line l \<and> NL \<notin> set l \<and> l \<noteq> ''help'') ls" "list_all (\<lambda>l. l \<noteq> ''help'') ls"
    and lines: "list_all (\<lambda>l. NL \<notin> set l \<and> l \<noteq> ''use'') (ls @ [''quit''])"
    using assms(4) by (auto simp: list_all_iff)
  then have filter: "filter (\<lambda>l. l \<noteq> ''help'') ls = ls" by (simp only: filter_id_conv list_all_iff)
  obtain db where t: "fold (\<lambda>l w. snd (?e l w)) ls (srv, s) = (srv\<lparr>server_db := db\<rparr>, s)"
    "journalled ks db s" "kv_of db = fold effect (map command_of ls) ?m"
    "transcript ?e (ls @ [''quit'']) (srv, s)
      = concat (map shown (answers (map command_of ls) ?m)) @ transcript ?e [''quit''] (srv\<lparr>server_db := db\<rparr>, s)"
    "\<forall>us l vs. ls = us @ l # vs \<longrightarrow> fst (?e l (fold (\<lambda>l w. snd (?e l w)) us (srv, s))) \<noteq> ''BYE''"
    using typed_lines [OF assms(1) ls(1) assms(5), of h LZ4_compress_default junk "[''quit'']"] by blast
  let ?srv = "srv\<lparr>server_db := db\<rparr>"
  have "int (snapshot_size (kv_of (server_db ?srv))) \<le> LZ4_MAX_INPUT_SIZE" using assms(6) t(3) by simp
  then obtain srv' s' where q: "?e ''quit'' (?srv, s) = (''BYE'', srv', s')" "\<not> running srv'"
    "recover (file_text (aof_path ks) s') = kv_of db" "map_in_snapshot ks s' = Some (kv_of db)"
    using quit_line [of ks ?srv s h junk] t(2) assms(2,3) by auto
  have "cli_loop ?e (unlines (ls @ [''quit'']) @ rest, True) variable (srv, s) welcome_text
      = Some (variable, snd (?e ''quit'' (?srv, s)), welcome_text @ transcript ?e (ls @ [''quit'']) (srv, s))"
    by (rule loop_ends_at_BYE [OF lines]) (use t(1,5) q(1) in \<open>simp_all only: filter fst_conv, simp_all\<close>)
  moreover have "transcript ?e [''quit''] (?srv, s) = [NL] @ ''tap> BYE'' @ [NL]" by (simp add: q(1))
  ultimately show ?thesis
    using q(2-4) t(3) by (intro exI [of _ srv'] exI [of _ s']) (simp add: cli_def q(1) t(4))
qed

theorem cli_session_witness:
  "\<exists>db s srv' s'. DB_ctor (\<lambda>_ _. 0) False ''k'' empty_fs = (Ok db, s)
    \<and> cli (exchange (\<lambda>_ _. 0) LZ4_compress_default False)
        (unlines ([''put a 1'', ''get a''] @ [''quit'']) @ ''get b'', True) [] (sample_server db, s)
      = Some ([], (srv', s'), welcome_text @ [NL] @ ''tap> '' @ [NL] @ [NL] @ ''tap> 1'' @ [NL] @ [NL]
          @ [NL] @ ''tap> BYE'' @ [NL] @ [NL] @ ''Goodbye'' @ [NL] @ [NL])
    \<and> recover (file_text (aof_path ''k'') s') = [''a'' \<mapsto> ''1'']
    \<and> map_in_snapshot ''k'' s' = Some [''a'' \<mapsto> ''1'']"
proof -
  let ?h = "\<lambda>_ _. 0" and ?s = "snd (open_append (aof_path ''k'') empty_fs)"
  let ?ls = "[''put a 1'', ''get a'']"
  obtain db where db: "DB_ctor ?h False ''k'' empty_fs = (Ok db, ?s)" "journalled ''k'' db ?s"
    "kv_of db = Map.empty"
    using first_session .
  have g: "command_of ''get a'' = Get ''a''" by code_simp
  have as: "answers (map command_of ?ls) Map.empty = [[], [''1'']]"
    and final: "fold effect (map command_of ?ls) Map.empty = [''a'' \<mapsto> ''1'']"
    by (simp_all add: sample_lines g)
  have j: "journalled ''k'' (server_db (sample_server db)) ?s" using db(2) by simp
  have w: "writable ?s (temp_path ''k'')" "writable ?s (db_path ''k'')" by simp_all
  have ls: "list_all (\<lambda>l. data_line l \<and> NL \<notin> set l \<and> l \<noteq> ''help'' \<and> l \<noteq> ''use'') ?ls"
    by (simp add: data_line_def db_line_samples sample_lines g)
  have e: "list_all (\<lambda>vs. \<not> sublist END_DELIM (printVector vs)) [[], [''1'']]"
    by (simp add: END_DELIM_def printVector_def sublist_Cons_right)
  have size: "int (snapshot_size [''a'' \<mapsto> ''1'']) \<le> LZ4_MAX_INPUT_SIZE"
    by (simp add: snapshot_size_def LZ4_MAX_INPUT_SIZE_def)
  from cli_session [OF j w ls, unfolded sample_server_db db(3) as final, OF e size,
      of ?h False "''get b''" "[]"]
  show ?thesis using db(1) by (auto simp: shown_def printVector_def)
qed

end
