(* ===== verification/Service_Spec.thy ===== *)
theory Service_Spec
  imports Requests
begin

text \<open>
  What the dispatcher promises for every line, not only for the commands on the data: the
  requests of the protocol, what each does to the map, and which replies to it are right.
  Listings follow the order of the hash table, so the specification of a reply is a
  relation: any order of the keys is right, each key once. A connection is right if every
  response is, in the state the requests before it have left.
\<close>

section \<open>The protocol\<close>

datatype request = Stats | Clear | Use string | Show | Keys | Values | Quit | Blank | Data command

definition request_of :: "string \<Rightarrow> request" where
  "request_of line =
     (let ts = tokenize line in
      if line = ''stats'' then Stats
      else if line = ''clear'' then Clear
      else if ts = [] then Blank
      else if ts ! 0 = ''use'' \<and> length ts = 2 then Use (ts ! 1)
      else if line = ''show'' then Show
      else if line = ''keys'' then Keys
      else if line = ''values'' then Values
      else if line = ''quit'' \<or> line = ''exit'' then Quit
      else Data (parse ts))"

fun request_effect :: "request \<Rightarrow> kv \<Rightarrow> kv" where
  "request_effect Clear m = Map.empty"
| "request_effect (Data c) m = effect c m"
| "request_effect _ m = m"

text \<open>The frame of a listing of a keyspace.\<close>

definition framed :: "string \<Rightarrow> string \<Rightarrow> string \<Rightarrow> string" where
  "framed what ks body = [NL] @ rule_line
     @ ''| '' @ what @ '' for keyspace: '' @ [CHR 0x27] @ ks @ [CHR 0x27, NL] @ body @ rule_line"

text \<open>The entries of a map, each once, in some order.\<close>

definition listing :: "kv \<Rightarrow> (string \<times> string) list \<Rightarrow> bool" where
  "listing m items = (distinct (map fst items) \<and> map_of items = m)"

definition map_bytes :: "kv \<Rightarrow> nat" where
  "map_bytes m = (\<Sum>k\<in>dom m. length k + length (the (m k)))"

fun reply :: "request \<Rightarrow> string \<Rightarrow> kv \<Rightarrow> string \<Rightarrow> bool" where
  "reply Stats ks m t =
     (t = framed ''Stats'' ks (''Total keys: '' @ show_nat (card (dom m)) @ [NL]
        @ ''Total bytes: '' @ show_nat (map_bytes m mod 2 ^ 64) @ [NL]))"
| "reply Clear ks m t = (t = ''OK'')"
| "reply Show ks m t =
     (\<exists>items. listing m items \<and> t = framed ''Key-values'' ks (concat (map (\<lambda>(k, v). k @ '': '' @ v @ [NL]) items)))"
| "reply Keys ks m t =
     (\<exists>items. listing m items \<and> t = framed ''Keys'' ks (concat (map (\<lambda>(k, v). k @ [NL]) items)))"
| "reply Values ks m t =
     (\<exists>items. listing m items \<and> t = framed ''Values'' ks (concat (map (\<lambda>(k, v). v @ [NL]) items)))"
| "reply Quit ks m t = (t = ''BYE'')"
| "reply (Data c) ks m t = (t = printVector (answer c m))"
| "reply (Use _) ks m t = False"
| "reply Blank ks m t = False"

text \<open>The messages on a connection: a right reply to each request, with the end mark. Only an
  exception of the snapshot at a \<open>Quit\<close> ends the connection before all requests are answered.\<close>

fun connection :: "string \<Rightarrow> request list \<Rightarrow> kv \<Rightarrow> string list \<Rightarrow> bool" where
  "connection ks rs m [] = (rs = [] \<or> hd rs = Quit)"
| "connection ks [] m (out # outs) = False"
| "connection ks (r # rs) m (out # outs) =
     ((\<exists>t. out = t @ END_DELIM \<and> reply r ks m t) \<and> connection ks rs (request_effect r m) outs)"

section \<open>Listings\<close>

lemma listing_store: "umap_wf (store db) \<Longrightarrow> listing (kv_of db) (store db)"
  by (simp add: listing_def umap_wf_def)

lemma reply_displays:
  assumes "umap_wf (store db)"
  shows "reply Show (name db) (kv_of db) (display db)"
    and "reply Keys (name db) (kv_of db) (displayKeys db)"
    and "reply Values (name db) (kv_of db) (displayValues db)"
    and "reply Stats (name db) (kv_of db) (displayStats db)"
proof -
  note l = listing_store [OF assms]
  show "reply Show (name db) (kv_of db) (display db)"
    unfolding reply.simps by (intro exI conjI, rule l) (simp add: display_def framed_def heading_def case_prod_unfold)
  show "reply Keys (name db) (kv_of db) (displayKeys db)"
    unfolding reply.simps
    by (intro exI conjI, rule l) (simp add: displayKeys_def framed_def heading_def getKeys_def case_prod_unfold o_def)
  show "reply Values (name db) (kv_of db) (displayValues db)"
    unfolding reply.simps
    by (intro exI conjI, rule l) (simp add: displayValues_def framed_def heading_def getValues_def case_prod_unfold o_def)
  show "reply Stats (name db) (kv_of db) (displayStats db)"
    using displayStats_correct [OF assms refl refl] by (simp add: framed_def heading_def map_bytes_def)
qed

section \<open>One request\<close>

definition served_ok :: "request \<Rightarrow> string \<Rightarrow> kv \<Rightarrow> string outcome \<Rightarrow> bool" where
  "served_ok r ks m out = ((\<exists>t. out = Ok t \<and> reply r ks m t) \<or> (r = Quit \<and> (\<exists>what. out = Throw what)))"

lemma served_ok_Ok: "reply r ks m t \<Longrightarrow> served_ok r ks m (Ok t)"
  by (simp add: served_ok_def)

lemma command_sound_eq:
  assumes "sound_db db"
  shows "fst (parseCommand h l db) = Ok (answer (command_of l) (kv_of db))"
    and "kv_of (snd (parseCommand h l db)) = effect (command_of l) (kv_of db)"
    and "name (snd (parseCommand h l db)) = name db"
proof -
  have "umap_wf (store db)" "usable (logger db)" using assms by (auto simp: sound_db_def usable_def)
  from parseCommand_eq [OF this] obtain st where st: "map_of st = effect (command_of l) (kv_of db)"
    "parseCommand h l db = (Ok (answer (command_of l) (kv_of db)), after_command (command_of l) st db)"
    by blast
  show "fst (parseCommand h l db) = Ok (answer (command_of l) (kv_of db))" by (simp only: st(2) fst_conv)
  show "kv_of (snd (parseCommand h l db)) = effect (command_of l) (kv_of db)"
    by (simp only: st snd_conv after_command_simps)
  show "name (snd (parseCommand h l db)) = name db" by (simp only: st(2) snd_conv after_command_simps)
qed

text \<open>A request that is not blank has a first token, and only a request \<^verbatim>\<open>use\<close> has the tokens of one.\<close>

lemma request_tokens:
  assumes "request_of l \<noteq> Blank" and "request_of l \<notin> range Use"
  shows "tokenize l \<noteq> [] \<or> l = ''stats'' \<or> l = ''clear''"
    and "\<not> (tokenize l ! 0 = ''use'' \<and> length (tokenize l) = 2) \<or> l = ''stats'' \<or> l = ''clear''"
proof -
  show "tokenize l \<noteq> [] \<or> l = ''stats'' \<or> l = ''clear''"
    by (rule ccontr) (use assms(1) in \<open>simp add: request_of_def\<close>)
  show "\<not> (tokenize l ! 0 = ''use'' \<and> length (tokenize l) = 2) \<or> l = ''stats'' \<or> l = ''clear''"
  proof (rule ccontr)
    assume a: "\<not> ?thesis"
    then have "tokenize l \<noteq> []" by auto
    with a have "request_of l = Use (tokenize l ! 1)" by (simp add: request_of_def Let_def)
    with assms(2) show False by simp
  qed
qed

lemma dispatcher_serves:
  assumes "sound_db (server_db srv)" and "request_of l \<noteq> Blank" and "request_of l \<notin> range Use"
    and "dispatcher h lz4 junk l srv s = (out, srv', s')"
  shows "served_ok (request_of l) (name (server_db srv)) (kv_of (server_db srv)) out
    \<and> sound_db (server_db srv') \<and> name (server_db srv') = name (server_db srv)
    \<and> kv_of (server_db srv') = request_effect (request_of l) (kv_of (server_db srv))
    \<and> running srv' = (running srv \<and> request_of l \<noteq> Quit)"
proof -
  let ?db = "server_db srv"
  have wf: "umap_wf (store ?db)" using assms(1) by (simp add: sound_db_def)
  obtain rs db2 s2 where sh: "shutdown lz4 ?db s = (rs, db2, s2)" by (metis prod_cases3)
  note ss = shutdown_sound [OF assms(1) sh] and d2 = shutdown_db [OF sh]
  obtain out2 db3 where pc: "parseCommand h l ?db = (out2, db3)" by fastforce
  note pe = command_sound_eq [OF assms(1), of h l, unfolded pc fst_conv snd_conv]
  obtain db4 s4 where cl: "clearData ?db s = (db4, s4)" by fastforce
  then have d4: "db4 = ?db\<lparr>store := []\<rparr>" by (auto simp: clearData_def Let_def)
  define ts where "ts = tokenize l"
  define P where "P = (\<lambda>r (out, srv' :: Server, s' :: fs). served_ok r (name ?db) (kv_of ?db) out
    \<and> sound_db (server_db srv') \<and> name (server_db srv') = name ?db
    \<and> kv_of (server_db srv') = request_effect r (kv_of ?db) \<and> running srv' = (running srv \<and> r \<noteq> Quit))"
  have either: "(b \<Longrightarrow> P r x) \<Longrightarrow> (\<not> b \<Longrightarrow> P q y) \<Longrightarrow> P (if b then r else q) (if b then x else y)"
    for b r q x y by simp
  have quit_ok: "P Quit (case rs of Inl e \<Rightarrow> Inl e | Inr _ \<Rightarrow> Ok ''BYE'', srv\<lparr>running := False, server_db := db2\<rparr>, s2)"
  proof (cases rs)
    case (Inl e)
    then obtain what where "e = Exception what" using ss(1) by (cases e) auto
    with Inl ss(2) show ?thesis by (simp add: P_def d2 served_ok_def)
  qed (use ss(2) in \<open>simp add: P_def d2 served_ok_def\<close>)
  have data_ok: "P (Data (parse ts)) (case out2 of Inl e \<Rightarrow> Inl e | Inr res \<Rightarrow> if res = [] then Ok [] else Ok (printVector res),
      srv\<lparr>server_db := db3\<rparr>, s)"
    using pe command_sound(2) [OF assms(1), of h l]
    by (simp add: P_def pc served_ok_def command_of_def ts_def)
  have clear_ok: "P Clear (Ok ''OK'', srv\<lparr>server_db := db4\<rparr>, s4)"
    using assms(1) by (simp add: P_def d4 served_ok_def sound_db_def umap_wf_def)
  have same: "reply r (name ?db) (kv_of ?db) t \<Longrightarrow> r \<in> {Show, Keys, Values, Stats} \<Longrightarrow> P r (Ok t, srv, s)" for r t
    using assms(1) by (auto simp: P_def intro: served_ok_Ok)
  have "P (request_of l) (dispatcher h lz4 junk l srv s)"
    unfolding request_of_def dispatcher_def Let_def ts_def [symmetric] cl pc sh prod.case
    using request_tokens [OF assms(2,3)] unfolding ts_def [symmetric]
    by (intro either) (simp_all add: same reply_displays [OF wf] clear_ok quit_ok data_ok del: reply.simps)
  then show ?thesis by (simp add: P_def assms(4))
qed

section \<open>A connection\<close>

lemma serve_lines_connection:
  assumes "\<forall>l \<in> set ls. request_of l \<noteq> Blank \<and> request_of l \<notin> range Use" and "sound_db (server_db srv)"
    and "serve_lines h lz4 junk ls srv s = ((sent, r), srv', s')"
  shows "r = Ok () \<and> connection (name (server_db srv)) (map request_of ls) (kv_of (server_db srv)) sent
    \<and> sound_db (server_db srv') \<and> name (server_db srv') = name (server_db srv)
    \<and> kv_of (server_db srv')
      = fold request_effect (map request_of (take (length sent) ls)) (kv_of (server_db srv))
    \<and> (running srv' \<longrightarrow> running srv \<and> length sent = length ls \<and> Quit \<notin> request_of ` set ls)"
  using assms
proof (induction ls arbitrary: srv s sent)
  case (Cons l ls)
  let ?m = "kv_of (server_db srv)" and ?ks = "name (server_db srv)"
  have l: "request_of l \<noteq> Blank" "request_of l \<notin> range Use"
    and ls: "\<forall>l \<in> set ls. request_of l \<noteq> Blank \<and> request_of l \<notin> range Use"
    using Cons.prems(1) by simp_all
  obtain out srv1 s1 where d: "dispatcher h lz4 junk l srv s = (out, srv1, s1)" by (metis prod_cases3)
  note ds = dispatcher_serves [OF Cons.prems(2) l d]
  show ?case
  proof (cases out)
    case (Inl e)
    then obtain what where "e = Exception what" "request_of l = Quit"
      using ds by (auto simp: served_ok_def)
    then have "sent = []" "r = Ok ()" "srv' = srv1" using Cons.prems(3) d Inl by simp_all
    then show ?thesis using ds \<open>request_of l = Quit\<close> by simp
  next
    case (Inr t)
    obtain sent1 r1 srv2 s2 where sl: "serve_lines h lz4 junk ls srv1 s1 = ((sent1, r1), srv2, s2)"
      by (metis prod.exhaust)
    have e: "sent = (t @ END_DELIM) # sent1" "r1 = r" "srv2 = srv'" "s2 = s'"
      using Cons.prems(3) d sl Inr by simp_all
    have sd: "sound_db (server_db srv1)" using ds by blast
    show ?thesis using ds Inr Cons.IH [OF ls sd sl [unfolded e(2-4)]] by (auto simp: e(1) served_ok_def)
  qed
qed simp

text \<open>C6. The protocol. Whatever bytes arrive in whatever segments, as long as no line the server
  reads from them is blank or a \<^verbatim>\<open>use\<close>: every response is a right reply to its request in the
  state the requests before it have left, commands on the data, listings, statistics,
  \<^verbatim>\<open>clear\<close> and \<^verbatim>\<open>quit\<close> in any order; only a \<^verbatim>\<open>quit\<close> whose snapshot throws ends the connection
  before the last request; the server goes on running unless there was a \<^verbatim>\<open>quit\<close>.\<close>
theorem handleClient_refines_protocol:
  assumes "sound_db (server_db srv)"
    and "\<forall>l \<in> set (received segs). request_of l \<noteq> Blank \<and> request_of l \<notin> range Use"
    and "handleClient h lz4 junk segs srv s = ((sent, r), srv', s')"
  shows "r = Ok () \<and> connection (name (server_db srv)) (map request_of (received segs)) (kv_of (server_db srv)) sent
    \<and> sound_db (server_db srv') \<and> name (server_db srv') = name (server_db srv)
    \<and> kv_of (server_db srv')
      = fold request_effect (map request_of (take (length sent) (received segs))) (kv_of (server_db srv))
    \<and> (running srv' \<longrightarrow> running srv \<and> length sent = length (received segs)
        \<and> Quit \<notin> request_of ` set (received segs))"
  by (rule serve_lines_connection [OF assms(2,1) assms(3) [unfolded handleClient_lines]])

theorem handleClient_refines_protocol_witness:
  "\<exists>sent srv' s'. handleClient (\<lambda>_ _. 0) (\<lambda>src n cap. (0, [])) False [''put a 7'' @ [NL], ''ke'', ''ys'' @ [NL], ''clear'' @ [NL]]
      (sample_server sample_db) empty_fs = ((sent, Ok ()), srv', s')
    \<and> connection ''k'' [Data (Put ''a'' ''7''), Keys, Clear] [''a'' \<mapsto> ''1'', ''b'' \<mapsto> ''2''] sent
    \<and> sound_db (server_db srv')"
proof -
  let ?segss = "[[''put a 7'' @ [NL]], [''ke'', ''ys'' @ [NL]], [''clear'' @ [NL]]]" and ?ls = "[''put a 7'', ''keys'', ''clear'']"
  have rq: "request_of ''put a 7'' = Data (Put ''a'' ''7'')" "request_of ''keys'' = Keys" "request_of ''clear'' = Clear"
    by code_simp+
  then have lines: "\<forall>l \<in> set ?ls. request_of l \<noteq> Blank \<and> request_of l \<notin> range Use" by auto
  have "list_all2 (\<lambda>l segs. NL \<notin> set l \<and> cut_line l segs) ?ls ?segss"
    by (simp add: cut_line_def sent_line_def)
  then have rc: "received (concat ?segss) = ?ls" by (rule received_cut)
  have sd: "sound_db (server_db (sample_server sample_db))"
    by (simp add: sound_db_def sample_db_def umap_wf_def)
  obtain sent r srv' s' where hc: "handleClient (\<lambda>_ _. 0) (\<lambda>src n cap. (0, [])) False (concat ?segss)
      (sample_server sample_db) empty_fs = ((sent, r), srv', s')"
    by (metis prod.exhaust)
  have n: "name sample_db = ''k''" by (simp add: sample_db_def)
  note hp = handleClient_refines_protocol [OF sd _ hc, unfolded rc, OF lines, unfolded sample_server_db sample_db_simps n list.map rq]
  have "connection ''k'' [Data (Put ''a'' ''7''), Keys, Clear] [''a'' \<mapsto> ''1'', ''b'' \<mapsto> ''2''] sent"
    by (rule hp [THEN conjunct2, THEN conjunct1])
  moreover have "sound_db (server_db srv')" "r = Ok ()"
    by (rule hp [THEN conjunct2, THEN conjunct2, THEN conjunct1], rule hp [THEN conjunct1])
  ultimately show ?thesis using hc by (simp add: concat.simps)
qed

end
