(* ===== verification/Service_Threads.thy ===== *)
theory Service_Threads
  imports Interleaving Service_Spec
begin

text \<open>
  The whole protocol with several clients at once: whatever the turns of the threads, there is one
  history of the requests of all clients, in which each client's requests stand in its own
  order, and every response is right at its place in the history.
\<close>

section \<open>Histories\<close>

text \<open>A history of lines with the clients that sent them, against the responses. A \<^verbatim>\<open>quit\<close> whose
  snapshot throws has no response.\<close>

inductive serves :: "string \<Rightarrow> (nat \<times> string) list \<Rightarrow> kv \<Rightarrow> (nat \<times> string) list \<Rightarrow> bool" for ks where
  nothing: "serves ks [] m []"
| answered: "reply (request_of l) ks m t \<Longrightarrow> serves ks ls (request_effect (request_of l) m) outs
    \<Longrightarrow> serves ks ((c, l) # ls) m ((c, t @ END_DELIM) # outs)"
| thrown: "request_of l = Quit \<Longrightarrow> serves ks ls m outs \<Longrightarrow> serves ks ((c, l) # ls) m outs"

inductive_cases serves_NilE: "serves ks [] m outs"
inductive_cases serves_ConsE: "serves ks ((c, l) # ls) m outs"

definition requests :: "(nat \<times> string) list \<Rightarrow> request list" where
  "requests = map (\<lambda>(c, l). request_of l)"

text \<open>What a history explains: the responses, the state and the flag of the server.\<close>

definition explains ::
  "(nat \<times> string) list \<Rightarrow> Server \<Rightarrow> (nat \<times> string) list \<Rightarrow> unit outcome \<Rightarrow> Server \<Rightarrow> bool" where
  "explains ls srv out r srv' =
     (r = Ok () \<and> serves (name (server_db srv)) ls (kv_of (server_db srv)) out
      \<and> sound_db (server_db srv') \<and> name (server_db srv') = name (server_db srv)
      \<and> kv_of (server_db srv') = fold request_effect (requests ls) (kv_of (server_db srv))
      \<and> running srv' = (running srv \<and> Quit \<notin> set (requests ls)))"

lemma explains_Nil: "sound_db (server_db srv) \<Longrightarrow> explains [] srv [] (Ok ()) srv"
  by (simp add: explains_def requests_def serves.nothing)

lemma explains_answered:
  assumes "explains ls srv1 out r srv'" and "reply (request_of l) (name (server_db srv)) (kv_of (server_db srv)) t"
    and "name (server_db srv1) = name (server_db srv)"
    and "kv_of (server_db srv1) = request_effect (request_of l) (kv_of (server_db srv))"
    and "running srv1 = (running srv \<and> request_of l \<noteq> Quit)"
  shows "explains ((c, l) # ls) srv ((c, t @ END_DELIM) # out) r srv'"
  using assms by (auto simp: explains_def requests_def intro: serves.answered)

lemma explains_thrown:
  assumes "explains ls srv1 out r srv'" and "request_of l = Quit" and "name (server_db srv1) = name (server_db srv)"
    and "kv_of (server_db srv1) = kv_of (server_db srv)" and "\<not> running srv1"
  shows "explains ((c, l) # ls) srv out r srv'"
  using assms by (auto simp: explains_def requests_def intro: serves.thrown)

lemma explains_silent:
  assumes "explains ls srv1 out r srv'" and "name (server_db srv1) = name (server_db srv)"
    and "kv_of (server_db srv1) = kv_of (server_db srv)" and "running srv1 = running srv"
  shows "explains ls srv out r srv'"
  using assms by (simp add: explains_def)

text \<open>The lines of one client in a history.\<close>

definition lines_by :: "nat \<Rightarrow> (nat \<times> string) list \<Rightarrow> string list" where
  "lines_by c ls = map snd (filter (\<lambda>x. fst x = c) ls)"

lemma lines_by_simps [simp]:
  "lines_by c [] = []" "lines_by c ((d, l) # ls) = (if d = c then l # lines_by c ls else lines_by c ls)"
  by (simp_all add: lines_by_def)

lemma in_order_read:
  assumes "server_read (ins d) = Some (l, segs)" and "\<forall>c. prefix (lines_by c ls) (received ((ins(d := segs')) c))"
    and "segs' = segs \<or> segs' = []"
  shows "\<forall>c. prefix (lines_by c ((d, l) # ls)) (received (ins c))"
proof
  fix c
  have "prefix (lines_by c ls) (received ((ins(d := segs')) c))" using assms(2) by blast
  then show "prefix (lines_by c ((d, l) # ls)) (received (ins c))"
    using assms(3) received_Some [OF assms(1)] by (cases "c = d") auto
qed

lemma flush_sound:
  assumes "sound_db db" and "flush_db (db, s) = (db', s')"
  shows "sound_db db'" and "name db' = name db" and "kv_of db' = kv_of db"
  using assms by (auto simp: sound_db_def flush_db_def flush_iteration_def Let_def split: if_splits prod.splits)

section \<open>Any order\<close>

definition allowed :: "string \<Rightarrow> bool" where
  "allowed l = (request_of l \<noteq> Blank \<and> request_of l \<notin> range Use)"

definition historic ::
  "turn list \<Rightarrow> (nat \<Rightarrow> string list) \<Rightarrow> Server \<Rightarrow> (nat \<times> string) list \<Rightarrow> unit outcome \<Rightarrow> Server \<Rightarrow> bool" where
  "historic ts ins srv out r srv' =
     (\<exists>ls. explains ls srv out r srv' \<and> (\<forall>c. prefix (lines_by c ls) (received (ins c)))
        \<and> (Quit \<notin> set (requests (taken ts ins)) \<longrightarrow> ls = taken ts ins))"

lemma historic_Nil: "sound_db (server_db srv) \<Longrightarrow> historic [] ins srv [] (Ok ()) srv"
  unfolding historic_def by (intro exI [of _ "[]"]) (simp add: explains_Nil)

lemma historic_flush:
  assumes "sound_db (server_db srv)" and "flush_db (server_db srv, s) = (db, s1)"
    and "historic ts ins (srv\<lparr>server_db := db\<rparr>) out r srv'"
  shows "historic (Flush_turn # ts) ins srv out r srv'"
proof -
  have "explains ls srv out r srv'" if "explains ls (srv\<lparr>server_db := db\<rparr>) out r srv'" for ls
    using that by (rule explains_silent) (simp_all add: flush_sound [OF assms(1,2)])
  then show ?thesis using assms(3) unfolding historic_def taken.simps by blast
qed

lemma historic_idle:
  assumes "server_read (ins c) = None" and "historic ts (ins(c := [])) srv out r srv'"
  shows "historic (Turn c # ts) ins srv out r srv'"
proof -
  have "received ((ins(c := [])) d) = received (ins d)" for d
    using received_None [OF assms(1)] by simp
  then show ?thesis using assms(2) by (simp add: historic_def assms(1) del: fun_upd_apply)
qed

lemma historic_thrown:
  assumes rd: "server_read (ins c) = Some (l, segs)" and q: "request_of l = Quit"
    and srv1: "name (server_db srv1) = name (server_db srv)" "kv_of (server_db srv1) = kv_of (server_db srv)" "\<not> running srv1"
    and h: "historic ts (ins(c := [])) srv1 out r srv'"
  shows "historic (Turn c # ts) ins srv out r srv'"
proof -
  obtain ls where ls: "explains ls srv1 out r srv'" "\<forall>d. prefix (lines_by d ls) (received ((ins(c := [])) d))"
    using h unfolding historic_def by blast
  have "\<forall>d. prefix (lines_by d ((c, l) # ls)) (received (ins d))"
    by (rule in_order_read [OF rd ls(2)]) simp
  moreover have "Quit \<in> set (requests (taken (Turn c # ts) ins))"
    by (simp add: rd requests_def q del: fun_upd_apply)
  ultimately show ?thesis using explains_thrown [OF ls(1) q srv1] unfolding historic_def by blast
qed

lemma historic_answered:
  assumes rd: "server_read (ins c) = Some (l, segs)"
    and rp: "reply (request_of l) (name (server_db srv)) (kv_of (server_db srv)) t"
    and srv1: "name (server_db srv1) = name (server_db srv)"
      "kv_of (server_db srv1) = request_effect (request_of l) (kv_of (server_db srv))"
      "running srv1 = (running srv \<and> request_of l \<noteq> Quit)"
    and h: "historic ts (ins(c := segs)) srv1 out r srv'"
  shows "historic (Turn c # ts) ins srv ((c, t @ END_DELIM) # out) r srv'"
proof -
  obtain ls where ls: "explains ls srv1 out r srv'" "\<forall>d. prefix (lines_by d ls) (received ((ins(c := segs)) d))"
    "Quit \<notin> set (requests (taken ts (ins(c := segs)))) \<longrightarrow> ls = taken ts (ins(c := segs))"
    using h unfolding historic_def by blast
  have "\<forall>d. prefix (lines_by d ((c, l) # ls)) (received (ins d))"
    by (rule in_order_read [OF rd ls(2)]) simp
  moreover have "Quit \<notin> set (requests (taken (Turn c # ts) ins)) \<longrightarrow> (c, l) # ls = taken (Turn c # ts) ins"
    using ls(3) by (simp add: rd requests_def del: fun_upd_apply)
  ultimately show ?thesis using explains_answered [OF ls(1) rp srv1] unfolding historic_def by blast
qed

lemma historic_served:
  assumes sd: "sound_db (server_db srv)" and al: "\<forall>c. list_all allowed (received (ins c))"
    and rd: "server_read (ins c) = Some (l, segs)"
    and run: "interleave h lz4 junk (Turn c # ts) ins srv s = ((out, r), srv', s')"
    and rest: "\<And>ins srv s out. sound_db (server_db srv) \<Longrightarrow> \<forall>c. list_all allowed (received (ins c))
      \<Longrightarrow> interleave h lz4 junk ts ins srv s = ((out, r), srv', s') \<Longrightarrow> historic ts ins srv out r srv'"
  shows "historic (Turn c # ts) ins srv out r srv'"
proof -
  note rt = received_taken [OF al rd]
  have l: "request_of l \<noteq> Blank" "request_of l \<notin> range Use" using rt(1) by (simp_all add: allowed_def)
  obtain o1 srv1 s1 where d: "dispatcher h lz4 junk l srv s = (o1, srv1, s1)" by (metis prod_cases3)
  note ds = dispatcher_serves [OF sd l d]
  have sd1: "sound_db (server_db srv1)" using ds by blast
  show ?thesis
  proof (cases o1)
    case (Inl e)
    then obtain what where e: "e = Exception what" "request_of l = Quit" using ds by (auto simp: served_ok_def)
    have closed: "\<forall>d. list_all allowed (received ((ins(c := [])) d))" using al by simp
    from rest [OF sd1 closed, of s1 out] run
    have "historic ts (ins(c := [])) srv1 out r srv'" by (simp add: rd d Inl e del: fun_upd_apply)
    then show ?thesis by (intro historic_thrown [where ins = ins, OF rd e(2)]) (use ds e(2) in simp_all)
  next
    case (Inr t1)
    obtain out1 where i: "interleave h lz4 junk ts (ins(c := segs)) srv1 s1 = ((out1, r), srv', s')"
      "out = (c, t1 @ END_DELIM) # out1"
      using run by (auto simp: rd d Inr split: prod.splits)
    note h = rest [OF sd1 rt(2) i(1)]
    show ?thesis unfolding i(2)
      by (rule historic_answered [where ins = ins, OF rd _ _ _ _ h]) (use ds Inr in \<open>auto simp: served_ok_def\<close>)
  qed
qed

lemma interleave_historic:
  assumes "sound_db (server_db srv)" and "\<forall>c. list_all allowed (received (ins c))"
    and "interleave h lz4 junk ts ins srv s = ((out, r), srv', s')"
  shows "historic ts ins srv out r srv'"
  using assms
proof (induction ts arbitrary: ins srv s out)
  case Nil
  then show ?case using historic_Nil by auto
next
  case (Cons t ts)
  show ?case
  proof (cases t)
    case Flush_turn
    obtain db s1 where f: "flush_db (server_db srv, s) = (db, s1)" by fastforce
    have "sound_db (server_db (srv\<lparr>server_db := db\<rparr>))" using flush_sound [OF Cons.prems(1) f] by simp
    from Cons.IH [OF this Cons.prems(2), of s1 out] Cons.prems(3)
    have "historic ts ins (srv\<lparr>server_db := db\<rparr>) out r srv'" by (simp add: Flush_turn f)
    then show ?thesis unfolding Flush_turn by (rule historic_flush [OF Cons.prems(1) f])
  next
    case (Turn c)
    show ?thesis
    proof (cases "server_read (ins c)")
      case None
      have closed: "\<forall>d. list_all allowed (received ((ins(c := [])) d))" using Cons.prems(2) by simp
      from Cons.IH [OF Cons.prems(1) closed, of s out] Cons.prems(3)
      have "historic ts (ins(c := [])) srv out r srv'" by (simp add: Turn None del: fun_upd_apply)
      then show ?thesis unfolding Turn by (rule historic_idle [where ins = ins, OF None])
    next
      case (Some a)
      then show ?thesis unfolding Turn
        using historic_served [OF Cons.prems(1,2) _ Cons.prems(3) [unfolded Turn] Cons.IH, of "fst a" "snd a"] by simp
    qed
  qed
qed

text \<open>C5. Several clients and the whole protocol. Whatever bytes the clients send, as long as no line
  is blank or a \<^verbatim>\<open>use\<close>, and whatever the turns of their threads and of the flush thread: no thread
  meets undefined behaviour, and there is one history of requests that explains everything.
  Each client's lines stand in it in the order in which it sent them, every response goes to the
  client of its request and is right in the state the requests before it have left, and the
  table and the flag of the server are what the history makes of them. Without a \<^verbatim>\<open>quit\<close> the
  history is the lines in the order in which they were read.\<close>
theorem interleaved_protocol:
  assumes "sound_db (server_db srv)"
    and "\<forall>c. \<forall>l \<in> set (received (ins c)). request_of l \<noteq> Blank \<and> request_of l \<notin> range Use"
    and "interleave h lz4 junk ts ins srv s = ((out, r), srv', s')"
  shows "\<exists>ls. r = Ok () \<and> serves (name (server_db srv)) ls (kv_of (server_db srv)) out
    \<and> (\<forall>c. prefix (lines_by c ls) (received (ins c)))
    \<and> kv_of (server_db srv') = fold request_effect (requests ls) (kv_of (server_db srv))
    \<and> running srv' = (running srv \<and> Quit \<notin> set (requests ls))
    \<and> (Quit \<notin> set (requests (taken ts ins)) \<longrightarrow> ls = taken ts ins)"
proof -
  have "\<forall>c. list_all allowed (received (ins c))" using assms(2) by (simp add: list_all_iff allowed_def)
  from interleave_historic [OF assms(1) this assms(3)] show ?thesis
    unfolding historic_def explains_def by blast
qed

theorem interleaved_protocol_witness:
  "\<exists>out srv' s'. interleave (\<lambda>_ _. 0) (\<lambda>src n cap. (0, [])) False [Turn 1, Flush_turn, Turn 0, Turn 1, Turn 1]
      (\<lambda>c. if c = 0 then [''ke'', ''ys'' @ [NL]] else if c = 1 then [''put a 7'' @ [NL], ''clear'' @ [NL]] else [])
      (sample_server sample_db) empty_fs = ((out, Ok ()), srv', s')
    \<and> serves ''k'' [(1, ''put a 7''), (0, ''keys''), (1, ''clear'')] [''a'' \<mapsto> ''1'', ''b'' \<mapsto> ''2''] out
    \<and> kv_of (server_db srv') = Map.empty"
proof -
  let ?ins = "\<lambda>c :: nat. if c = 0 then [''ke'', ''ys'' @ [NL]] else if c = 1 then [''put a 7'' @ [NL], ''clear'' @ [NL]] else []"
  let ?ts = "[Turn 1, Flush_turn, Turn 0, Turn 1, Turn 1]" and ?ls = "[(1, ''put a 7''), (0, ''keys''), (1, ''clear'')]"
  have rq: "request_of ''put a 7'' = Data (Put ''a'' ''7'')" "request_of ''keys'' = Keys" "request_of ''clear'' = Clear"
    by code_simp+
  have cuts: "cut_line ''keys'' [''ke'', ''ys'' @ [NL]]" "cut_line ''put a 7'' [''put a 7'' @ [NL]]" "cut_line ''clear'' [''clear'' @ [NL]]"
    by (simp_all add: cut_line_def sent_line_def)
  have rd: "server_read [''ke'', ''ys'' @ [NL]] = Some (''keys'', [])"
    "server_read [''put a 7'' @ [NL], ''clear'' @ [NL]] = Some (''put a 7'', [''clear'' @ [NL]])"
    "server_read [''clear'' @ [NL]] = Some (''clear'', [])"
    using server_read_cut [OF _ cuts(1), of "[]"] server_read_cut [OF _ cuts(2), of "[''clear'' @ [NL]]"]
      server_read_cut [OF _ cuts(3), of "[]"] by simp_all
  have tk: "taken ?ts ?ins = ?ls" by (simp add: rd [simplified])
  have ok: "\<forall>c. \<forall>l \<in> set (received (?ins c)). request_of l \<noteq> Blank \<and> request_of l \<notin> range Use"
  proof
    fix c
    have "received (?ins c) \<in> {[''keys''], [''put a 7'', ''clear''], []}"
      using received_Some [OF rd(1)] received_Some [OF rd(2)] received_Some [OF rd(3)]
      by (simp only: received_Nil split: if_split) blast
    then show "\<forall>l \<in> set (received (?ins c)). request_of l \<noteq> Blank \<and> request_of l \<notin> range Use"
      using rq by fastforce
  qed
  have sd: "sound_db (server_db (sample_server sample_db))"
    by (simp add: sound_db_def sample_db_def umap_wf_def)
  let ?run = "interleave (\<lambda>_ _. 0) (\<lambda>src n cap. (0, [])) False ?ts ?ins (sample_server sample_db) empty_fs"
  obtain x srv' s' where i0: "?run = (x, srv', s')" by (rule prod_cases3)
  obtain out r where "x = (out, r)" by (rule prod.exhaust)
  with i0 have i: "?run = ((out, r), srv', s')" by (simp only:)
  have n: "name sample_db = ''k''" by (simp add: sample_db_def)
  have q: "requests ?ls = [Data (Put ''a'' ''7''), Keys, Clear]" by (simp add: requests_def rq)
  obtain ls where ls: "r = Ok ()" "serves ''k'' ls [''a'' \<mapsto> ''1'', ''b'' \<mapsto> ''2''] out"
    "kv_of (server_db srv') = fold request_effect (requests ls) [''a'' \<mapsto> ''1'', ''b'' \<mapsto> ''2'']"
    "Quit \<notin> set (requests ?ls) \<longrightarrow> ls = ?ls"
    using interleaved_protocol [OF sd ok i, unfolded tk sample_server_db sample_db_simps n] by blast
  have "Quit \<notin> set (requests ?ls)" unfolding q by simp
  with ls(4) have eq: "ls = ?ls" by (rule mp)
  have "kv_of (server_db srv') = Map.empty" unfolding ls(3) eq q by simp
  then show ?thesis using i ls(2) unfolding ls(1) eq by blast
qed

end
