(* ===== verification/Torn_Writes.thy ===== *)
theory Torn_Writes
  imports Hazards
begin

text \<open>
  Crashes in the middle of a write and in the middle of a shutdown. The write of the flush
  thread and of \<^verbatim>\<open>closeLog\<close> is one call with the whole buffer: the process can die
  when any number of its bytes have reached the file. What a restart then finds is the state
  after some of the commands, up to one key; theorems below say which key, and what the torn
  line does to the session that follows.
\<close>

section \<open>The text of a write that was cut off\<close>

lemma take_unlines:
  "\<exists>i f. i \<le> length ls \<and> take n (unlines ls) = unlines (take i ls) @ f
     \<and> (f = [] \<or> (i < length ls \<and> prefix f (ls ! i)))"
proof (induction ls arbitrary: n)
  case (Cons l ls)
  show ?case
  proof (cases "n \<le> length l")
    case True
    then have "take n (unlines (l # ls)) = unlines (take 0 (l # ls)) @ take n l" by simp
    moreover have "prefix (take n l) ((l # ls) ! 0)" by (simp add: take_is_prefix)
    ultimately show ?thesis by (metis le0 length_greater_0_conv list.discI)
  next
    case False
    obtain i f where i: "i \<le> length ls" "take (n - Suc (length l)) (unlines ls) = unlines (take i ls) @ f"
      "f = [] \<or> (i < length ls \<and> prefix f (ls ! i))"
      using Cons.IH by blast
    have "take n (unlines (l # ls)) = unlines (take (Suc i) (l # ls)) @ f"
      using False i(2) by (simp add: take_Cons' Suc_diff_le)
    moreover have "Suc i \<le> length (l # ls)"
      "f = [] \<or> (Suc i < length (l # ls) \<and> prefix f ((l # ls) ! Suc i))"
      using i(1,3) by simp_all
    ultimately show ?thesis by blast
  qed
qed simp

lemma getlines_torn:
  assumes "list_all (\<lambda>l. NL \<notin> set l) ls" and "NL \<notin> set f"
  shows "getlines (unlines ls @ f) = ls @ (if f = [] then [] else [f])"
  using assms by (simp add: getlines_unlines_append getlines_last)

section \<open>What the replay makes of a torn line\<close>

lemma words_prefix_word:
  assumes "is_word w" and "prefix u w"
  shows "words u = (if u = [] then [] else [u])"
proof (cases "u = []")
  case False
  with assms have "is_word u" by (auto simp: is_word_def prefix_def)
  with False show ?thesis by (simp add: words_last)
qed simp

text \<open>A prefix of words joined by blanks is some of the words and a part of the next.\<close>

lemma words_prefix_join:
  assumes "list_all is_word ws" and "prefix u (join_words ws)"
  shows "\<exists>i p. words u = take i ws @ p \<and> (p = [] \<or> (i < length ws \<and> length p = 1 \<and> hd p \<noteq> [] \<and> prefix (hd p) (ws ! i)))"
  using assms
proof (induction ws arbitrary: u rule: join_words.induct)
  case 1
  then show ?case by simp
next
  case (2 w)
  then have "words u = (if u = [] then [] else [u])" by (simp add: words_prefix_word)
  with 2 show ?case by (intro exI [of _ 0] exI [of _ "if u = [] then [] else [u]"]) simp
next
  case (3 w v vs)
  from "3.prems"(2) consider "prefix u w" | u' where "u = w @ SPACE # u'" "prefix u' (join_words (v # vs))"
    by (auto simp: prefix_append prefix_Cons)
  then show ?case
  proof cases
    case 1
    then have "words u = (if u = [] then [] else [u])" using "3.prems"(1) words_prefix_word [of w u] by simp
    with 1 show ?thesis by (intro exI [of _ 0] exI [of _ "if u = [] then [] else [u]"]) simp
  next
    case 2
    obtain i p where ip: "words u' = take i (v # vs) @ p"
      "p = [] \<or> (i < length (v # vs) \<and> length p = 1 \<and> hd p \<noteq> [] \<and> prefix (hd p) ((v # vs) ! i))"
      using "3.IH" [OF _ 2(2)] "3.prems"(1) by auto
    have "words u = take (Suc i) (w # v # vs) @ p"
      using 2(1) ip(1) "3.prems"(1) by (simp add: words_word)
    with ip(2) show ?thesis by (intro exI [of _ "Suc i"] exI [of _ p]) simp
  qed
qed

text \<open>Words of which all but the last do not end with a quotation mark are one token, if the
  first opens a quotation.\<close>

lemma quoted_words_all:
  assumes "list_all (\<lambda>w. last w \<noteq> QUOTE) (butlast (t # ws))"
  shows "snd (quoted_words b t ws) = []"
  using assms by (induction ws arbitrary: b t) auto

lemma group_words_torn:
  assumes "hd (hd ws) = QUOTE" and "list_all (\<lambda>w. last w \<noteq> QUOTE) (butlast ws)"
  shows "length (group_words ws) \<le> 1"
  using assms by (cases ws) (auto simp: Let_def quoted_words_all)

lemma butlast_take_subset: "set (butlast (take i ws)) \<subseteq> set (butlast ws)"
proof (cases "i < length ws")
  case True
  then have "take i ws = take i (butlast ws)" by (simp add: take_butlast)
  then show ?thesis by (auto dest!: in_set_butlastD in_set_takeD)
qed simp

text \<open>The words of the beginning of a group: some of its words and perhaps the beginning of the next.\<close>

lemma torn_group:
  assumes q: "quoted_group ws" and us: "us = take i ws @ p" "us \<noteq> []"
    and p: "p = [] \<or> (i < length ws \<and> length p = 1 \<and> hd p \<noteq> [] \<and> prefix (hd p) (ws ! i))"
  shows "hd (hd us) = QUOTE" and "list_all (\<lambda>w. last w \<noteq> QUOTE) (butlast us)"
proof -
  show "hd (hd us) = QUOTE"
  proof (cases i)
    case 0
    then have "prefix (hd us) (hd ws)" "hd us \<noteq> []" using us p by (auto simp: hd_conv_nth)
    then show ?thesis using q by (auto simp: quoted_group_def prefix_def)
  next
    case (Suc j)
    then have "hd us = hd ws" using us q by (cases ws) (auto simp: quoted_group_def)
    then show ?thesis using q by (simp add: quoted_group_def)
  qed
  have "set (butlast us) \<subseteq> set (butlast ws)"
  proof (cases "p = []")
    case True
    then show ?thesis using us(1) butlast_take_subset [of i ws] by simp
  next
    case False
    then obtain w where "p = [w]" "i < length ws" using p by (cases p) auto
    then have "butlast us = take i (butlast ws)" using us(1) by (simp add: butlast_append take_butlast)
    then show ?thesis by (auto dest: in_set_takeD)
  qed
  then show "list_all (\<lambda>w. last w \<noteq> QUOTE) (butlast us)" using q by (auto simp: quoted_group_def list_all_iff)
qed

lemma torn_token:
  assumes "replayable t" and "prefix u t"
  shows "length (group_words (words u)) \<le> 1"
proof (cases "plain_word t")
  case True
  then have "words u = (if u = [] then [] else [u])"
    using assms(2) words_prefix_word [of t u] by (simp add: plain_word_def)
  then show ?thesis by (auto simp: Let_def)
next
  case False
  let ?ws = "words t"
  have q: "quoted_group ?ws" "t = join_words ?ws" using assms(1) False by (simp_all add: replayable_def)
  have "list_all is_word ?ws" by (rule words_are_words)
  moreover have "prefix u (join_words ?ws)" using assms(2) q(2) by simp
  ultimately obtain i p where ip: "words u = take i ?ws @ p"
    "p = [] \<or> (i < length ?ws \<and> length p = 1 \<and> hd p \<noteq> [] \<and> prefix (hd p) (?ws ! i))"
    using words_prefix_join by blast
  show ?thesis
  proof (cases "words u = []")
    case False
    show ?thesis by (rule group_words_torn) (rule torn_group [OF q(1) ip(1) False ip(2)])+
  qed simp
qed

lemma parse_short: "length ts \<le> 1 \<Longrightarrow> parse ts = Invalid"
  by (cases ts) simp_all

lemma parse_put: "parse (''put'' # args) = (if length args = 2 then Put (args ! 0) (args ! 1) else Invalid)"
  and parse_del: "parse (''del'' # args) = (if length args = 1 then Del (args ! 0) else Invalid)"
  by simp_all

lemma tokenize_after:
  assumes "replayable t"
  shows "tokenize (t @ SPACE # u) = t # tokenize u"
  using group_words_token [OF assms, of "words u"]
  by (simp add: tokenize_group_words words_append_space isspace_def)

lemma tokenize_torn: "replayable t \<Longrightarrow> prefix u t \<Longrightarrow> length (tokenize u) \<le> 1"
  using torn_token [of t u] by (simp add: tokenize_group_words)

lemma torn_words:
  assumes "prefix u (t @ SPACE # r)" and "replayable t"
  shows "length (tokenize u) \<le> 1 \<or> (\<exists>u'. prefix u' r \<and> tokenize u = t # tokenize u')"
proof -
  from assms(1) consider "prefix u t" | u' where "u = t @ SPACE # u'" "prefix u' r"
    by (auto simp: prefix_append prefix_Cons)
  then show ?thesis
    using assms(2) tokenize_torn [of t u] tokenize_after [of t] by cases auto
qed

text \<open>A torn put is nothing, or a put of the same key; a torn deletion is nothing, or a deletion.\<close>

lemma torn_put:
  assumes "replayable k" and "replayable v" and "prefix u (line_of (Put k v))"
  shows "parse (tokenize u) = Invalid \<or> (\<exists>x. parse (tokenize u) = Put k x)"
proof -
  have "prefix u (''put'' @ SPACE # k @ SPACE # v)" using assms(3) by simp
  from torn_words [OF this] consider "length (tokenize u) \<le> 1"
    | u1 where "prefix u1 (k @ SPACE # v)" "tokenize u = ''put'' # tokenize u1" by auto
  then show ?thesis
  proof cases
    case 2
    from torn_words [OF 2(1) assms(1)] consider "length (tokenize u1) \<le> 1"
      | u2 where "prefix u2 v" "tokenize u1 = k # tokenize u2" by auto
    then show ?thesis
    proof cases
      case 1
      then show ?thesis unfolding 2(2) parse_put by simp
    next
      case (2 u2)
      then show ?thesis using \<open>tokenize u = _\<close> parse_put [of "tokenize u1"] by auto
    qed
  qed (simp add: parse_short)
qed

lemma torn_del:
  assumes "replayable k" and "prefix u (line_of (Del k))"
  shows "parse (tokenize u) = Invalid \<or> (\<exists>k'. parse (tokenize u) = Del k')"
proof -
  have "prefix u (''del'' @ SPACE # k)" using assms(2) by simp
  from torn_words [OF this] consider "length (tokenize u) \<le> 1"
    | u1 where "tokenize u = ''del'' # tokenize u1" by auto
  then show ?thesis
    by cases (use parse_del in \<open>auto simp: parse_short\<close>)
qed

section \<open>A crash while the buffer is being written\<close>

text \<open>The call \<^verbatim>\<open>logfile.write\<close> of the flush thread, or the one in \<^verbatim>\<open>closeLog\<close>, of which only
  the first bytes reached the file.\<close>

definition write_torn :: "nat \<Rightarrow> Log \<Rightarrow> fs \<Rightarrow> fs" where
  "write_torn n L s = stream_write (logfile L) (take n (logBuffer L)) s"

text \<open>The maps a torn write of entries can leave: the effect of some of them, and of the next
  one nothing, or another value for the key of a put, or the deletion of some key.\<close>

definition torn_result :: "command list \<Rightarrow> kv \<Rightarrow> kv \<Rightarrow> bool" where
  "torn_result es m m' =
     (\<exists>i \<le> length es. let m1 = fold effect (take i es) m in
        m' = m1
        \<or> (i < length es \<and> (case es ! i of
              Put k v \<Rightarrow> (\<exists>x. m' = m1(k \<mapsto> x))
            | Del k \<Rightarrow> (\<exists>k'. m' = m1(k' := None))
            | _ \<Rightarrow> False)))"

lemma replay_torn_line:
  assumes "is_entry e" and "prefix u (line_of e)"
  shows "replay_line u m = m \<or> (case e of
              Put k v \<Rightarrow> (\<exists>x. replay_line u m = m(k \<mapsto> x))
            | Del k \<Rightarrow> (\<exists>k'. replay_line u m = m(k' := None))
            | _ \<Rightarrow> False)"
  using assms(1)
proof (cases rule: is_entry_cases)
  case (1 k v)
  have "parse (tokenize u) = Invalid \<or> (\<exists>x. parse (tokenize u) = Put k x)"
    using torn_put [OF 1(2,3)] assms(2) unfolding 1(1) by blast
  then show ?thesis unfolding 1(1) replay_line_def by auto
next
  case (2 k)
  have "parse (tokenize u) = Invalid \<or> (\<exists>k'. parse (tokenize u) = Del k')"
    using torn_del [OF 2(2)] assms(2) unfolding 2(1) by blast
  then show ?thesis unfolding 2(1) replay_line_def by auto
qed

lemma entry_no_NL: "is_entry e \<Longrightarrow> NL \<notin> set (line_of e)"
  using entries_lines [of e] by (simp add: is_entry_def)

lemma fold_replay_entries:
  "list_all is_entry es \<Longrightarrow> fold replay_line (map line_of es) m = fold effect es m"
  by (induction es arbitrary: m) (simp_all add: replay_line_def parse_line_of_entry)

lemma recover_torn:
  assumes "finished t" and "list_all is_entry es"
  shows "torn_result es (recover t) (recover (t @ take n (unlines (map line_of es))))"
proof -
  obtain i f where i: "i \<le> length es" "take n (unlines (map line_of es)) = unlines (map line_of (take i es)) @ f"
    "f = [] \<or> (i < length es \<and> prefix f (line_of (es ! i)))"
  proof -
    obtain i f where *: "i \<le> length (map line_of es)"
      "take n (unlines (map line_of es)) = unlines (take i (map line_of es)) @ f"
      "f = [] \<or> (i < length (map line_of es) \<and> prefix f (map line_of es ! i))"
      using take_unlines [of "map line_of es" n] by blast
    show ?thesis by (rule that [of i f]) (use * in \<open>auto simp: take_map\<close>)
  qed
  let ?m1 = "fold effect (take i es) (recover t)"
  have es: "list_all is_entry (take i es)" using assms(2) by (simp add: list_all_iff) (metis in_set_takeD)
  then have nl: "list_all (\<lambda>l. NL \<notin> set l) (map line_of (take i es))"
    using entry_no_NL by (auto simp: list_all_iff)
  have "NL \<notin> set (line_of (es ! i))" if "i < length es"
    using that assms(2) by (intro entry_no_NL) (simp add: list_all_length)
  then have f: "NL \<notin> set f" using i(3) by (auto simp: prefix_def)
  have "recover (t @ take n (unlines (map line_of es))) = fold replay_line (if f = [] then [] else [f]) ?m1"
    by (simp add: i(2) recover_append [OF assms(1)] getlines_torn [OF nl f] fold_replay_entries [OF es])
  then show ?thesis
  proof (cases "f = []")
    case False
    then have e: "i < length es" "is_entry (es ! i)" "prefix f (line_of (es ! i))"
      using i(3) assms(2) by (auto simp: list_all_length)
    have eq: "recover (t @ take n (unlines (map line_of es))) = replay_line f ?m1"
      using False \<open>recover _ = _\<close> by simp
    show ?thesis
      unfolding torn_result_def Let_def eq
      by (intro exI [of _ i] conjI i(1)) (use e(1) replay_torn_line [OF e(2,3), of ?m1] in simp)
  qed (use i(1) in \<open>auto simp: torn_result_def Let_def\<close>)
qed

text \<open>Whatever number of bytes of the buffer has reached the file, the keyspace opens again,
  with the effect of the complete lines before the cut; beyond that at most one key differs.\<close>

lemma torn_restart:
  assumes "journalled ks db s" and "writable s (aof_path ks)"
  shows "\<exists>es db2 s2. logBuffer (logger db) = unlines (map line_of es)
    \<and> DB_ctor h junk ks (write_torn n (logger db) s) = (Ok db2, s2)
    \<and> torn_result es (recover (file_text (aof_path ks) s)) (kv_of db2)"
proof -
  have f: "wf_fs s" "log_open ks (logger db) s" using assms(1) by (simp_all add: journalled_def)
  obtain es where es: "list_all is_entry es" "logBuffer (logger db) = unlines (map line_of es)"
    using assms(1) by (auto simp: journalled_def written_def)
  let ?s = "write_torn n (logger db) s"
  have t: "file_text (aof_path ks) ?s = file_text (aof_path ks) s @ take n (unlines (map line_of es))"
    using read_write_open [OF f] by (simp add: write_torn_def es(2))
  have "wf_fs ?s" "writable ?s (aof_path ks)" using f(1) assms(2) by (simp_all add: write_torn_def)
  from DB_ctor_ok [OF this, of h junk] obtain db2 where
    "DB_ctor h junk ks ?s = (Ok db2, snd (open_append (aof_path ks) ?s))"
    "kv_of db2 = recover (file_text (aof_path ks) ?s)" by blast
  with es(2) recover_torn [OF journalled_finished [OF assms(1)] es(1), of n] show ?thesis
    unfolding t by metis
qed

section \<open>A crash during the shutdown\<close>

text \<open>Where \<^verbatim>\<open>DB::shutdown\<close> is when the process dies: in the last write of the buffer, in the
  write of the temporary file of the compaction, in the write of the snapshot, each with the
  bytes that have reached the file, or after it. A compaction that is skipped has no
  temporary file; renaming is atomic.\<close>

datatype crash_point = In_close nat | In_compaction nat | In_snapshot nat | After_shutdown

fun crash_at :: "crash_point \<Rightarrow> lz4 \<Rightarrow> DB \<Rightarrow> fs \<Rightarrow> fs" where
  "crash_at (In_close n) lz4 db s = write_torn n (logger db) s"
| "crash_at (In_compaction n) lz4 db s =
     (let (L, s) = closeLog (logger db) s
      in if dirty db \<le> 0 \<or> store db = [] then s
         else case keyspaceName L of
                None \<Rightarrow> s
              | Some keyspace \<Rightarrow> write_file (temp_path keyspace) (take n (compact_text (store db))) s)"
| "crash_at (In_snapshot n) lz4 db s =
     (let (L, s) = closeLog (logger db) s;
          (r, s) = compactLog (store db) (dirty db) L s
      in case r of
           Inl e \<Rightarrow> s
         | Inr _ \<Rightarrow>
             (case snapshot_bytes lz4 (serialize (store db)) of
                Inl e \<Rightarrow> write_file (dbFilepath L) [] s
              | Inr out \<Rightarrow> write_file (dbFilepath L) (take n out) s))"
| "crash_at After_shutdown lz4 db s = snd (snd (shutdown lz4 db s))"

text \<open>With all bytes written, the last point of the crash is the end of the shutdown.\<close>

lemma crash_at_end:
  assumes "snapshot_bytes lz4 (serialize (store db)) = Ok out" and "length out \<le> n"
  shows "crash_at (In_snapshot n) lz4 db s = crash_at After_shutdown lz4 db s"
  using assms
  by (auto simp: shutdown_def writeBinarySnapshot_def write_file_def stream_write_def Let_def
      split: prod.splits sum.splits option.splits)

text \<open>After the buffer is in the file, a crash leaves the disk of one of four moments.\<close>

lemma crash_moments:
  assumes "closeLog (logger db) s = (L, s1)" and "compactLog (store db) (dirty db) L s1 = (Ok (), s2)"
    and "shutdown lz4 db s = (r, db', s3)"
    and "keyspaceName L = Some ks" and "dbFilepath L = db_path ks" and "\<forall>n. p \<noteq> In_close n"
  obtains x where "crash_at p lz4 db s = write_file (temp_path ks) x s1" | "crash_at p lz4 db s = s1"
    | x where "crash_at p lz4 db s = write_file (db_path ks) x s2" | "crash_at p lz4 db s = s3"
proof (cases p)
  case (In_snapshot n)
  then show ?thesis using that(3) assms(1,2,5)
    by (cases "snapshot_bytes lz4 (serialize (store db))") simp_all
next
  case (In_compaction n)
  then have "crash_at p lz4 db s = (if dirty db = 0 \<or> store db = [] then s1
      else write_file (temp_path ks) (take n (compact_text (store db))) s1)"
    by (simp add: assms(1,4))
  then show ?thesis using that(1,2) by metis
qed (use assms(3,6) that(4) in auto)

lemma crash_files:
  assumes w: "wf_fs s" and o: "log_open ks (logger db) s" and t: "writable s (temp_path ks)"
    and p: "\<forall>n. p \<noteq> In_close n"
  shows "wf_fs (crash_at p lz4 db s)" and "writable (crash_at p lz4 db s) = writable s"
    and "file_text (aof_path ks) (crash_at p lz4 db s) \<in>
      {file_text (aof_path ks) s @ logBuffer (logger db), compact_text (store db)}"
proof -
  obtain L1 s1 where c: "closeLog (logger db) s = (L1, s1)" by fastforce
  note cl = closeLog_eq [OF w o c]
  have L1: "keyspaceName L1 = Some ks" "logFilepath L1 = aof_path ks" "dbFilepath L1 = db_path ks"
    using o by (simp_all add: cl(1) log_open_def)
  obtain r2 s2 where k: "compactLog (store db) (dirty db) L1 s1 = (r2, s2)" by fastforce
  have t1: "writable s1 (temp_path ks)" using t cl(3) by simp
  note cp = compactLog_eq [OF cl(2) L1(1,2) t1 k]
  obtain r3 db3 s3 where sh: "shutdown lz4 db s = (r3, db3, s3)" by (metis prod_cases3)
  note se = shutdown_eq [OF w o t sh]
  have "wf_fs (crash_at p lz4 db s) \<and> writable (crash_at p lz4 db s) = writable s
    \<and> file_text (aof_path ks) (crash_at p lz4 db s) \<in>
      {file_text (aof_path ks) s @ logBuffer (logger db), compact_text (store db)}"
  proof (rule crash_moments [OF c k [unfolded cp(1)] sh L1(1,3) p])
    fix x assume "crash_at p lz4 db s = write_file (temp_path ks) x s1"
    then show ?thesis using cl(2,3) cl(4) [of "aof_path ks"]
      by (simp add: wf_write_file file_text_def read_write_file)
  next
    assume "crash_at p lz4 db s = s1"
    then show ?thesis using cl(2,3) cl(4) [of "aof_path ks"] by simp
  next
    fix x assume x: "crash_at p lz4 db s = write_file (db_path ks) x s2"
    have "file_text (aof_path ks) s2 \<in> {file_text (aof_path ks) s @ logBuffer (logger db), compact_text (store db)}"
      using cp(4) cl(4) [of "aof_path ks"] by simp
    with x cp(2,3) cl(3) show ?thesis by (simp add: wf_write_file file_text_def read_write_file)
  next
    assume "crash_at p lz4 db s = s3"
    then show ?thesis using se(1,2,5) by simp
  qed
  then show "wf_fs (crash_at p lz4 db s)" and "writable (crash_at p lz4 db s) = writable s"
    and "file_text (aof_path ks) (crash_at p lz4 db s) \<in>
      {file_text (aof_path ks) s @ logBuffer (logger db), compact_text (store db)}"
    by blast+
qed

text \<open>C11. A shutdown survives a crash at any point. Once the buffer is in the file, the keyspace
  opens again with the table it had, wherever in compaction, snapshot or after them the
  process died and however much of each file was written; before that the bound for a torn
  write holds.\<close>
theorem shutdown_crash_safe:
  assumes "journalled ks db s" and "writable s (temp_path ks)" and "writable s (aof_path ks)"
  shows "\<exists>es db2 s2. logBuffer (logger db) = unlines (map line_of es)
    \<and> DB_ctor h junk ks (crash_at p lz4 db s) = (Ok db2, s2)
    \<and> (case p of In_close n \<Rightarrow> torn_result es (recover (file_text (aof_path ks) s)) (kv_of db2)
              | _ \<Rightarrow> kv_of db2 = kv_of db)"
proof (cases "\<exists>n. p = In_close n")
  case True
  then obtain n where p: "p = In_close n" ..
  show ?thesis using torn_restart [OF assms(1,3)] by (simp add: p)
next
  case False
  have f: "wf_fs s" "log_open ks (logger db) s" using assms(1) by (simp_all add: journalled_def)
  obtain es where es: "logBuffer (logger db) = unlines (map line_of es)"
    using assms(1) by (auto simp: journalled_def written_def)
  have p: "\<forall>n. p \<noteq> In_close n" using False by blast
  note cf = crash_files [OF f assms(2) p, of lz4]
  have "recover (file_text (aof_path ks) (crash_at p lz4 db s)) = kv_of db"
    using cf(3) assms(1) by (auto simp: journalled_def recover_compact)
  moreover have "writable (crash_at p lz4 db s) (aof_path ks)" using cf(2) assms(3) by simp
  from DB_ctor_ok [OF cf(1) this, of h junk] obtain db2 where
    "DB_ctor h junk ks (crash_at p lz4 db s) = (Ok db2, snd (open_append (aof_path ks) (crash_at p lz4 db s)))"
    "kv_of db2 = recover (file_text (aof_path ks) (crash_at p lz4 db s))" by blast
  ultimately show ?thesis using es p by (cases p) auto
qed

theorem shutdown_crash_safe_witness:
  "\<exists>db s db2 s2. DB_ctor (\<lambda>_ _. 0) False ''k'' empty_fs = (Ok db, s)
    \<and> DB_ctor (\<lambda>_ _. 0) False ''k'' (crash_at (In_compaction 3) (\<lambda>src n cap. (0, []))
         (snd (parseCommand (\<lambda>_ _. 0) ''put a 1'' db)) s) = (Ok db2, s2)
    \<and> kv_of db2 = [''a'' \<mapsto> ''1'']"
proof -
  let ?h = "\<lambda>_ _. 0" and ?s = "snd (open_append (aof_path ''k'') empty_fs)"
  obtain db where db: "DB_ctor ?h False ''k'' empty_fs = (Ok db, ?s)" "journalled ''k'' db ?s"
    "kv_of db = Map.empty"
    using first_session .
  let ?db = "snd (parseCommand ?h ''put a 1'' db)"
  have j: "journalled ''k'' ?db ?s" "kv_of ?db = [''a'' \<mapsto> ''1'']"
    using journalled_command [OF db(2), of "''put a 1''" ?h] db(3) by (simp_all add: sample_lines)
  have w: "writable ?s p" for p by simp
  from shutdown_crash_safe [OF j(1) w w, of ?h False "In_compaction 3" "\<lambda>src n cap. (0, [])"] j(2)
  have "\<exists>db2 s2. DB_ctor ?h False ''k'' (crash_at (In_compaction 3) (\<lambda>src n cap. (0, [])) ?db ?s) = (Ok db2, s2)
    \<and> kv_of db2 = [''a'' \<mapsto> ''1'']" by (simp only: crash_point.case) blast
  with db(1) show ?thesis by blast
qed

section \<open>What a torn line does\<close>

lemma plain_append: "plain_word v \<Longrightarrow> list_all (\<lambda>c. \<not> isspace c) w \<Longrightarrow> plain_word (v @ w)"
  by (cases v) (auto simp: plain_word_def is_word_def)

text \<open>A text that was cut off just before the end of its last line: the last command is read
  back, and nothing is logged again.\<close>

lemma unfinished_line:
  assumes "written t" and "is_entry e"
  shows "recover (t @ line_of e) = effect e (recover t)" and "relogged (getlines (t @ line_of e)) = []"
proof -
  have "line_of e \<noteq> []" using assms(2) by (auto elim: is_entry_cases)
  then have g: "getlines (line_of e) = [line_of e]" by (simp add: getlines_last entry_no_NL assms(2))
  have fin: "finished t" using assms(1) by (rule written_finished)
  show "recover (t @ line_of e) = effect e (recover t)"
    by (simp add: recover_append [OF fin] g replay_line_def parse_line_of_entry [OF assms(2)])
  have "loggable e" "entries e = [e]" using assms(2) by (simp_all add: is_entry_def)
  then have "written (t @ line_of e @ [NL])"
    using written_append [OF assms(1) written_entries [of e]] by simp
  moreover have "getlines (t @ line_of e @ [NL]) = getlines (t @ line_of e)"
    using getlines_line [of "line_of e" "[]"] entry_no_NL [OF assms(2)] by (simp add: getlines_append [OF fin] g)
  ultimately show "relogged (getlines (t @ line_of e)) = []" using relogged_written by metis
qed


text \<open>The disk after a first session whose only write lost its last byte.\<close>

lemma torn_sample:
  obtains s where "wf_fs s" and "writable s = (\<lambda>_. True)" and "file_text (aof_path ''k'') s = ''put a 1''"
proof -
  let ?h = "\<lambda>_ _. 0" and ?s = "snd (open_append (aof_path ''k'') empty_fs)"
  obtain db where db: "journalled ''k'' db ?s" "logBuffer (logger db) = []"
    using first_session [of ?h "''k''"] by blast
  let ?db = "snd (parseCommand ?h ''put a 1'' db)"
  have j: "journalled ''k'' ?db ?s" "logBuffer (logger ?db) = ''put a 1'' @ [NL]"
    using journalled_command [OF db(1), of "''put a 1''" ?h] db(2) by (simp_all add: sample_lines)
  have f: "wf_fs ?s" "log_open ''k'' (logger ?db) ?s" using j(1) by (simp_all add: journalled_def)
  show ?thesis
  proof (rule that [of "write_torn 7 (logger ?db) ?s"])
    show "file_text (aof_path ''k'') (write_torn 7 (logger ?db) ?s) = ''put a 1''"
      unfolding write_torn_def using read_write_open [OF f] by (simp add: j(2) file_text_open)
  qed (use f(1) in \<open>simp_all add: write_torn_def fun_eq_iff\<close>)
qed




end
