(* ===== verification/Power_Failure.thy ===== *)
theory Power_Failure
  imports Switching
begin

text \<open>
  What a power failure leaves. A write reaches the disk for sure only with the next \<^verbatim>\<open>fsync\<close> of its
  file; of the rest any beginning may be there. The directory is taken as the process left
  it, which is what a renamed file is in danger of: its name is on the disk and its contents are
  not. \<^verbatim>\<open>fsync\<close> is called in two places of \<^verbatim>\<open>log.cpp\<close>, in the flush thread and in \<^verbatim>\<open>closeLog\<close>.
\<close>

section \<open>Disks\<close>

text \<open>The files, and of every inode the number of bytes that are on the disk.\<close>

record disk =
  files :: fs
  synced :: "nat \<Rightarrow> nat"

definition fsync :: "nat option \<Rightarrow> disk \<Rightarrow> disk" where
  "fsync fd d = (case fd of None \<Rightarrow> d | Some i \<Rightarrow> d\<lparr>synced := (synced d)(i := length (inodes (files d) i))\<rparr>)"

text \<open>The file at this path has been written from scratch.\<close>

definition rewritten :: "string \<Rightarrow> disk \<Rightarrow> disk" where
  "rewritten p d = (case dirents (files d) p of None \<Rightarrow> d | Some i \<Rightarrow> d\<lparr>synced := (synced d)(i := 0)\<rparr>)"

definition power_fail :: "(nat \<Rightarrow> nat) \<Rightarrow> disk \<Rightarrow> fs" where
  "power_fail kept d = (files d)\<lparr>inodes := \<lambda>i. take (max (synced d i) (kept i)) (inodes (files d) i)\<rparr>"

text \<open>The operations with their calls of \<^verbatim>\<open>fsync\<close>.\<close>

definition flush_disk :: "DB \<times> disk \<Rightarrow> DB \<times> disk" where
  "flush_disk = (\<lambda>(db, d).
     let (db', s) = flush_db (db, files d); d = d\<lparr>files := s\<rparr>
     in (db', if \<not> stopFlushThread (logger db) \<and> logBuffer (logger db) \<noteq> []
              then fsync (fileDescriptor (logger db)) d else d))"

definition closeLog_disk :: "Log \<Rightarrow> disk \<Rightarrow> Log \<times> disk" where
  "closeLog_disk L d =
     (let (L', s) = closeLog L (files d); d = d\<lparr>files := s\<rparr>
      in (L', if logBuffer L \<noteq> [] then fsync (fileDescriptor L) d else d))"

definition compactLog_disk :: "table \<Rightarrow> size_t \<Rightarrow> Log \<Rightarrow> disk \<Rightarrow> unit outcome \<times> disk" where
  "compactLog_disk state n L d =
     (let (r, s) = compactLog state n L (files d); d = d\<lparr>files := s\<rparr>
      in (r, if n \<le> 0 \<or> state = [] then d else rewritten (logFilepath L) d))"

definition writeBinarySnapshot_disk :: "lz4 \<Rightarrow> table \<Rightarrow> Log \<Rightarrow> disk \<Rightarrow> unit outcome \<times> disk" where
  "writeBinarySnapshot_disk lz4 state L d =
     (let (r, s) = writeBinarySnapshot lz4 state L (files d) in (r, rewritten (dbFilepath L) (d\<lparr>files := s\<rparr>)))"

definition shutdown_disk :: "lz4 \<Rightarrow> DB \<Rightarrow> disk \<Rightarrow> unit outcome \<times> DB \<times> disk" where
  "shutdown_disk lz4 db d =
     (let (L, d) = closeLog_disk (logger db) d;
          db = db\<lparr>logger := L\<rparr>
      in case compactLog_disk (store db) (dirty db) L d of
           (Inl e, d) \<Rightarrow> (Inl e, db, d)
         | (Inr _, d) \<Rightarrow> (let (r, d) = writeBinarySnapshot_disk lz4 (store db) L d in (r, db, d)))"

fun run_disk :: "layout \<Rightarrow> event list \<Rightarrow> DB \<times> disk \<Rightarrow> DB \<times> disk" where
  "run_disk h [] w = w"
| "run_disk h (Command line # es) (db, d) = run_disk h es (snd (parseCommand h line db), d)"
| "run_disk h (Flush # es) w = run_disk h es (flush_disk w)"

section \<open>The files are those of the model without power failures\<close>

lemma files_simps [simp]:
  "files (fsync fd d) = files d" "files (rewritten p d) = files d"
  by (simp_all add: fsync_def rewritten_def split: option.split)

lemma files_flush: "flush_disk (db, d) = (db', d') \<Longrightarrow> flush_db (db, files d) = (db', files d')"
  by (auto simp: flush_disk_def Let_def split: prod.splits if_splits)

lemma files_run: "run_disk h es (db, d) = (db', d') \<Longrightarrow> run_session h es (db, files d) = (db', files d')"
proof (induction es arbitrary: db d)
  case (Cons e es)
  obtain db1 d1 where f: "flush_disk (db, d) = (db1, d1)" by fastforce
  then show ?case using Cons files_flush [OF f] by (cases e) auto
qed simp

lemma files_shutdown: "shutdown_disk lz4 db d = (r, db', d') \<Longrightarrow> shutdown lz4 db (files d) = (r, db', files d')"
  by (auto simp: shutdown_disk_def shutdown_def closeLog_disk_def compactLog_disk_def writeBinarySnapshot_disk_def
      Let_def split: prod.splits sum.splits if_splits)

section \<open>What is durable\<close>

definition durable :: "string \<Rightarrow> disk \<Rightarrow> bool" where
  "durable p d = (\<forall>i. dirents (files d) p = Some i \<longrightarrow> length (inodes (files d) i) \<le> synced d i)"

lemma power_fail_simps [simp]:
  "dirents (power_fail kept d) = dirents (files d)" "writable (power_fail kept d) = writable (files d)"
  "wf_fs (power_fail kept d) = wf_fs (files d)"
  by (simp_all add: power_fail_def)

lemma durable_text: "durable p d \<Longrightarrow> file_text p (power_fail kept d) = file_text p (files d)"
  by (cases "dirents (files d) p") (auto simp: durable_def file_text_def read_file_def power_fail_def)

lemma durable_fsync: "fd = Some i \<Longrightarrow> dirents (files d) p = Some i \<Longrightarrow> durable p (fsync fd d)"
  by (simp add: durable_def fsync_def)

lemma durable_same:
  "durable p d \<Longrightarrow> dirents (files d') p = dirents (files d) p \<Longrightarrow> read_file p (files d') = read_file p (files d)
    \<Longrightarrow> synced d' = synced d \<Longrightarrow> durable p d'"
  by (cases "dirents (files d) p") (auto simp: durable_def read_file_def)

lemma durable_rewritten:
  assumes "wf_fs (files d)" and "p \<noteq> q"
  shows "durable p (rewritten q d) = durable p d"
  using assms wf_fs_inj [OF assms(1), of p _ q] by (auto simp: durable_def rewritten_def split: option.split)

section \<open>Sessions\<close>

lemma flush_durable:
  assumes "journalled ks db (files d)" and "durable (aof_path ks) d" and "flush_disk (db, d) = (db', d')"
  shows "durable (aof_path ks) d'"
proof -
  obtain i where o: "\<not> stopFlushThread (logger db)" "fileDescriptor (logger db) = Some i" "logfile (logger db) = Some i"
    "dirents (files d) (aof_path ks) = Some i" "log_open ks (logger db) (files d)"
    using assms(1) by (auto simp: journalled_def log_open_def)
  note f = flush_db_eq [OF o(5)]
  show ?thesis
  proof (cases "logBuffer (logger db) = []")
    case True
    then have "d' = d" using assms(3) by (simp add: flush_disk_def f)
    then show ?thesis using assms(2) by simp
  next
    case False
    then have "d' = fsync (Some i) (d\<lparr>files := stream_write (Some i) (logBuffer (logger db)) (files d)\<rparr>)"
      using assms(3) by (simp add: flush_disk_def f o)
    then show ?thesis using o(4) by (simp add: durable_fsync)
  qed
qed

lemma run_disk_append: "run_disk h (es @ fs) w = run_disk h fs (run_disk h es w)"
  by (induction h es w rule: run_disk.induct) simp_all

lemma session_durable:
  assumes "journalled ks db (files d)" and "logBuffer (logger db) = []" and "list_all loggable_event es"
    and "durable (aof_path ks) d" and "run_disk h es (db, d) = (db', d')"
  shows "durable (aof_path ks) d'"
  using assms(3,5)
proof (induction es arbitrary: db' d' rule: rev_induct)
  case Nil
  with assms(4) show ?case by simp
next
  case (snoc e es)
  obtain db1 d1 where r: "run_disk h es (db, d) = (db1, d1)" by fastforce
  then have d1: "durable (aof_path ks) d1" using snoc by simp
  have "journalled ks db1 (files d1)"
    using session_journal [OF assms(1,2) _ files_run [OF r]] snoc.prems(1) by simp
  then show ?case
    using snoc.prems(2) r d1 flush_durable [OF _ d1] by (cases e) (auto simp: run_disk_append)
qed

text \<open>C12. Recovery after a power failure. From a state in which the log says what the table is and is
  durable, and the buffer is empty, commands run in any order with passes of the flush
  thread, whose keys and values are such that a line of the log gives them back
  (\<open>loggable\<close>); then the power fails, and of everything that was not synced any beginning
  may be on the disk. Constructing the keyspace again, if its log can be opened, gives the state
  as of the last flush, as after a crash of the process alone: what the flush thread has
  written is durable.\<close>
theorem power_failure_recovery:
  assumes "journalled ks db (files d)" and "logBuffer (logger db) = []" and "list_all loggable_event es"
    and "durable (aof_path ks) d" and "run_disk h es (db, d) = (db', d')" and "writable (files d') (aof_path ks)"
  shows "\<exists>db2 s2. DB_ctor h2 junk ks (power_fail kept d') = (Ok db2, s2)
    \<and> kv_of db2 = fold effect (flushed es) (kv_of db)"
proof -
  note run = files_run [OF assms(5)]
  have "recover (file_text (aof_path ks) (power_fail kept d')) = fold effect (flushed es) (kv_of db)"
    using session_recover [OF assms(1-3) run] durable_text [OF session_durable [OF assms(1-5)]] by simp
  moreover have "wf_fs (power_fail kept d')" using session_journal [OF assms(1-3) run] by (simp add: journalled_def)
  moreover have "writable (power_fail kept d') (aof_path ks)" using assms(6) by simp
  ultimately show ?thesis using DB_ctor_ok [of "power_fail kept d'" ks h2 junk] by metis
qed

definition first_disk :: disk where
  "first_disk = \<lparr>files = snd (open_append (aof_path ''k'') empty_fs), synced = \<lambda>_. 0\<rparr>"

lemma first_disk: "files first_disk = snd (open_append (aof_path ''k'') empty_fs)" "durable (aof_path ''k'') first_disk"
proof -
  show f: "files first_disk = snd (open_append (aof_path ''k'') empty_fs)" by (simp add: first_disk_def)
  have "read_file (aof_path ''k'') (files first_disk) = Some []"
    unfolding f by (simp add: read_open_append)
  then show "durable (aof_path ''k'') first_disk" by (auto simp: durable_def read_file_def)
qed

theorem power_failure_recovery_witness:
  "\<exists>db db' d'. DB_ctor (\<lambda>_ _. 0) False ''k'' empty_fs = (Ok db, files first_disk)
    \<and> run_disk (\<lambda>_ _. 0) [Command ''put a 1'', Flush, Command ''put b 2''] (db, first_disk) = (db', d')
    \<and> (\<exists>db2 s2. DB_ctor (\<lambda>_ _. 0) False ''k'' (power_fail (\<lambda>_. 0) d') = (Ok db2, s2) \<and> kv_of db2 = [''a'' \<mapsto> ''1''])"
proof -
  let ?h = "\<lambda>_ _. 0" and ?es = "[Command ''put a 1'', Flush, Command ''put b 2'']"
  obtain db where db: "DB_ctor ?h False ''k'' empty_fs = (Ok db, files first_disk)" "journalled ''k'' db (files first_disk)"
    "logBuffer (logger db) = []" "kv_of db = Map.empty"
    unfolding first_disk(1) using first_session .
  have l: "list_all loggable_event ?es" by (simp add: sample_lines)
  obtain db' d' where r: "run_disk ?h ?es (db, first_disk) = (db', d')" by fastforce
  have w: "writable (files d') (aof_path ''k'')"
    using run_session_writable [OF files_run [OF r]] by (simp add: first_disk(1))
  have "flushed ?es = [Put ''a'' ''1'']" by (simp add: flushed_def sample_lines)
  with power_failure_recovery [OF db(2,3) l first_disk(2) r w, of ?h False "\<lambda>_. 0"] db(4)
  have "\<exists>db2 s2. DB_ctor ?h False ''k'' (power_fail (\<lambda>_. 0) d') = (Ok db2, s2) \<and> kv_of db2 = [''a'' \<mapsto> ''1'']" by simp
  with db(1) r show ?thesis by blast
qed

section \<open>Shutdowns\<close>

text \<open>The log after its compaction is a file of which nothing is on the disk for sure.\<close>

lemma closeLog_disk_paths:
  assumes "log_open ks (logger db) (files d)" and "wf_fs (files d)" and "closeLog_disk (logger db) d = (L, d1)"
  shows "keyspaceName L = Some ks" and "logFilepath L = aof_path ks" and "dbFilepath L = db_path ks"
    and "closeLog (logger db) (files d) = (L, files d1)"
proof -
  obtain s1 where c: "closeLog (logger db) (files d) = (L, s1)" and f: "files d1 = s1"
    using assms(3) by (auto simp: closeLog_disk_def Let_def split: prod.splits if_splits)
  show "closeLog (logger db) (files d) = (L, files d1)" using c f by simp
  show "keyspaceName L = Some ks" "logFilepath L = aof_path ks" "dbFilepath L = db_path ks"
    using closeLog_eq(1) [OF assms(2,1) c] assms(1) by (simp_all add: log_open_def)
qed

lemma compacted_not_synced:
  assumes j: "journalled ks db (files d)" and w: "writable (files d) (temp_path ks)"
    and c: "dirty db \<noteq> 0" "store db \<noteq> []" and sh: "shutdown_disk lz4 db d = (r, db', d')"
  shows "file_text (aof_path ks) (power_fail (\<lambda>_. 0) d') = []"
proof -
  have o: "wf_fs (files d)" "log_open ks (logger db) (files d)" using j by (simp_all add: journalled_def)
  obtain L d1 where cl: "closeLog_disk (logger db) d = (L, d1)" by fastforce
  note p = closeLog_disk_paths [OF o(2,1) cl] and ce = closeLog_eq [OF o closeLog_disk_paths(4) [OF o(2,1) cl]]
  obtain r2 s2 where k: "compactLog (store db) (dirty db) L (files d1) = (r2, s2)" by fastforce
  have "writable (files d1) (temp_path ks)" using w ce(3) by simp
  note cp = compactLog_eq [OF ce(2) p(1,2) this k]
  define d2 where "d2 = rewritten (aof_path ks) (d1\<lparr>files := s2\<rparr>)"
  define s3 where "s3 = snd (writeBinarySnapshot lz4 (store db) L s2)"
  have d': "d' = rewritten (db_path ks) (d2\<lparr>files := s3\<rparr>)"
    using sh c by (auto simp: shutdown_disk_def cl compactLog_disk_def k cp(1) writeBinarySnapshot_disk_def p d2_def s3_def
        Let_def split: prod.splits)
  show ?thesis
  proof (cases "dirents s2 (aof_path ks)")
    case None
    then show ?thesis
      using dirents_snapshot_other [of "aof_path ks" L lz4 "store db" s2] by (simp add: file_text_def read_file_def d' s3_def p)
  next
    case (Some i)
    then have "dirents s3 (aof_path ks) = Some i"
      using dirents_snapshot_other [of "aof_path ks" L lz4 "store db" s2] by (simp add: s3_def p)
    moreover have "synced d' i = 0"
      using Some by (simp add: d' d2_def rewritten_def split: option.split)
    ultimately show ?thesis by (simp add: file_text_def read_file_def power_fail_def d')
  qed
qed

lemma unchanged_durable:
  assumes j: "journalled ks db (files d)" and du: "durable (aof_path ks) d" and u: "dirty db = 0 \<or> store db = []"
    and sh: "shutdown_disk lz4 db d = (r, db', d')"
  shows "durable (aof_path ks) d'"
proof -
  have o: "wf_fs (files d)" "log_open ks (logger db) (files d)" using j by (simp_all add: journalled_def)
  obtain L d1 where cl: "closeLog_disk (logger db) d = (L, d1)" by fastforce
  note p = closeLog_disk_paths [OF o(2,1) cl] and ce = closeLog_eq [OF o closeLog_disk_paths(4) [OF o(2,1) cl]]
  obtain i where i: "fileDescriptor (logger db) = Some i" "logfile (logger db) = Some i"
    "dirents (files d) (aof_path ks) = Some i" using o(2) by (auto simp: log_open_def)
  have d1: "durable (aof_path ks) d1"
    using cl i du by (auto simp: closeLog_disk_def closeLog_def Let_def durable_fsync split: if_splits)
  let ?s3 = "snd (writeBinarySnapshot lz4 (store db) L (files d1))"
  have d': "d' = rewritten (db_path ks) (d1\<lparr>files := ?s3\<rparr>)"
    using sh u by (auto simp: shutdown_disk_def cl compactLog_disk_def compactLog_def writeBinarySnapshot_disk_def p
        Let_def split: prod.splits)
  note sf = snapshot_frame [OF ce(2)]
  have "durable (aof_path ks) (d1\<lparr>files := ?s3\<rparr>)"
    by (rule durable_same [OF d1]) (simp_all add: dirents_snapshot_other sf(2) p)
  then show ?thesis unfolding d' using sf(1) by (simp add: durable_rewritten)
qed



end
