(* ===== verification/Lifetime.thy ===== *)
theory Lifetime
  imports Accept_Loop
begin

text \<open>
  The life of the object \<^verbatim>\<open>server\<close> of \<^verbatim>\<open>main\<close> and of the threads that use it.
  \<^verbatim>\<open>Server::run\<close> starts a detached thread for every client and keeps no account of them: when
  the loop ends, \<^verbatim>\<open>main\<close> destroys the server and returns while threads may still wait for a
  line or be in the middle of one; the pointer \<^verbatim>\<open>Server::instance\<close> of the signal handler
  keeps its value too. A thread waits on a socket of its own; it touches the server when it
  hands a line to \<^verbatim>\<open>dispatcher\<close>.
\<close>

section \<open>State and steps\<close>

datatype client_pc = Waiting | Serving | Ended

datatype life_action =
    Main loop_action
  | Line nat
  | Answered nat bool
  | Hang_up nat
  | Signal
  | Destroy
  | Exit_process

record lifetime =
  main_loop :: accept_loop
  threads :: "client_pc list"
  destroyed :: bool
  exited :: bool
  touched_freed :: bool

text \<open>The second argument of \<open>Answered\<close> says whether the line was a \<^verbatim>\<open>quit\<close>. Reading on ends with the
  connection; an exception of the dispatcher ends the thread like a hang-up after an answer.\<close>

inductive life_step :: "lifetime \<Rightarrow> life_action \<Rightarrow> lifetime \<Rightarrow> bool" where
  client_connects: "\<not> exited s \<Longrightarrow> loop_step (main_loop s) (Accept Connected) l \<Longrightarrow>
    life_step s (Main (Accept Connected)) (s\<lparr>main_loop := l, threads := threads s @ [Waiting]\<rparr>)"
| main_thread: "\<not> exited s \<Longrightarrow> a \<notin> {Accept Connected, Quit, Stop_signal} \<Longrightarrow> loop_step (main_loop s) a l \<Longrightarrow>
    life_step s (Main a) (s\<lparr>main_loop := l\<rparr>)"
| line_arrives: "\<not> exited s \<Longrightarrow> c < length (threads s) \<Longrightarrow> threads s ! c = Waiting \<Longrightarrow>
    life_step s (Line c) (s\<lparr>threads := (threads s)[c := Serving]\<rparr>)"
| line_answered: "\<not> exited s \<Longrightarrow> c < length (threads s) \<Longrightarrow> threads s ! c = Serving \<Longrightarrow>
    life_step s (Answered c q)
      (s\<lparr>threads := (threads s)[c := Waiting],
         main_loop := if q then (main_loop s)\<lparr>running_flag := False\<rparr> else main_loop s,
         touched_freed := touched_freed s \<or> destroyed s\<rparr>)"
| connection_ends: "\<not> exited s \<Longrightarrow> c < length (threads s) \<Longrightarrow> threads s ! c = Waiting \<Longrightarrow>
    life_step s (Hang_up c) (s\<lparr>threads := (threads s)[c := Ended]\<rparr>)"
| signal_arrives: "\<not> exited s \<Longrightarrow>
    life_step s Signal
      (s\<lparr>main_loop := signalHandler True (main_loop s), touched_freed := touched_freed s \<or> destroyed s\<rparr>)"
| server_destroyed: "loop_pc (main_loop s) = L_done \<Longrightarrow> \<not> destroyed s \<Longrightarrow> life_step s Destroy (s\<lparr>destroyed := True\<rparr>)"
| main_returns: "destroyed s \<Longrightarrow> \<not> exited s \<Longrightarrow> life_step s Exit_process (s\<lparr>exited := True\<rparr>)"

inductive_cases life_stepE: "life_step s a s'"

inductive_simps life_step_simps:
  "life_step s (Main a) s'" "life_step s (Line c) s'" "life_step s (Answered c q) s'" "life_step s (Hang_up c) s'"
  "life_step s Signal s'" "life_step s Destroy s'" "life_step s Exit_process s'"

inductive life_run :: "lifetime \<Rightarrow> life_action list \<Rightarrow> lifetime \<Rightarrow> bool" where
  life_none: "life_run s [] s"
| life_more: "life_step s a s1 \<Longrightarrow> life_run s1 bs s2 \<Longrightarrow> life_run s (a # bs) s2"

inductive_simps life_run_simps: "life_run s [] s'" "life_run s (a # bs) s'"

definition born :: lifetime where
  "born = \<lparr>main_loop = constructed, threads = [], destroyed = False, exited = False, touched_freed = False\<rparr>"

section \<open>Invariant\<close>

definition life_inv :: "lifetime \<Rightarrow> bool" where
  "life_inv s = (length (threads s) = spawned (main_loop s)
     \<and> loop_inv (main_loop s)
     \<and> (destroyed s \<longrightarrow> loop_pc (main_loop s) = L_done)
     \<and> (exited s \<longrightarrow> destroyed s) \<and> (touched_freed s \<longrightarrow> destroyed s))"

lemma life_inv_step: "life_inv s \<Longrightarrow> life_step s a t \<Longrightarrow> life_inv t"
  unfolding life_inv_def loop_inv_def
  by (erule life_stepE) (auto elim!: loop_stepE simp: stop_simps split: if_splits)

interpretation living: step_invariant "\<lambda>s. s = born" "\<lambda>s t. \<exists>a. life_step s a t" life_inv
proof
  show "life_inv s" if "s = born" for s
    using that by (simp add: life_inv_def born_def loop_inv_def constructed_def)
  show "life_inv t" if "life_inv s" "\<exists>a. life_step s a t" for s t
    using that life_inv_step by blast
qed

lemma life_run_steps: "life_run s as s' \<Longrightarrow> (\<lambda>s t. \<exists>a. life_step s a t)\<^sup>*\<^sup>* s s'"
  by (induction rule: life_run.induct) (auto intro: converse_rtranclp_into_rtranclp)

lemma born_inv: "life_run born as s \<Longrightarrow> life_inv s"
  using living.inv_reachable life_run_steps by blast

section \<open>When the destruction is safe\<close>

lemma loop_done_step: "loop_step l a l' \<Longrightarrow> loop_pc l = L_done \<Longrightarrow> a \<in> {Quit, Stop_signal}"
  by (erule loop_stepE) auto

text \<open>When all threads have ended and the loop is done, only the main thread and signals are left.\<close>

lemma quiet_step:
  assumes "life_step s a t" and "loop_pc (main_loop s) = L_done" and "set (threads s) \<subseteq> {Ended}" and "a \<noteq> Signal"
  shows "loop_pc (main_loop t) = L_done \<and> threads t = threads s \<and> touched_freed t = touched_freed s"
proof -
  have "c < length (threads s) \<Longrightarrow> threads s ! c = Ended" for c using assms(3) nth_mem by blast
  with assms(1,2,4) show ?thesis
    by (elim life_stepE) (auto dest: loop_done_step)
qed

lemma quiet_run:
  "life_run s as t \<Longrightarrow> loop_pc (main_loop s) = L_done \<Longrightarrow> set (threads s) \<subseteq> {Ended} \<Longrightarrow> Signal \<notin> set as
    \<Longrightarrow> touched_freed t = touched_freed s"
  by (induction rule: life_run.induct) (auto dest!: quiet_step)

text \<open>C26. When the server may be destroyed. The main thread has left the loop and is about to destroy
  the server. If every thread of a client has ended, nothing touches the server afterwards,
  unless a signal arrives before the process ends. If one has not, there is an execution
  in which it hands its next line to the destroyed server. Nothing in the program waits for
  the threads.\<close>
theorem destruction_safe_iff:
  assumes "life_run born as s" and "loop_pc (main_loop s) = L_done" and "\<not> destroyed s"
  shows "(\<forall>bs t. life_run s bs t \<and> Signal \<notin> set bs \<longrightarrow> \<not> touched_freed t) = (\<forall>p \<in> set (threads s). p = Ended)"
proof
  have inv: "life_inv s" using born_inv [OF assms(1)] .
  then have fresh: "\<not> touched_freed s" "\<not> exited s" using assms(3) by (auto simp: life_inv_def)
  show "\<forall>bs t. life_run s bs t \<and> Signal \<notin> set bs \<longrightarrow> \<not> touched_freed t" if "\<forall>p \<in> set (threads s). p = Ended"
    using quiet_run [OF _ assms(2)] that fresh(1) by blast
  show "\<forall>p \<in> set (threads s). p = Ended" if safe: "\<forall>bs t. life_run s bs t \<and> Signal \<notin> set bs \<longrightarrow> \<not> touched_freed t"
  proof (rule ccontr)
    assume "\<not> (\<forall>p \<in> set (threads s). p = Ended)"
    then obtain c where c: "c < length (threads s)" "threads s ! c \<noteq> Ended" by (metis in_set_conv_nth)
    have "\<exists>bs t. life_run s bs t \<and> Signal \<notin> set bs \<and> touched_freed t"
    proof (cases "threads s ! c")
      case Waiting
      then show ?thesis using c(1) fresh assms(2,3)
        by (intro exI [of _ "[Destroy, Line c, Answered c False]"]) (simp add: life_run_simps life_step_simps)
    next
      case Serving
      then show ?thesis using c(1) fresh assms(2,3)
        by (intro exI [of _ "[Destroy, Answered c False]"]) (simp add: life_run_simps life_step_simps)
    qed (use c(2) in simp)
    with safe show False by blast
  qed
qed

text \<open>A client that is connected when the signal arrives.\<close>

theorem destruction_safe_iff_witness:
  "\<exists>s bs t. life_run born [Main Begin, Main Test, Main (Accept Connected), Main Test, Signal,
       Main (Accept Operation_aborted), Main Leave] s
    \<and> threads s = [Waiting] \<and> life_run s bs t \<and> Signal \<notin> set bs \<and> touched_freed t"
proof -
  obtain s where s: "life_run born [Main Begin, Main Test, Main (Accept Connected), Main Test, Signal,
       Main (Accept Operation_aborted), Main Leave] s"
    "threads s = [Waiting]" "loop_pc (main_loop s) = L_done" "\<not> destroyed s"
    by (simp add: life_run_simps life_step_simps loop_step_simps born_def constructed_def stop_simps)
  have "\<not> (\<forall>p \<in> set (threads s). p = Ended)" by (simp add: s(2))
  then have "\<exists>bs t. life_run s bs t \<and> Signal \<notin> set bs \<and> touched_freed t"
    using destruction_safe_iff [OF s(1,3,4)] by blast
  with s(1,2) show ?thesis by blast
qed

end
