(* ===== verification/Write_Test.thy ===== *)
theory Write_Test
  imports Switching
begin

text \<open>
  The program of \<^verbatim>\<open>tests/test.cpp\<close>: it opens the keyspace \<^verbatim>\<open>_TEST\<close>, puts the first natural
  numbers with their doubles and destroys the database. The name is a temporary string that is
  gone after the declaration, while the logger refers to it (\<^verbatim>\<open>log.h:12\<close>). The flush thread runs beside it: after
  which commands it takes a turn is an argument (\<open>flushes\<close>), and so are the draws of the random
  generator for \<^verbatim>\<open>generateSample\<close>, which the program defines and does not call.
\<close>

definition generateSample :: "size_t \<Rightarrow> bool \<Rightarrow> (nat \<Rightarrow> nat) \<Rightarrow> string \<times> string" where
  "generateSample len random draws =
     (let key = replicate 16 (CHR 0x00);
          val = replicate (unat len) (CHR 0x00)
      in if random
         then (map (\<lambda>i. char_of (draws i)) [0..<length key],
               map (\<lambda>i. char_of (draws (length key + i))) [0..<length val])
         else (key, val))"

definition test_command :: "size_t \<Rightarrow> string" where
  "test_command i = ''put '' @ show_nat (unat i) @ '' '' @ show_nat (unat (i * 2)) @ [NL]"

definition test_events :: "nat \<Rightarrow> (nat \<Rightarrow> bool) \<Rightarrow> event list" where
  "test_events writes flushes =
     concat (map (\<lambda>i. Command (test_command (of_nat i)) # (if flushes i then [Flush] else [])) [0..<writes])"

definition test_main :: "layout \<Rightarrow> lz4 \<Rightarrow> bool \<Rightarrow> nat \<Rightarrow> (nat \<Rightarrow> bool) \<Rightarrow> fs \<Rightarrow> unit outcome \<times> fs" where
  "test_main h lz4 junk writes flushes s =
     (case DB_ctor h junk ''_TEST'' s of
        (Inl e, s) \<Rightarrow> (Inl e, s)
      | (Inr db, s) \<Rightarrow>
          (let (db, s) = run_session h (test_events writes flushes) (forget_name db, s) in DB_dtor lz4 db s))"

text \<open>The number of writes in the source.\<close>

definition TOTAL_WRITES :: nat where
  "TOTAL_WRITES = 1000000"

section \<open>The commands\<close>

lemma show_nat_inject [simp]: "show_nat a = show_nat b \<longleftrightarrow> a = b"
  by (metis digits_value_show_nat of_nat_eq_iff)

lemma digits_plain: "plain_word (show_nat n)"
proof -
  have "list_all isdigit (show_nat n)" by (rule show_nat_isdigit)
  then have "list_all (\<lambda>c. \<not> isspace c) (show_nat n)" using isdigit_not_space by (auto simp: list_all_iff)
  moreover have "isdigit (hd (show_nat n))" using show_nat_isdigit [of n] by (cases "show_nat n") auto
  then have "hd (show_nat n) \<noteq> QUOTE" by (auto simp: isdigit_def)
  ultimately show ?thesis by (simp add: plain_word_def is_word_def)
qed

lemma test_command_of:
  assumes "i < 2 ^ 63"
  shows "command_of (test_command (of_nat i)) = Put (show_nat i) (show_nat (2 * i))"
proof -
  have u: "unat (of_nat i :: size_t) = i" "unat (of_nat i * 2 :: size_t) = 2 * i"
  proof -
    show "unat (of_nat i :: size_t) = i" using assms by (simp add: unat_of_nat)
    have "(of_nat i * 2 :: size_t) = of_nat (2 * i)" by simp
    moreover have "unat (of_nat (2 * i) :: size_t) = 2 * i" using assms by (simp only: unat_of_nat) simp
    ultimately show "unat (of_nat i * 2 :: size_t) = 2 * i" by (simp only:)
  qed
  let ?l = "join_words [''put'', show_nat i, show_nat (2 * i)]"
  have "test_command (of_nat i) = ?l @ [NL]" by (simp add: test_command_def u)
  moreover have "tokenize ?l = [''put'', show_nat i, show_nat (2 * i)]"
    by (rule tokenize_join) (simp add: digits_plain)
  moreover have "tokenize (?l @ [NL]) = tokenize ?l"
    using words_append_space [of NL ?l "[]"] by (simp add: tokenize_group_words isspace_def)
  ultimately show ?thesis by (simp add: command_of_def)
qed

lemma test_events_Suc: "test_events (Suc n) f
    = test_events n f @ Command (test_command (of_nat n)) # (if f n then [Flush] else [])"
  by (simp add: test_events_def)

lemma test_commands:
  "n \<le> 2 ^ 63 \<Longrightarrow> list_all loggable_event (test_events n f)
    \<and> commands_of (test_events n f) = map (\<lambda>i. Put (show_nat i) (show_nat (2 * i))) [0..<n]"
proof (induction n)
  case 0
  then show ?case by (simp add: test_events_def)
next
  case (Suc n)
  then have IH: "list_all loggable_event (test_events n f)"
    "commands_of (test_events n f) = map (\<lambda>i. Put (show_nat i) (show_nat (2 * i))) [0..<n]"
    by simp_all
  have c: "command_of (test_command (of_nat n)) = Put (show_nat n) (show_nat (2 * n))"
    using Suc.prems by (intro test_command_of) simp
  show ?case using IH by (simp add: test_events_Suc c digits_plain)
qed

lemma fold_doubles:
  "fold effect (map (\<lambda>i. Put (show_nat i) (show_nat (2 * i))) [0..<n]) m
    = (\<lambda>k. if k \<in> show_nat ` {..<n} then Some (show_nat (2 * nat (digits_value k))) else m k)"
  by (induction n) (auto simp: fun_eq_iff less_Suc_eq digits_value_show_nat)

section \<open>The name is not looked at before compaction\<close>

definition unnamed :: "Log \<Rightarrow> Log" where
  "unnamed L = L\<lparr>keyspaceName := None\<rparr>"

lemma forget_name_simps [simp]:
  "store (forget_name db) = store db" "logger (forget_name db) = unnamed (logger db)"
  "dirty (forget_name db) = dirty db" "replaying (forget_name db) = replaying db" "name (forget_name db) = name db"
  "(forget_name db)\<lparr>logger := unnamed L\<rparr> = forget_name (db\<lparr>logger := L\<rparr>)"
  by (simp_all add: forget_name_def unnamed_def)

lemma unnamed_simps [simp]:
  "keyspaceName (unnamed L) = None" "logfile (unnamed L) = logfile L" "logBuffer (unnamed L) = logBuffer L"
  "stopFlushThread (unnamed L) = stopFlushThread L"
  by (simp_all add: unnamed_def)

lemma append_unnamed:
  assumes "logfile L \<noteq> None"
  shows "append_named op k v (unnamed L) = (fst (append_named op k v L), unnamed (snd (append_named op k v L)))"
    and "logfile (snd (append_named op k v L)) \<noteq> None"
  using assms by (auto simp: append_named_def appendCommand_def unnamed_def split: sum.split)

lemma items_unnamed:
  "logfile L \<noteq> None \<Longrightarrow> mput_items op ts items (unnamed L) = (fst (mput_items op ts items L), unnamed (snd (mput_items op ts items L)))"
  using append_unnamed
  by (induction op ts items L rule: mput_items.induct) (simp_all split: prod.split sum.split, metis snd_conv)

lemma keys_unnamed:
  "logfile L \<noteq> None \<Longrightarrow> mdel_keys op ts keys (unnamed L) = (fst (mdel_keys op ts keys L), unnamed (snd (mdel_keys op ts keys L)))"
  using append_unnamed
  by (induction op ts keys L rule: mdel_keys.induct) (simp_all split: prod.split sum.split, metis snd_conv)

lemma put_unnamed: "put h k v (forget_name db) = forget_name (put h k v db)"
  by (simp add: put_def Let_def forget_name_def)

lemma del_unnamed: "del k (forget_name db) = (fst (del k db), forget_name (snd (del k db)))"
  by (simp add: del_def Let_def forget_name_def)

lemma mput_unnamed: "mput h items (forget_name db) = (fst (mput h items db), forget_name (snd (mput h items db)))"
  by (induction h items db rule: mput.induct) (simp_all add: put_unnamed)

lemma mdel_unnamed: "mdel ks (forget_name db) = (fst (mdel ks db), forget_name (snd (mdel ks db)))"
proof -
  have "mdel_loop b ks (forget_name db) = (fst (mdel_loop b ks db), forget_name (snd (mdel_loop b ks db)))" for b
    by (induction b ks db rule: mdel_loop.induct) (simp add: del_unnamed Let_def split: prod.split)+
  then show ?thesis by (simp add: mdel_def)
qed

lemma parse_unnamed:
  assumes "logfile (logger db) \<noteq> None"
  shows "parseCommand h l (forget_name db) = (fst (parseCommand h l db), forget_name (snd (parseCommand h l db)))"
proof -
  have g: "get k (forget_name db) = get k db" "mget ks (forget_name db) = mget ks db" for k ks
    by (simp_all add: get_def mget_def)
  have r: "isReplaying (forget_name db') = isReplaying db'" for db' by (simp add: isReplaying_def)
  have "logfile (logger (put h k v db)) \<noteq> None" "logfile (logger (snd (del k db))) \<noteq> None" for k v
    using assms by (simp_all add: put_def del_def Let_def)
  then have a: "append_to_log op k w (forget_name (put h k v db))
      = (fst (append_to_log op k w (put h k v db)), forget_name (snd (append_to_log op k w (put h k v db))))"
    "append_to_log op k w (forget_name (snd (del k db)))
      = (fst (append_to_log op k w (snd (del k db))), forget_name (snd (append_to_log op k w (snd (del k db)))))" for op k v w
    by (simp_all add: append_to_log_def append_unnamed split: prod.split)
  show ?thesis
    using items_unnamed [OF assms] keys_unnamed [OF assms]
    by (auto simp: parseCommand_def Let_def g r put_unnamed del_unnamed a mput_unnamed mdel_unnamed
        split: list.split sum.split option.split prod.split)
qed

lemma session_unnamed:
  assumes "journalled ks db s" and "list_all loggable_event es" and "run_session h es (db, s) = (db', s')"
  shows "run_session h es (forget_name db, s) = (forget_name db', s')"
    and "(\<forall>c\<in>set (commands_of es). \<exists>k v. c = Put k v) \<Longrightarrow> dirty db' = dirty db + of_nat (length (commands_of es))"
proof -
  have "run_session h es (forget_name db, s) = (forget_name db', s')
    \<and> ((\<forall>c\<in>set (commands_of es). \<exists>k v. c = Put k v) \<longrightarrow> dirty db' = dirty db + of_nat (length (commands_of es)))"
    using assms
  proof (induction es arbitrary: db s)
    case (Cons e es)
    obtain db1 s1 where r: "run_event h e (db, s) = (db1, s1)" by fastforce
    have rest: "run_session h es (db1, s1) = (db', s')" "list_all loggable_event es"
      using Cons.prems(2,3) r by simp_all
    show ?case
    proof (cases e)
      case (Command l)
      have l: "loggable (command_of l)" using Cons.prems(2) by (simp add: Command)
      have us: "logfile (logger db) \<noteq> None" using Cons.prems(1) by (auto simp: journalled_def log_open_def)
      have d: "db1 = snd (parseCommand h l db)" "s1 = s" using r by (simp_all add: Command)
      note jc = journalled_command [OF Cons.prems(1) l, of h]
      have run: "running_db ks db s" and nr: "\<not> replaying db"
        using Cons.prems(1) by (simp_all add: journalled_def running_db_def)
      have "journalled ks db1 s1" using jc(1) by (simp add: d)
      from Cons.IH [OF this rest(2,1)] running_command(5) [OF run, of h l] nr
      show ?thesis by (auto simp: Command d parse_unnamed [OF us])
    next
      case Flush
      have f: "flush_db (db, s) = (db1, s1)" using r by (simp add: Flush)
      have "flush_db (forget_name db, s) = (forget_name db1, s1)" "dirty db1 = dirty db"
        using f by (auto simp: flush_db_def flush_iteration_def forget_name_def unnamed_def split: if_splits)
      with Cons.IH [OF journalled_flush(1) [OF Cons.prems(1) f] rest(2,1)] show ?thesis by (simp add: Flush)
    qed
  qed simp
  then show "run_session h es (forget_name db, s) = (forget_name db', s')"
    and "(\<forall>c\<in>set (commands_of es). \<exists>k v. c = Put k v) \<Longrightarrow> dirty db' = dirty db + of_nat (length (commands_of es))"
    by blast+
qed

text \<open>The destructor writes the buffer and comes to the name.\<close>

lemma nameless_dtor:
  assumes "journalled ks db s" and "dirty db \<noteq> 0" and "store db \<noteq> []"
    and "DB_dtor lz4 (forget_name db) s = (r, s')"
  shows "r = Fault Dangling_reference" and "recover (file_text (aof_path ks) s') = kv_of db"
proof -
  obtain L s1 where c: "closeLog (logger db) s = (L, s1)" by fastforce
  have f: "wf_fs s" "log_open ks (logger db) s" using assms(1) by (simp_all add: journalled_def)
  have "closeLog (unnamed (logger db)) s = (unnamed L, s1)"
    using c by (auto simp: closeLog_def unnamed_def Let_def split: if_splits)
  then have "DB_dtor lz4 (forget_name db) s = (Fault Dangling_reference, s1)"
    using assms(2,3) by (simp add: DB_dtor_def shutdown_def compactLog_def)
  then show "r = Fault Dangling_reference" "recover (file_text (aof_path ks) s') = kv_of db"
    using assms(1,4) closeLog_eq(4) [OF f c] by (simp_all add: journalled_def)
qed

text \<open>The test program. Whenever the flush thread runs and however the hash table lies, a program that
  writes anything ends by looking at the name that is gone. Until then it has left on the
  disk the number with its double for every number it has written, and what else the
  keyspace held before.\<close>
lemma test_main_dangles:
  assumes "wf_fs s" and "writable s (aof_path ''_TEST'')"
    and "written (file_text (aof_path ''_TEST'') s)" and "0 < writes" and "writes \<le> 2 ^ 63"
    and "\<not> junk \<or> file_text (aof_path ''_TEST'') s \<noteq> []"
    and "test_main h lz4 junk writes flushes s = (r, s')"
  shows "r = Fault Dangling_reference
    \<and> (\<forall>i < writes. recover (file_text (aof_path ''_TEST'') s') (show_nat i) = Some (show_nat (2 * i)))
    \<and> (\<forall>k. k \<notin> show_nat ` {..<writes} \<longrightarrow>
        recover (file_text (aof_path ''_TEST'') s') k = recover (file_text (aof_path ''_TEST'') s) k)"
proof -
  let ?s1 = "snd (open_append (aof_path ''_TEST'') s)" and ?es = "test_events writes flushes"
  have tc: "list_all loggable_event ?es" "commands_of ?es = map (\<lambda>i. Put (show_nat i) (show_nat (2 * i))) [0..<writes]"
    using test_commands [OF assms(5), of flushes] by simp_all
  obtain db where db: "DB_ctor h junk ''_TEST'' s = (Ok db, ?s1)" "journalled ''_TEST'' db ?s1"
    "logBuffer (logger db) = []" "kv_of db = recover (file_text (aof_path ''_TEST'') s)" "dirty db = 0"
    using DB_ctor_journalled [OF assms(1-3,6), of h] by blast
  obtain db' s2 where rs: "run_session h ?es (db, ?s1) = (db', s2)" by fastforce
  note sj = session_journal [OF db(2,3) tc(1) rs]
  have kv: "kv_of db' = (\<lambda>k. if k \<in> show_nat ` {..<writes}
      then Some (show_nat (2 * nat (digits_value k))) else recover (file_text (aof_path ''_TEST'') s) k)"
    using sj by (simp only: db(4) tc(2) fold_doubles)
  have "dirty db' = of_nat writes"
    using session_unnamed(2) [OF db(2) tc(1) rs] by (auto simp: db(5) tc(2))
  then have "unat (dirty db') = writes" using assms(5) by (simp add: unat_of_nat)
  then have d: "dirty db' \<noteq> 0" using assms(4) by auto
  have "kv_of db' (show_nat 0) \<noteq> None" using assms(4) by (simp add: kv)
  then have st: "store db' \<noteq> []" by auto
  have j: "journalled ''_TEST'' db' s2" using sj by simp
  have "DB_dtor lz4 (forget_name db') s2 = (r, s')"
    using assms(7) by (simp add: test_main_def db(1) session_unnamed(1) [OF db(2) tc(1) rs])
  from nameless_dtor [OF j d st this] show ?thesis by (auto simp: kv digits_value_show_nat)
qed

text \<open>The run of the source, on an empty disk.\<close>

lemma test_main_run:
  "\<exists>s'. test_main (\<lambda>_ _. 0) (\<lambda>src n cap. (0, [])) False TOTAL_WRITES (\<lambda>i. i = 7) empty_fs = (Fault Dangling_reference, s')
    \<and> recover (file_text (aof_path ''_TEST'') s') (show_nat 999999) = Some (show_nat 1999998)
    \<and> recover (file_text (aof_path ''_TEST'') s') (show_nat 1000000) = None"
proof -
  obtain r s' where m: "test_main (\<lambda>_ _. 0) (\<lambda>src n cap. (0, [])) False TOTAL_WRITES (\<lambda>i. i = 7) empty_fs = (r, s')"
    by fastforce
  have n: "0 < TOTAL_WRITES" "TOTAL_WRITES \<le> 2 ^ 63" by (simp_all add: TOTAL_WRITES_def)
  have e: "wf_fs empty_fs" "writable empty_fs (aof_path ''_TEST'')" "written (file_text (aof_path ''_TEST'') empty_fs)"
    "\<not> False \<or> file_text (aof_path ''_TEST'') empty_fs \<noteq> []" by simp_all
  note t = test_main_dangles [OF e(1-3) n e(4) m]
  have "show_nat 1000000 \<notin> show_nat ` {..<TOTAL_WRITES}" by (auto simp: TOTAL_WRITES_def)
  then have "recover (file_text (aof_path ''_TEST'') s') (show_nat 1000000) = None"
    using t [THEN conjunct2, THEN conjunct2, rule_format] by simp
  moreover have "recover (file_text (aof_path ''_TEST'') s') (show_nat 999999) = Some (show_nat (2 * 999999))"
    using t [THEN conjunct2, THEN conjunct1, rule_format, of 999999] by (simp add: TOTAL_WRITES_def)
  ultimately show ?thesis using m t [THEN conjunct1] by simp
qed

end
