(* ===== verification/Given_Store.thy ===== *)
theory Given_Store
  imports Hazards
begin

text \<open>
  The second constructor of \<^verbatim>\<open>src/db.cpp\<close>, which is given a table. It reads nothing from the log and
  writes nothing to it, and it leaves the counter of changes as it finds it: what the table
  holds is in memory only, until a shutdown finds a counter that is not zero.
\<close>

section \<open>Sessions on any table\<close>

lemma logging_session:
  assumes "running_db ks db s" and "\<not> replaying db" and "logBuffer (logger db) = []"
    and "run_session h es (db, s) = (db', s')"
  shows "running_db ks db' s' \<and> \<not> replaying db' \<and> kv_of db' = fold effect (commands_of es) (kv_of db)
    \<and> file_text (aof_path ks) s' = file_text (aof_path ks) s @ log_text (flushed es)
    \<and> logBuffer (logger db') = log_text (pending es)"
  using assms(4)
proof (induction es arbitrary: db' s' rule: rev_induct)
  case Nil
  with assms(1-3) show ?case by simp
next
  case (snoc e es)
  obtain db1 s1 where r: "run_session h es (db, s) = (db1, s1)" by fastforce
  from snoc.IH [OF this] have IH: "running_db ks db1 s1" "\<not> replaying db1"
    "kv_of db1 = fold effect (commands_of es) (kv_of db)"
    "file_text (aof_path ks) s1 = file_text (aof_path ks) s @ log_text (flushed es)"
    "logBuffer (logger db1) = log_text (pending es)"
    by simp_all
  have o: "log_open ks (logger db1) s1" using IH(1) by (simp add: running_db_def)
  show ?case
  proof (cases e)
    case (Command l)
    note rc = running_command [OF IH(1), of h l]
    have "db' = snd (parseCommand h l db1)" "s' = s1" using snoc.prems r Command by simp_all
    then show ?thesis
      using rc IH logBuffer_add [OF o] by (simp add: Command log_text_single)
  next
    case Flush
    with snoc.prems r have f: "flush_db (db1, s1) = (db', s')" by simp
    note rf = running_flush [OF IH(1) f]
    show ?thesis
      using rf IH by (simp add: Flush flushed_pending [of es] flip: log_text_append)
  qed
qed

lemma effects_replayable:
  assumes "list_all loggable cs" and "\<forall>k v. m k = Some v \<longrightarrow> replayable k \<and> replayable v"
  shows "\<forall>k v. fold effect cs m k = Some v \<longrightarrow> replayable k \<and> replayable v"
  using assms
proof (induction cs arbitrary: m)
  case (Cons c cs)
  have "loggable c" "list_all loggable cs" using Cons.prems(1) by simp_all
  with Cons.IH [OF _ effect_replayable [OF _ Cons.prems(2)]] show ?case by simp
qed simp

section \<open>A given table\<close>

lemma DB_ctor_store_ok:
  assumes "wf_fs s" and "writable s (aof_path ks)" and "umap_wf st"
  shows "\<exists>db. DB_ctor_store junk junk_dirty ks st s = (Ok db, snd (open_append (aof_path ks) s))
    \<and> running_db ks db (snd (open_append (aof_path ks) s)) \<and> logBuffer (logger db) = []
    \<and> store db = st \<and> replaying db = junk \<and> dirty db = junk_dirty"
proof -
  obtain L where "Log_ctor ks s = (Ok L, snd (open_append (aof_path ks) s))"
    "log_open ks L (snd (open_append (aof_path ks) s))" "logBuffer L = []"
    using Log_ctor_ok [OF assms(2)] by blast
  then show ?thesis using assms(1,3) by (simp add: DB_ctor_store_def running_db_def wf_open_append)
qed



end
