(* ===== verification/LZ4_Memory.thy ===== *)
theory LZ4_Memory
  imports LZ4_Correct
begin

text \<open>
  The compressor again, with every access to memory and every step of a machine integer
  checked: the same functions of \<^verbatim>\<open>third-party/lz4/lz4.c\<close> as in theory LZ4, which here end with a
  violation when they read outside the source, write outside the destination, leave the hash
  table, overflow an \<^verbatim>\<open>int\<close>, or when a condition the code asserts does not hold. Bytes that the
  wide copies touch beyond the end of what they copy count. No violation happens, so
  theory LZ4, which computes with natural numbers, computes what the code computes.
\<close>

section \<open>Violations\<close>

datatype violation = Read_outside | Write_outside | Table_outside | Int_overflow | Assertion_failed

type_synonym 'a checked = "violation + 'a"

definition readable :: "u8 list \<Rightarrow> nat \<Rightarrow> nat \<Rightarrow> bool" where
  "readable src p n = (p + n \<le> length src)"

text \<open>The width of what \<^verbatim>\<open>LZ4_hashPosition\<close> reads, and the number of entries of the table.\<close>

definition hash_width :: "tableType_t \<Rightarrow> nat" where
  "hash_width tableType = (if tableType \<noteq> ByU16 then 8 else 4)"

definition table_size :: "tableType_t \<Rightarrow> nat" where
  "table_size tableType = (case tableType of ByU32 \<Rightarrow> 2 ^ LZ4_HASHLOG | ByU16 \<Rightarrow> 2 ^ (LZ4_HASHLOG + 1))"

text \<open>The bytes that \<^verbatim>\<open>LZ4_wildCopy8\<close> copies for a length, and those that are touched, four at a time,
  when the length of a match is written.\<close>

fun LZ4_wildCopy8 :: "nat \<Rightarrow> nat" where
  "LZ4_wildCopy8 n = 8 + (if 8 < n then LZ4_wildCopy8 (n - 8) else 0)"

fun match_length_reach :: "nat \<Rightarrow> nat" where
  "match_length_reach matchCode = 4 + (if 4 * 255 \<le> matchCode then match_length_reach (matchCode - 4 * 255) else 0)"

declare LZ4_wildCopy8.simps [simp del] match_length_reach.simps [simp del]

section \<open>The checked functions\<close>

function count_loop_checked ::
  "u8 list \<Rightarrow> nat \<Rightarrow> nat \<Rightarrow> nat \<Rightarrow> (nat \<times> nat \<times> nat option) checked" where
  "count_loop_checked src pIn pMatch pInLimit =
     (if pIn + 7 < pInLimit
      then if \<not> (readable src pMatch 8 \<and> readable src pIn 8) then Inl Read_outside
           else let diff = LZ4_read_ARCH src pMatch XOR LZ4_read_ARCH src pIn
                in if diff = 0 then count_loop_checked src (pIn + 8) (pMatch + 8) pInLimit
                   else Inr (pIn, pMatch, Some (LZ4_NbCommonBytes diff))
      else Inr (pIn, pMatch, None))"
  by pat_completeness auto
termination
  by (relation "measure (\<lambda>(src, pIn, pMatch, pInLimit). pInLimit - pIn)") auto

declare count_loop_checked.simps [simp del]

text \<open>One of the last comparisons: of \<open>w\<close> bytes, if so many are left.\<close>

definition compare_checked ::
  "u8 list \<Rightarrow> nat \<Rightarrow> bool \<Rightarrow> nat \<Rightarrow> nat \<times> nat \<Rightarrow> (nat \<times> nat) checked" where
  "compare_checked src w same pInLimit =
     (\<lambda>(pIn, pMatch).
        if \<not> pIn + (w - 1) < pInLimit then Inr (pIn, pMatch)
        else if \<not> (readable src pMatch w \<and> readable src pIn w) then Inl Read_outside
        else Inr (if same then (pIn + w, pMatch + w) else (pIn, pMatch)))"

definition LZ4_count_checked :: "u8 list \<Rightarrow> nat \<Rightarrow> nat \<Rightarrow> nat \<Rightarrow> nat checked" where
  "LZ4_count_checked src pIn pMatch pInLimit =
     (let pStart = pIn in
      case count_loop_checked src pIn pMatch pInLimit of
        Inl v \<Rightarrow> Inl v
      | Inr (pIn, pMatch, Some k) \<Rightarrow> Inr (pIn + k - pStart)
      | Inr (pIn, pMatch, None) \<Rightarrow>
          (case compare_checked src 4 (LZ4_read32 src pMatch = LZ4_read32 src pIn) pInLimit (pIn, pMatch) of
             Inl v \<Rightarrow> Inl v
           | Inr (pIn, pMatch) \<Rightarrow>
               (case compare_checked src 2 (LZ4_read16 src pMatch = LZ4_read16 src pIn) pInLimit (pIn, pMatch) of
                  Inl v \<Rightarrow> Inl v
                | Inr (pIn, pMatch) \<Rightarrow>
                    (case compare_checked src 1 (src ! pMatch = src ! pIn) pInLimit (pIn, pMatch) of
                       Inl v \<Rightarrow> Inl v
                     | Inr (pIn, pMatch) \<Rightarrow> Inr (pIn - pStart)))))"

text \<open>The search. \<^verbatim>\<open>searchMatchNb\<close> and \<^verbatim>\<open>step\<close> are \<^verbatim>\<open>int\<close>s, \<^verbatim>\<open>current\<close> and \<^verbatim>\<open>matchIndex\<close> have 32 bits
  without a sign.\<close>

function find_match_checked ::
  "u8 list \<Rightarrow> tableType_t \<Rightarrow> hash_table \<Rightarrow> nat \<Rightarrow> nat \<Rightarrow> nat \<Rightarrow> nat \<Rightarrow> (nat \<times> nat \<times> hash_table) option checked" where
  "find_match_checked src tableType table forwardIp forwardH step searchMatchNb =
     (if \<not> forwardH < table_size tableType then Inl Table_outside
      else let h = forwardH; current = forwardIp; matchIndex = LZ4_getIndexOnHash h table tableType; ip = forwardIp
      in if \<not> (matchIndex \<le> current \<and> forwardIp < 2 ^ 31 - 1) then Inl Assertion_failed
         else if \<not> searchMatchNb + 1 < 2 ^ 31 then Inl Int_overflow
         else if forwardIp + step > mflimitPlusOne src then Inr None
         else if \<not> ip < mflimitPlusOne src then Inl Assertion_failed
         else let forwardIp = forwardIp + step;
                  step = searchMatchNb div 2 ^ LZ4_skipTrigger
         in if \<not> readable src forwardIp (hash_width tableType) then Inl Read_outside
            else let forwardH = LZ4_hashPosition src forwardIp tableType;
                     table = LZ4_putIndexOnHash current h table tableType
            in if \<not> matchIndex < current then Inl Assertion_failed
               else if tableType \<noteq> ByU16 \<and> (of_nat matchIndex + of_nat LZ4_DISTANCE_MAX :: u32) < of_nat current
               then find_match_checked src tableType table forwardIp forwardH step (searchMatchNb + 1)
               else if \<not> current - matchIndex \<le> LZ4_DISTANCE_MAX then Inl Assertion_failed
               else if \<not> (readable src matchIndex 4 \<and> readable src ip 4) then Inl Read_outside
               else if LZ4_read32 src matchIndex = LZ4_read32 src ip then Inr (Some (ip, matchIndex, table))
               else find_match_checked src tableType table forwardIp forwardH step (searchMatchNb + 1))"
  by pat_completeness auto
termination
  by (relation "measure (\<lambda>(src, tt, t, f, fh, st, nb). 2 ^ 31 - nb)") auto

declare find_match_checked.simps [simp del]

fun catch_up_checked :: "u8 list \<Rightarrow> nat \<Rightarrow> nat \<Rightarrow> nat \<Rightarrow> (nat \<times> nat) checked" where
  "catch_up_checked src anchor ip 0 = Inr (ip, 0)"
| "catch_up_checked src anchor ip (Suc m) =
     (if \<not> ip > anchor then Inr (ip, Suc m)
      else if \<not> (readable src (ip - 1) 1 \<and> readable src m 1) then Inl Read_outside
      else if src ! (ip - 1) = src ! m then catch_up_checked src anchor (ip - 1) m
      else Inr (ip, Suc m))"

definition last_literals_checked ::
  "u8 list \<Rightarrow> nat option \<Rightarrow> nat \<Rightarrow> nat \<Rightarrow> nat \<Rightarrow> u8 list option checked" where
  "last_literals_checked src olimit capacity oPos anchor =
     (if \<not> anchor \<le> length src then Inl Read_outside
      else let lastRun = length src - anchor
      in if exceeds olimit (oPos + lastRun + 1 + (lastRun + 255 - RUN_MASK) div 255) then Inr None
         else let written = literal_token lastRun # literal_part (drop anchor src)
         in if \<not> oPos + length written \<le> capacity then Inl Write_outside else Inr (Some written))"

text \<open>The main loop, as in theory LZ4.\<close>

function LZ4_loop_checked ::
  "u8 list \<Rightarrow> tableType_t \<Rightarrow> nat option \<Rightarrow> nat \<Rightarrow> hash_table \<Rightarrow> nat \<Rightarrow> nat \<Rightarrow> (nat \<times> nat) option \<Rightarrow> u8 list option checked" where
  "LZ4_loop_checked src tableType olimit capacity table oPos anchor None =
     (if \<not> readable src (anchor + 1) (hash_width tableType) then Inl Read_outside
      else case find_match_checked src tableType table (anchor + 1) (LZ4_hashPosition src (anchor + 1) tableType) 1
             (1 * 2 ^ LZ4_skipTrigger) of
        Inl v \<Rightarrow> Inl v
      | Inr None \<Rightarrow> last_literals_checked src olimit capacity oPos anchor
      | Inr (Some (ip, match, table)) \<Rightarrow>
          (if \<not> ip > anchor then Inl Assertion_failed
           else case catch_up_checked src anchor ip match of
             Inl v \<Rightarrow> Inl v
           | Inr (ip, match) \<Rightarrow>
               (let litLength = ip - anchor;
                    op = oPos + 1 + (if litLength \<ge> RUN_MASK then length (literal_length (litLength - RUN_MASK)) else 0)
                in if exceeds olimit (oPos + 1 + litLength + (2 + 1 + LASTLITERALS) + litLength div 255) then Inr None
                   else if \<not> readable src anchor (LZ4_wildCopy8 litLength) then Inl Read_outside
                   else if \<not> op + LZ4_wildCopy8 litLength \<le> capacity then Inl Write_outside
                   else LZ4_loop_checked src tableType olimit capacity table oPos anchor (Some (litLength, match)))))"
| "LZ4_loop_checked src tableType olimit capacity table oPos anchor (Some (litLength, match)) =
     (let ip = anchor + litLength;
          literals = take litLength (drop anchor src);
          op = oPos + 1 + length (literal_part literals)
      in if \<not> (match < ip \<and> ip - match \<le> LZ4_DISTANCE_MAX) then Inl Assertion_failed
         else if \<not> op + 2 \<le> capacity then Inl Write_outside
         else case LZ4_count_checked src (ip + MINMATCH) (match + MINMATCH) (matchlimit src) of
           Inl v \<Rightarrow> Inl v
         | Inr matchCode \<Rightarrow>
             (let sequence = write_sequence literals (ip - match) matchCode;
                  nextPos = oPos + length sequence;
                  nextAnchor = ip + (matchCode + MINMATCH)
              in if exceeds olimit (op + 2 + (1 + LASTLITERALS) + (matchCode + 240) div 255) then Inr None
                 else if \<not> op + 2 + (if matchCode \<ge> ML_MASK then match_length_reach (matchCode - ML_MASK) else 0) \<le> capacity
                 then Inl Write_outside
                 else map_sum id (map_option (append sequence))
                   (if nextAnchor \<ge> mflimitPlusOne src then last_literals_checked src olimit capacity nextPos nextAnchor
                    else let ip = nextAnchor in
                      if \<not> (readable src (ip - 2) (hash_width tableType) \<and> readable src ip (hash_width tableType))
                      then Inl Read_outside
                      else if \<not> (LZ4_hashPosition src (ip - 2) tableType < table_size tableType
                             \<and> LZ4_hashPosition src ip tableType < table_size tableType) then Inl Table_outside
                      else let table = LZ4_putIndexOnHash (ip - 2) (LZ4_hashPosition src (ip - 2) tableType) table tableType;
                               h = LZ4_hashPosition src ip tableType;
                               matchIndex = LZ4_getIndexOnHash h table tableType;
                               table = LZ4_putIndexOnHash ip h table tableType
                      in if \<not> matchIndex < ip then Inl Assertion_failed
                         else if \<not> (tableType = ByU16 \<or> (of_nat matchIndex + of_nat LZ4_DISTANCE_MAX :: u32) \<ge> of_nat ip)
                         then LZ4_loop_checked src tableType olimit capacity table nextPos ip None
                         else if \<not> (readable src matchIndex 4 \<and> readable src ip 4) then Inl Read_outside
                         else if LZ4_read32 src matchIndex = LZ4_read32 src ip
                         then if \<not> nextPos + 1 \<le> capacity then Inl Write_outside
                              else LZ4_loop_checked src tableType olimit capacity table nextPos ip (Some (0, matchIndex))
                         else LZ4_loop_checked src tableType olimit capacity table nextPos ip None)))"
  by pat_completeness auto
termination
  by (relation "measures [\<lambda>(src, tt, ol, c, t, p, a, m). mflimitPlusOne src - a,
        \<lambda>(src, tt, ol, c, t, p, a, m). if m = None then 1 else 0]")
    (auto split: if_splits)

declare LZ4_loop_checked.simps [simp del]

definition LZ4_compress_generic_checked ::
  "u8 list \<Rightarrow> nat option \<Rightarrow> nat \<Rightarrow> tableType_t \<Rightarrow> u8 list option checked" where
  "LZ4_compress_generic_checked src olimit capacity tableType =
     (if length src < LZ4_minLength then last_literals_checked src olimit capacity 0 0
      else if \<not> readable src 0 (hash_width tableType) then Inl Read_outside
      else if \<not> LZ4_hashPosition src 0 tableType < table_size tableType then Inl Table_outside
      else let table = LZ4_putIndexOnHash 0 (LZ4_hashPosition src 0 tableType) (\<lambda>h. 0) tableType
           in LZ4_loop_checked src tableType olimit capacity table 0 0 None)"

text \<open>The room for the output is what the caller says, also when \<^verbatim>\<open>notLimited\<close> switches the tests
  off. The result must be an \<^verbatim>\<open>int\<close> and, as the code asserts, positive.\<close>

definition LZ4_compress_default_checked ::
  "u8 list \<Rightarrow> int \<Rightarrow> int \<Rightarrow> (int \<times> u8 list) checked" where
  "LZ4_compress_default_checked source inputSize maxOutputSize =
     (let olimit = (if maxOutputSize \<ge> LZ4_compressBound inputSize then None else Some (nat maxOutputSize));
          tableType = (if inputSize < int LZ4_64Klimit then ByU16 else ByU32)
      in if uint (of_int inputSize :: u32) > LZ4_MAX_INPUT_SIZE then Inr (0, [])
         else if \<not> readable source 0 (nat inputSize) then Inl Read_outside
         else case LZ4_compress_generic_checked (take (nat inputSize) source) olimit (nat maxOutputSize) tableType of
                Inl v \<Rightarrow> Inl v
              | Inr None \<Rightarrow> Inr (0, [])
              | Inr (Some dst) \<Rightarrow>
                  (if \<not> length dst < 2 ^ 31 then Inl Int_overflow
                   else if dst = [] then Inl Assertion_failed
                   else Inr (int (length dst), dst)))"

section \<open>Sizes\<close>

lemma wildCopy8_le: "LZ4_wildCopy8 n \<le> n + 8 \<and> (0 < n \<longrightarrow> LZ4_wildCopy8 n \<le> n + 7)"
proof (induction n rule: less_induct)
  case (less n)
  then show ?case using less.IH [of "n - 8"] by (subst (1 2) LZ4_wildCopy8.simps) auto
qed

lemma match_length_reach_le: "match_length_reach m \<le> m div 255 + 4"
proof (induction m rule: less_induct)
  case (less m)
  show ?case
  proof (cases "4 * 255 \<le> m")
    case True
    then obtain k where k: "m = 4 * 255 + k" using le_Suc_ex by blast
    then have "m div 255 = k div 255 + 4" by simp
    moreover have "match_length_reach k \<le> k div 255 + 4" using less.IH [of k] k by simp
    ultimately show ?thesis using k by (subst match_length_reach.simps) simp
  qed (subst match_length_reach.simps, simp)
qed

lemma drop_bit_less:
  fixes w :: "'a :: len word"
  assumes "n \<le> LENGTH('a)"
  shows "unat (drop_bit n w) < 2 ^ (LENGTH('a) - n)"
proof -
  have "unat w < 2 ^ (LENGTH('a) - n) * 2 ^ n"
    using unsigned_less [of w] assms by (simp flip: power_add)
  then show ?thesis unfolding unat_drop_bit_eq by (simp add: drop_bit_eq_div less_mult_imp_div_less)
qed

lemma hash_in_table: "LZ4_hashPosition src p tableType < table_size tableType"
proof -
  have l: "LENGTH(32) = 32" "LENGTH(64) = 64" by simp_all
  have 4: "unat (drop_bit 19 w) < 2 ^ 13" for w :: u32 using drop_bit_less [of 19 w] by simp
  have 5: "unat (drop_bit 52 w) < 2 ^ 12" for w :: u64 using drop_bit_less [of 52 w] by simp
  show ?thesis
  proof (cases tableType)
    case ByU32
    then show ?thesis using 5 by (simp add: LZ4_hashPosition_def LZ4_hash5_def table_size_def LZ4_HASHLOG_def)
  next
    case ByU16
    then show ?thesis using 4 by (simp add: LZ4_hashPosition_def LZ4_hash4_def table_size_def LZ4_HASHLOG_def)
  qed
qed

text \<open>The comparison of a distance in 32 bits.\<close>

lemma distance_u32:
  assumes "m < 2 ^ 31" and "c < 2 ^ 31"
  shows "(of_nat m + of_nat LZ4_DISTANCE_MAX :: u32) < of_nat c \<longleftrightarrow> m + LZ4_DISTANCE_MAX < c"
proof -
  have "(of_nat m + of_nat LZ4_DISTANCE_MAX :: u32) = of_nat (m + LZ4_DISTANCE_MAX)" by simp
  moreover have "unat (of_nat k :: u32) = k" if "k < 2 ^ 32" for k
    using that by (simp add: unat_of_nat)
  ultimately show ?thesis using assms by (simp add: word_less_nat_alt del: of_nat_add of_nat_numeral)
qed

section \<open>The parts without violation\<close>

lemma count_loop_safe:
  assumes "lim \<le> length src" and "p < q"
  shows "count_loop_checked src q p lim = Inr (count_loop src q p lim)"
  using assms
proof (induction src q p lim rule: count_loop.induct)
  case (1 src q p lim)
  then show ?case
    by (subst count_loop_checked.simps, subst count_loop.simps) (simp add: readable_def Let_def)
qed

lemma count_loop_below: "count_loop src q p lim = (q', p', r) \<Longrightarrow> p < q \<Longrightarrow> p' < q'"
proof (induction src q p lim rule: count_loop.induct)
  case (1 src q p lim)
  then show ?case by (subst (asm) (2) count_loop.simps) (auto simp: Let_def split: if_splits)
qed

lemma compare_safe:
  assumes "lim \<le> length src" and "p < q" and "0 < w"
  shows "compare_checked src w same lim (q, p)
    = Inr (if q + (w - 1) < lim \<and> same then (q + w, p + w) else (q, p))"
  using assms by (auto simp: compare_checked_def readable_def)

lemma LZ4_count_safe:
  assumes "lim \<le> length src" and "p < q"
  shows "LZ4_count_checked src q p lim = Inr (LZ4_count src q p lim)"
proof -
  obtain q1 p1 r where cl: "count_loop src q p lim = (q1, p1, r)" by (metis prod_cases3)
  have l1: "p1 < q1" using count_loop_below [OF cl assms(2)] .
  show ?thesis
  proof (cases r)
    case (Some k)
    then show ?thesis by (simp add: LZ4_count_checked_def LZ4_count_def count_loop_safe [OF assms] cl)
  next
    case None
    then show ?thesis
      using l1 assms(1)
      by (simp add: LZ4_count_checked_def LZ4_count_def count_loop_safe [OF assms] cl compare_safe Let_def
          split: if_splits)
  qed
qed

lemma catch_up_safe:
  assumes "match < ip" and "ip \<le> length src"
  shows "catch_up_checked src anchor ip match = Inr (catch_up src anchor ip match)"
  using assms
proof (induction src anchor ip match rule: catch_up.induct)
  case (2 src anchor ip m)
  then show ?case by (auto simp: readable_def)
qed simp

text \<open>The search: the counter grows by one while the position grows by at least one.\<close>

definition search_inv :: "u8 list \<Rightarrow> tableType_t \<Rightarrow> hash_table \<Rightarrow> nat \<Rightarrow> nat \<Rightarrow> nat \<Rightarrow> nat \<Rightarrow> bool" where
  "search_inv src tableType table forwardIp forwardH step searchMatchNb =
     (entries_below table forwardIp \<and> forwardH < table_size tableType \<and> forwardIp \<le> mflimitPlusOne src
      \<and> 1 \<le> step \<and> 64 \<le> searchMatchNb \<and> searchMatchNb \<le> 64 + forwardIp)"

lemma search_inv_next:
  assumes "search_inv src tableType table f h step nb" and "f + step \<le> mflimitPlusOne src"
  shows "search_inv src tableType (LZ4_putIndexOnHash f h table tableType) (f + step)
    (LZ4_hashPosition src (f + step) tableType) (nb div 2 ^ LZ4_skipTrigger) (nb + 1)"
proof -
  have b: "entries_below table f" "1 \<le> step" "64 \<le> nb" "nb \<le> 64 + f"
    using assms(1) by (simp_all add: search_inv_def)
  have "entries_below (LZ4_putIndexOnHash f h table tableType) (f + step)"
    using b(2) by (intro entries_below_put entries_below_mono [OF b(1)]) simp_all
  moreover have "1 \<le> nb div 2 ^ LZ4_skipTrigger" using b(3) by (simp add: div_greater_zero_iff)
  ultimately show ?thesis using assms(2) b hash_in_table by (simp add: search_inv_def)
qed

lemma search_inv_bounds:
  assumes "search_inv src tableType table f h step nb" and "13 \<le> length src" and "length src < 2 ^ 31 - 100"
  shows "h < table_size tableType" and "1 \<le> step" and "LZ4_getIndexOnHash h table tableType < f"
    and "f + 11 \<le> length src" and "nb + 1 < 2 ^ 31" and "f < 2 ^ 31 - 1"
    and "LZ4_getIndexOnHash h table tableType < 2 ^ 31" and "f < 2 ^ 31"
proof -
  have i: "h < table_size tableType" "f \<le> mflimitPlusOne src" "1 \<le> step" "nb \<le> 64 + f" "entries_below table f"
    using assms(1) by (simp_all add: search_inv_def)
  then show "h < table_size tableType" "1 \<le> step" by simp_all
  show m: "LZ4_getIndexOnHash h table tableType < f" using i(5) by (simp add: entries_below_def LZ4_getIndexOnHash_def)
  show f: "f + 11 \<le> length src" using i(2) assms(2) by (simp add: mflimitPlusOne_def)
  show "nb + 1 < 2 ^ 31" "f < 2 ^ 31 - 1" "LZ4_getIndexOnHash h table tableType < 2 ^ 31" "f < 2 ^ 31"
    using i(4) f m assms(3) by simp_all
qed

lemma find_match_safe:
  assumes "search_inv src tableType table f h step nb"
    and "source_fits src tableType" and "13 \<le> length src" and "length src < 2 ^ 31 - 100"
  shows "find_match_checked src tableType table f h step nb = Inr (find_match src tableType table f h step nb)"
  using assms
proof (induction src tableType table f h step nb rule: find_match.induct)
  case (1 src tableType table f h step nb)
  let ?m = "LZ4_getIndexOnHash h table tableType" and ?t = "LZ4_putIndexOnHash f h table tableType"
  let ?far = "tableType \<noteq> ByU16 \<and> ?m + LZ4_DISTANCE_MAX < f" and ?eq = "LZ4_read32 src ?m = LZ4_read32 src f"
  let ?next = "\<lambda>search. search src tableType ?t (f + step) (LZ4_hashPosition src (f + step) tableType)
    (nb div 2 ^ LZ4_skipTrigger) (nb + 1)"
  note b = search_inv_bounds [OF "1.prems"(1,3,4)]
  note i = b(1,2) and m = b(3) and f = b(4) and ints = b(5-8)
  show ?case
  proof (cases "f + step > mflimitPlusOne src")
    case True
    then show ?thesis using i ints m by (subst find_match_checked.simps, subst find_match.simps) (simp add: Let_def)
  next
    case room: False
    then have r: "f < mflimitPlusOne src" "readable src (f + step) (hash_width tableType)"
      "readable src ?m 4" "readable src f 4"
      using i(2) m f "1.prems"(3) by (auto simp: mflimitPlusOne_def readable_def hash_width_def)
    have near: "f - ?m \<le> LZ4_DISTANCE_MAX" if "\<not> ?far"
      using that f "1.prems"(2) by (cases tableType) (auto simp: source_fits_def LZ4_64Klimit_def)
    have next_safe: "?next find_match_checked = Inr (?next find_match)" if "?far \<or> \<not> ?eq"
      using "1.IH" [OF refl refl refl refl room refl refl refl refl _ search_inv_next [OF "1.prems"(1)] "1.prems"(2-4)]
        that room by auto
    have "?m \<le> f" using m by simp
    then have "find_match_checked src tableType table f h step nb
      = (if ?far then ?next find_match_checked else if \<not> f - ?m \<le> LZ4_DISTANCE_MAX then Inl Assertion_failed
         else if ?eq then Inr (Some (f, ?m, ?t)) else ?next find_match_checked)"
      by (subst find_match_checked.simps)
        (simp only: Let_def distance_u32 [OF ints(3,4)] room r i(1) m ints simp_thms if_True if_False)
    then have "find_match_checked src tableType table f h step nb
      = (if ?far then ?next find_match_checked else if ?eq then Inr (Some (f, ?m, ?t)) else ?next find_match_checked)"
      using near by (simp only: simp_thms if_False split: if_split) blast
    moreover have "find_match src tableType table f h step nb
      = (if ?far then ?next find_match else if ?eq then Some (f, ?m, ?t) else ?next find_match)"
      using room by (subst find_match.simps) (simp add: Let_def)
    ultimately show ?thesis
      using next_safe by (cases ?far; cases ?eq) (simp_all only: simp_thms if_True if_False)
  qed
qed

section \<open>The room\<close>

text \<open>Either the tests use the capacity, or it is at least the bound. What has been written is not
  longer than the bound of what has been read; before the second half of a sequence the
  token, the literals and the distance have room.\<close>

definition capacity_ok :: "u8 list \<Rightarrow> nat option \<Rightarrow> nat \<Rightarrow> bool" where
  "capacity_ok src olimit capacity =
     (case olimit of None \<Rightarrow> length src + length src div 255 + 16 \<le> capacity | Some limit \<Rightarrow> limit = capacity)"

definition extra :: "nat \<Rightarrow> nat" where
  "extra n = (if n \<ge> 15 then (n - 15) div 255 + 1 else 0)"

definition room_inv :: "nat option \<Rightarrow> nat \<Rightarrow> nat \<Rightarrow> nat \<Rightarrow> (nat \<times> nat) option \<Rightarrow> bool" where
  "room_inv olimit capacity oPos anchor found =
     (oPos \<le> anchor + anchor div 255
      \<and> (case found of None \<Rightarrow> True | Some (n, match) \<Rightarrow> olimit \<noteq> None \<longrightarrow> oPos + 1 + n + extra n + 2 \<le> capacity))"

lemma extra_le: "extra n \<le> n div 255 + 1" "extra n \<le> (n + 255 - RUN_MASK) div 255" "n < 15 \<Longrightarrow> extra n = 0"
  using extra_bytes [of n] by (simp_all add: extra_def)

lemma length_literals: "length (literal_part ls) = length ls + extra (length ls)"
  by (simp add: length_literal_part extra_def)

lemma room_unlimited:
  assumes "oPos \<le> anchor + anchor div 255" and "anchor + n \<le> length src"
  shows "oPos + n + extra n \<le> length src + length src div 255 + 1"
proof -
  have "anchor div 255 + n div 255 \<le> (anchor + n) div 255" by (rule div_add_le)
  also have "\<dots> \<le> length src div 255" using assms(2) by (rule div_le_mono)
  finally show ?thesis using assms extra_le(1) [of n] by linarith
qed

lemma last_literals_safe:
  assumes "capacity_ok src olimit capacity" and "anchor \<le> length src" and "oPos \<le> anchor + anchor div 255"
  shows "last_literals_checked src olimit capacity oPos anchor = Inr (last_literals src olimit oPos anchor)"
proof -
  define run where "run = length src - anchor"
  let ?x = "exceeds olimit (oPos + run + 1 + (run + 255 - RUN_MASK) div 255)"
  have "oPos + (1 + run + extra run) \<le> capacity" if "\<not> ?x"
  proof (cases olimit)
    case None
    then show ?thesis using assms room_unlimited [OF assms(3), of run src] by (simp add: capacity_ok_def run_def)
  next
    case (Some limit)
    then show ?thesis using that assms(1) extra_le(2) [of run] by (simp add: capacity_ok_def exceeds_def)
  qed
  moreover have "length (literal_part (drop anchor src)) = run + extra run"
    by (simp add: length_literals run_def)
  ultimately show ?thesis
    using assms(2) by (simp add: last_literals_checked_def last_literals_def Let_def flip: run_def)
qed

text \<open>Writing the literals, with the bytes the copy writes too much.\<close>

lemma literals_room:
  assumes "capacity_ok src olimit capacity" and "oPos \<le> anchor + anchor div 255" and "anchor + n + 12 \<le> length src"
    and "\<not> exceeds olimit (oPos + 1 + n + (2 + 1 + LASTLITERALS) + n div 255)"
  shows "oPos + 1 + extra n + LZ4_wildCopy8 n \<le> capacity" and "readable src anchor (LZ4_wildCopy8 n)"
    and "olimit \<noteq> None \<Longrightarrow> oPos + 1 + n + extra n + 2 \<le> capacity"
proof -
  have w: "LZ4_wildCopy8 n \<le> n + 8" "0 < n \<Longrightarrow> LZ4_wildCopy8 n \<le> n + 7" using wildCopy8_le by simp_all
  show "readable src anchor (LZ4_wildCopy8 n)" using w(1) assms(3) by (simp add: readable_def)
  have x: "oPos + 1 + n + 8 + n div 255 \<le> capacity" if "olimit \<noteq> None"
    using that assms(1,4) by (auto simp: capacity_ok_def exceeds_def)
  have e: "extra n + LZ4_wildCopy8 n \<le> n + 8 + n div 255"
  proof (cases "n < 15")
    case True
    then show ?thesis using w(1) extra_le(3) [of n] by simp
  next
    case False
    then show ?thesis using w(2) extra_le(1) [of n] by simp
  qed
  show "oPos + 1 + extra n + LZ4_wildCopy8 n \<le> capacity"
  proof (cases olimit)
    case None
    then have "length src + length src div 255 + 16 \<le> capacity" using assms(1) by (simp add: capacity_ok_def)
    moreover have "oPos + n + extra n \<le> length src + length src div 255 + 1"
      by (rule room_unlimited [OF assms(2)]) (use assms(3) in linarith)
    ultimately show ?thesis using w(1) by linarith
  next
    case (Some limit)
    then show ?thesis using x e by simp
  qed
  show "oPos + 1 + n + extra n + 2 \<le> capacity" if "olimit \<noteq> None"
    using x [OF that] extra_le(1) [of n] by linarith
qed

text \<open>Writing the match, and the room that is left for the next token and distance.\<close>

lemma match_room:
  assumes "capacity_ok src olimit capacity" and "oPos \<le> anchor + anchor div 255"
    and "anchor + n + (mc + 4) + 5 \<le> length src"
    and "\<not> exceeds olimit (oPos + 1 + (n + extra n) + 2 + (1 + LASTLITERALS) + (mc + 240) div 255)"
  shows "oPos + 1 + (n + extra n) + 2 + (if mc \<ge> 15 then match_length_reach (mc - 15) else 0) \<le> capacity"
    and "oPos + 1 + (n + extra n) + 2 + extra mc + 3 \<le> capacity"
proof -
  have r: "match_length_reach (mc - 15) \<le> extra mc + 3" if "mc \<ge> 15"
    using that match_length_reach_le [of "mc - 15"] by (simp add: extra_def)
  have n: "oPos + n + extra n \<le> (anchor + n) + (anchor + n) div 255 + 1"
    using room_unlimited [OF assms(2), of n "take (anchor + n) src"] assms(3) by simp
  have d: "(anchor + n) div 255 + mc div 255 \<le> length src div 255"
    using div_add_le [of "anchor + n" 255 mc] div_le_mono [of "anchor + n + mc" "length src" 255] assms(3) by linarith
  have u: "oPos + 1 + (n + extra n) + 2 + extra mc + 6 \<le> capacity"
  proof (cases olimit)
    case None
    then have "length src + length src div 255 + 16 \<le> capacity" using assms(1) by (simp add: capacity_ok_def)
    then show ?thesis using n d assms(3) extra_le(1) [of mc] by linarith
  next
    case (Some limit)
    then show ?thesis using assms(1,4) extra_le(2) [of mc] by (simp add: capacity_ok_def exceeds_def)
  qed
  show "oPos + 1 + (n + extra n) + 2 + (if mc \<ge> 15 then match_length_reach (mc - 15) else 0) \<le> capacity"
    using r u by auto
  show "oPos + 1 + (n + extra n) + 2 + extra mc + 3 \<le> capacity"
    using u by simp
qed

section \<open>The main loop without violation\<close>

definition safe_inv :: "u8 list \<Rightarrow> nat option \<Rightarrow> nat \<Rightarrow> hash_table \<Rightarrow> nat \<Rightarrow> nat \<Rightarrow> (nat \<times> nat) option \<Rightarrow> bool" where
  "safe_inv src olimit capacity table oPos anchor found =
     (loop_inv_lz4 src table anchor found \<and> room_inv olimit capacity oPos anchor found
      \<and> (found = None \<longrightarrow> anchor + 12 \<le> length src))"

lemma length_written:
  assumes "anchor + n \<le> length src"
  shows "length (write_sequence (take n (drop anchor src)) offset mc) = 3 + (n + extra n) + extra mc"
proof -
  have "length (take n (drop anchor src)) = n" using assms by simp
  then show ?thesis
    by (simp add: write_sequence_def LZ4_writeLE16_def length_literals match_length_eq length_literal_length extra_def)
qed

lemma room_inv_next:
  assumes "capacity_ok src olimit capacity" and "oPos \<le> anchor + anchor div 255"
    and "anchor + n + (mc + 4) + 5 \<le> length src"
    and "\<not> exceeds olimit (oPos + 1 + (n + extra n) + 2 + (1 + LASTLITERALS) + (mc + 240) div 255)"
    and pos_def: "pos = oPos + length (write_sequence (take n (drop anchor src)) offset mc)"
  shows "pos \<le> (anchor + n + (mc + 4)) + (anchor + n + (mc + 4)) div 255" and "pos + 3 \<le> capacity"
proof -
  have "length (take n (drop anchor src)) = n" using assms(3) by simp
  then have "length (write_sequence (take n (drop anchor src)) offset mc) \<le> n + (mc + 4) + (n + (mc + 4)) div 255"
    using length_write_sequence [of "take n (drop anchor src)" offset mc] by simp
  moreover have "anchor div 255 + (n + (mc + 4)) div 255 \<le> (anchor + n + (mc + 4)) div 255"
    using div_add_le [of anchor 255 "n + (mc + 4)"] by (simp add: add.assoc)
  ultimately show "pos \<le> (anchor + n + (mc + 4)) + (anchor + n + (mc + 4)) div 255"
    using assms(2) unfolding pos_def by linarith
  have "length (write_sequence (take n (drop anchor src)) offset mc) = 3 + (n + extra n) + extra mc"
    by (rule length_written) (use assms(3) in simp)
  then show "pos + 3 \<le> capacity" using match_room(2) [OF assms(1-4)] unfolding pos_def by linarith
qed

lemma search_checked:
  assumes "readable src (anchor + 1) (hash_width tableType)"
    and "find_match_checked src tableType table (anchor + 1) (LZ4_hashPosition src (anchor + 1) tableType) 1
      (1 * 2 ^ LZ4_skipTrigger) = Inr (Some (ip, match, table'))"
    and "ip > anchor" and "catch_up_checked src anchor ip match = Inr (ip', match')" and n: "n = ip' - anchor"
  shows "LZ4_loop_checked src tableType olimit capacity table oPos anchor None
    = (if exceeds olimit (oPos + 1 + n + (2 + 1 + LASTLITERALS) + n div 255) then Inr None
       else if \<not> readable src anchor (LZ4_wildCopy8 n) then Inl Read_outside
       else if \<not> oPos + 1 + extra n + LZ4_wildCopy8 n \<le> capacity then Inl Write_outside
       else LZ4_loop_checked src tableType olimit capacity table' oPos anchor (Some (n, match')))"
proof -
  have op: "(if n \<ge> RUN_MASK then length (literal_length (n - RUN_MASK)) else 0) = extra n"
    by (simp add: extra_def length_literal_length)
  with assms(1-4) show ?thesis
    by (simp only: LZ4_loop_checked.simps(1) sum.case option.case prod.case Let_def op n [symmetric] simp_thms if_False)
qed

lemma search_safe:
  assumes inv: "safe_inv src olimit capacity table oPos anchor None" and cap: "capacity_ok src olimit capacity"
    and src: "source_fits src tableType" "13 \<le> length src" "length src < 2 ^ 31 - 100"
    and matched: "\<And>table n match. safe_inv src olimit capacity table oPos anchor (Some (n, match))
      \<Longrightarrow> LZ4_loop_checked src tableType olimit capacity table oPos anchor (Some (n, match))
        = Inr (LZ4_loop src tableType olimit table oPos anchor (Some (n, match)))"
  shows "LZ4_loop_checked src tableType olimit capacity table oPos anchor None
    = Inr (LZ4_loop src tableType olimit table oPos anchor None)"
proof -
  let ?h = "LZ4_hashPosition src (anchor + 1) tableType"
  have a: "entries_below table (anchor + 1)" "oPos \<le> anchor + anchor div 255" "anchor + 12 \<le> length src"
    using inv by (simp_all add: safe_inv_def loop_inv_lz4_def room_inv_def)
  have "search_inv src tableType table (anchor + 1) ?h 1 (1 * 2 ^ LZ4_skipTrigger)"
    using a hash_in_table by (simp add: search_inv_def mflimitPlusOne_def)
  note fm = find_match_safe [OF this src]
  have rd: "readable src (anchor + 1) (hash_width tableType)" using a(3) by (simp add: readable_def hash_width_def)
  show ?thesis
  proof (cases "find_match src tableType table (anchor + 1) ?h 1 (1 * 2 ^ LZ4_skipTrigger)")
    case None
    then have "LZ4_loop_checked src tableType olimit capacity table oPos anchor None
        = last_literals_checked src olimit capacity oPos anchor"
      using rd by (simp only: LZ4_loop_checked.simps(1) fm sum.case option.case simp_thms if_False)
    then show ?thesis using None last_literals_safe [OF cap _ a(2)] a(3) by (simp add: LZ4_loop.simps(1))
  next
    case (Some f)
    obtain ip match table' where f: "f = (ip, match, table')" by (metis prod_cases3)
    obtain ip' match' where cu: "catch_up src anchor ip match = (ip', match')" by fastforce
    have m: "anchor + 1 \<le> ip \<and> match_ok src ip match ip \<and> entries_below table' (ip + 1)"
      by (rule find_match_spec [OF Some [unfolded f] a(1)]) (use src in simp_all)
    then have c: "anchor \<le> ip' \<and> ip' \<le> ip \<and> match_ok src ip' match' ip"
      by (intro catch_up_spec [OF cu]) simp_all
    define n where "n = ip' - anchor"
    have n: "anchor + n + 12 \<le> length src" using c m by (simp add: n_def match_ok_def)
    have cs: "catch_up_checked src anchor ip match = Inr (ip', match')"
      using m catch_up_safe [of match ip src anchor] cu by (simp add: match_ok_def)
    let ?x = "exceeds olimit (oPos + 1 + n + (2 + 1 + LASTLITERALS) + n div 255)"
    have e: "LZ4_loop src tableType olimit table oPos anchor None
        = (if ?x then None else LZ4_loop src tableType olimit table' oPos anchor (Some (n, match')))"
      using Some by (subst LZ4_loop.simps(1)) (simp add: f cu n_def)
    have "ip > anchor" using m by simp
    note ec = search_checked [OF rd fm [unfolded Some f] this cs n_def]
    show ?thesis
    proof (cases ?x)
      case True
      then show ?thesis unfolding e ec by simp
    next
      case False
      note room = literals_room [OF cap a(2) n False]
      have "loop_inv_lz4 src table' anchor (Some (n, match'))"
        using c m by (auto simp: loop_inv_lz4_def n_def)
      then have "safe_inv src olimit capacity table' oPos anchor (Some (n, match'))"
        using room(3) a(2) by (simp add: safe_inv_def room_inv_def)
      then show ?thesis using matched room(1,2) False unfolding e ec by simp
    qed
  qed
qed

lemma token_room:
  assumes "room_inv olimit capacity oPos anchor (Some (n, match))" and "capacity_ok src olimit capacity"
    and "anchor + n + 12 \<le> length src"
  shows "oPos + 1 + (n + extra n) + 2 \<le> capacity"
proof (cases olimit)
  case None
  then have "length src + length src div 255 + 16 \<le> capacity" using assms(2) by (simp add: capacity_ok_def)
  moreover have "oPos + n + extra n \<le> length src + length src div 255 + 1"
    using assms(1,3) by (intro room_unlimited [of _ anchor]) (simp_all add: room_inv_def)
  ultimately show ?thesis by linarith
next
  case (Some limit)
  then show ?thesis using assms(1) by (simp add: room_inv_def)
qed

lemma ML_MASK_15: "ML_MASK = 15"
  by simp

text \<open>Behind a match: the table is filled and the next position tested.\<close>

lemma next_safe:
  assumes tbl: "entries_below table (q + 1)" "q + 4 \<le> nxt" "nxt \<le> length src"
    and src: "source_fits src tableType" "13 \<le> length src" "length src < 2 ^ 31 - 100"
    and cap: "capacity_ok src olimit capacity" "pos \<le> nxt + nxt div 255" "pos + 3 \<le> capacity"
    and tab: "tab = LZ4_putIndexOnHash (nxt - 2) (LZ4_hashPosition src (nxt - 2) tableType) table tableType"
    and tab': "tab' = LZ4_putIndexOnHash nxt (LZ4_hashPosition src nxt tableType) tab tableType"
    and idx: "idx = LZ4_getIndexOnHash (LZ4_hashPosition src nxt tableType) tab tableType"
    and later: "\<And>found. safe_inv src olimit capacity tab' pos nxt found
      \<Longrightarrow> LZ4_loop_checked src tableType olimit capacity tab' pos nxt found
        = Inr (LZ4_loop src tableType olimit tab' pos nxt found)"
  shows "(if nxt \<ge> mflimitPlusOne src then last_literals_checked src olimit capacity pos nxt
    else if \<not> (readable src (nxt - 2) (hash_width tableType) \<and> readable src nxt (hash_width tableType)) then Inl Read_outside
    else if \<not> (LZ4_hashPosition src (nxt - 2) tableType < table_size tableType
      \<and> LZ4_hashPosition src nxt tableType < table_size tableType) then Inl Table_outside
    else if \<not> idx < nxt then Inl Assertion_failed
    else if \<not> (tableType = ByU16 \<or> (of_nat idx + of_nat LZ4_DISTANCE_MAX :: u32) \<ge> of_nat nxt)
    then LZ4_loop_checked src tableType olimit capacity tab' pos nxt None
    else if \<not> (readable src idx 4 \<and> readable src nxt 4) then Inl Read_outside
    else if LZ4_read32 src idx = LZ4_read32 src nxt
    then if \<not> pos + 1 \<le> capacity then Inl Write_outside
      else LZ4_loop_checked src tableType olimit capacity tab' pos nxt (Some (0, idx))
    else LZ4_loop_checked src tableType olimit capacity tab' pos nxt None)
  = Inr (if nxt \<ge> mflimitPlusOne src then last_literals src olimit pos nxt
    else if (tableType = ByU16 \<or> idx + LZ4_DISTANCE_MAX \<ge> nxt) \<and> LZ4_read32 src idx = LZ4_read32 src nxt
    then LZ4_loop src tableType olimit tab' pos nxt (Some (0, idx))
    else LZ4_loop src tableType olimit tab' pos nxt None)" (is "?checked = Inr ?plain")
proof (cases "nxt \<ge> mflimitPlusOne src")
  case True
  then show ?thesis using last_literals_safe [OF cap(1) tbl(3) cap(2)] by simp
next
  case ne: False
  then have nx: "nxt + 12 \<le> length src" using src(2) by (simp add: mflimitPlusOne_def)
  let ?near = "tableType = ByU16 \<or> idx + LZ4_DISTANCE_MAX \<ge> nxt" and ?eq = "LZ4_read32 src idx = LZ4_read32 src nxt"
  let ?near32 = "tableType = ByU16 \<or> (of_nat idx + of_nat LZ4_DISTANCE_MAX :: u32) \<ge> of_nat nxt"
  note np = next_position [OF tbl(1,2) nx src(1) tab tab' idx]
  have "entries_below tab nxt"
    unfolding tab by (rule entries_below_put [OF entries_below_mono [OF tbl(1)]]) (use tbl(2) in simp_all)
  then have i: "idx < nxt" by (simp add: idx entries_below_def LZ4_getIndexOnHash_def)
  have near: "?near32 \<longleftrightarrow> ?near"
    using distance_u32 [of idx nxt] i nx src(3) by (simp add: not_less [symmetric])
  have rd: "readable src (nxt - 2) (hash_width tableType)" "readable src nxt (hash_width tableType)"
    "readable src idx 4" "readable src nxt 4" "pos + 1 \<le> capacity"
    using nx i cap(3) by (auto simp: readable_def hash_width_def)
  have none: "safe_inv src olimit capacity tab' pos nxt None"
    using np(1) cap(2) nx by (simp add: safe_inv_def room_inv_def)
  have some: "safe_inv src olimit capacity tab' pos nxt (Some (0, idx))" if "?near \<and> ?eq"
    using np(2) [OF that] cap(2,3) by (simp add: safe_inv_def room_inv_def extra_def)
  have "?checked = (if ?near \<and> ?eq then LZ4_loop_checked src tableType olimit capacity tab' pos nxt (Some (0, idx))
    else LZ4_loop_checked src tableType olimit capacity tab' pos nxt None)"
    unfolding near if_not_P [OF ne] using rd i hash_in_table by simp
  then show ?thesis unfolding if_not_P [OF ne] using later [OF none] later [OF some] by simp
qed

lemma match_safe:
  assumes inv: "safe_inv src olimit capacity table oPos anchor (Some (n, match))"
    and cap: "capacity_ok src olimit capacity"
    and src: "source_fits src tableType" "13 \<le> length src" "length src < 2 ^ 31 - 100"
    and later: "\<And>table oPos anchor' found. anchor < anchor' \<Longrightarrow> anchor' \<le> length src
      \<Longrightarrow> safe_inv src olimit capacity table oPos anchor' found
      \<Longrightarrow> LZ4_loop_checked src tableType olimit capacity table oPos anchor' found
        = Inr (LZ4_loop src tableType olimit table oPos anchor' found)"
  shows "LZ4_loop_checked src tableType olimit capacity table oPos anchor (Some (n, match))
    = Inr (LZ4_loop src tableType olimit table oPos anchor (Some (n, match)))"
proof -
  obtain q where q: "match_ok src (anchor + n) match q" "entries_below table (q + 1)"
    using inv by (auto simp: safe_inv_def loop_inv_lz4_def)
  have room: "room_inv olimit capacity oPos anchor (Some (n, match))" "oPos \<le> anchor + anchor div 255"
    using inv by (simp_all add: safe_inv_def room_inv_def)
  have mo: "match < anchor + n" "anchor + n - match \<le> LZ4_DISTANCE_MAX" "anchor + n + 12 \<le> length src"
    using q(1) by (auto simp: match_ok_def)
  have lits: "length (literal_part (take n (drop anchor src))) = n + extra n"
    using mo(3) by (simp add: length_literals)
  define mc where "mc = LZ4_count src (anchor + n + MINMATCH) (match + MINMATCH) (matchlimit src)"
  define nxt where "nxt = anchor + n + (mc + MINMATCH)"
  have nx: "q + 4 \<le> nxt" "anchor + n + (mc + 4) + 5 \<le> length src" "nxt = anchor + n + (mc + 4)" "anchor < nxt"
    "nxt \<le> length src"
    using match_end(2,3) [OF q(1) mc_def] by (simp_all add: nxt_def)
  have mcs: "LZ4_count_checked src (anchor + n + MINMATCH) (match + MINMATCH) (matchlimit src) = Inr mc"
    using mo(1) LZ4_count_safe [of "matchlimit src" src] by (simp add: mc_def matchlimit_def)
  let ?x = "exceeds olimit (oPos + 1 + (n + extra n) + 2 + (1 + LASTLITERALS) + (mc + 240) div 255)"
  show ?thesis
  proof (cases ?x)
    case True
    then show ?thesis
      by (subst LZ4_loop_checked.simps(2), subst LZ4_loop.simps(2)) (simp only: Let_def lits mcs mc_def [symmetric] mo(1,2)
          token_room [OF room(1) cap mo(3)] sum.case simp_thms if_True if_False)
  next
    case False
    note later' = later [OF nx(4,5)]
    note rn = room_inv_next [OF cap room(2) nx(2) False refl]
    note ns = next_safe [OF q(2) nx(1,5) src cap rn(1) [folded nx(3)] rn(2) refl refl refl later']
    show ?thesis
      by (subst LZ4_loop_checked.simps(2), subst LZ4_loop.simps(2)) (simp only: Let_def lits mcs mc_def [symmetric] nxt_def [symmetric]
          mo(1,2) token_room [OF room(1) cap mo(3)] match_room(1) [OF cap room(2) nx(2) False] ML_MASK_15 False
          ns sum.case simp_thms if_True if_False map_sum.simps)
  qed
qed

lemma LZ4_loop_safe:
  assumes "source_fits src tableType" and "13 \<le> length src" and "length src < 2 ^ 31 - 100"
    and "capacity_ok src olimit capacity" and "safe_inv src olimit capacity table oPos anchor found"
  shows "LZ4_loop_checked src tableType olimit capacity table oPos anchor found
    = Inr (LZ4_loop src tableType olimit table oPos anchor found)"
  using assms(5)
proof (induction "length src - anchor" arbitrary: anchor table oPos found rule: less_induct)
  case less
  have matched: "LZ4_loop_checked src tableType olimit capacity table oPos anchor (Some (n, match))
      = Inr (LZ4_loop src tableType olimit table oPos anchor (Some (n, match)))"
    if "safe_inv src olimit capacity table oPos anchor (Some (n, match))" for table n match
    by (rule match_safe [OF that assms(4,1-3)], rule less.hyps) simp_all
  show ?case
  proof (cases found)
    case None
    with less.prems show ?thesis using search_safe [OF _ assms(4,1-3) matched] by simp
  next
    case (Some f)
    with less.prems show ?thesis using matched [of _ "fst f" "snd f"] by simp
  qed
qed

section \<open>The interface without violation\<close>

lemma LZ4_compress_generic_safe:
  assumes "source_fits src tableType" and "length src < 2 ^ 31 - 100" and "capacity_ok src olimit capacity"
  shows "LZ4_compress_generic_checked src olimit capacity tableType = Inr (LZ4_compress_generic src olimit tableType)"
proof (cases "length src < LZ4_minLength")
  case True
  then show ?thesis
    using last_literals_safe [OF assms(3), of 0 0] by (simp add: LZ4_compress_generic_checked_def LZ4_compress_generic_def)
next
  case False
  let ?t = "LZ4_putIndexOnHash 0 (LZ4_hashPosition src 0 tableType) (\<lambda>h. 0) tableType"
  have l: "13 \<le> length src" using False by simp
  have "entries_below ?t 1" by (intro entries_below_put) (simp_all add: entries_below_def)
  then have "safe_inv src olimit capacity ?t 0 0 None"
    using l by (simp add: safe_inv_def loop_inv_lz4_def room_inv_def)
  note ls = LZ4_loop_safe [OF assms(1) l assms(2,3) this]
  have "readable src 0 (hash_width tableType)" using l by (simp add: readable_def hash_width_def)
  then show ?thesis
    unfolding LZ4_compress_generic_checked_def LZ4_compress_generic_def if_not_P [OF False] Let_def
    by (simp only: hash_in_table ls simp_thms if_False)
qed

lemma uint_u32:
  assumes "- (2 ^ 31) \<le> k" and "k < 2 ^ 31"
  shows "uint (of_int k :: u32) = (if k < 0 then k + 2 ^ 32 else k)"
proof -
  have pos: "uint (of_int j :: u32) = j" if "0 \<le> j" "j < 2 ^ 32" for j
    using that by (simp add: unsigned_of_int take_bit_int_eq_self)
  have wrap: "(of_int (k + 2 ^ 32) :: u32) = of_int k" by simp
  show ?thesis
  proof (cases "k < 0")
    case True
    have "uint (of_int (k + 2 ^ 32) :: u32) = k + 2 ^ 32" by (rule pos) (use True assms(1) in simp_all)
    with True show ?thesis unfolding wrap by simp
  next
    case False
    have "uint (of_int k :: u32) = k" by (rule pos) (use False assms(2) in simp_all)
    with False show ?thesis by simp
  qed
qed

text \<open>What is written is not empty, and not longer than an \<^verbatim>\<open>int\<close> can say.\<close>

lemma LZ4_written_int:
  assumes "LZ4_compress_generic src olimit tt = Some dst" and "source_fits src tt" and "int (length src) \<le> LZ4_MAX_INPUT_SIZE"
  shows "dst \<noteq> []" and "length dst < 2 ^ 31"
proof -
  have d: "decompress_unsafe dst [] (length src) = Some (src, [])" "length dst \<le> length src + length src div 255 + 2"
    using LZ4_compress_generic_good [OF assms(2), of olimit] assms(1) by (simp_all add: good_def)
  show "dst \<noteq> []" using d(1) by (auto simp: decompress_unsafe.simps)
  have "length src \<le> 0x7E000000" using assms(3) by (simp add: LZ4_MAX_INPUT_SIZE_def)
  then show "length dst < 2 ^ 31" using d(2) div_le_mono [of "length src" "0x7E000000" 255] by simp
qed

lemma LZ4_compress_default_safe:
  assumes "inputSize \<le> int (length source)" and "- (2 ^ 31) \<le> inputSize" and "inputSize < 2 ^ 31"
  shows "LZ4_compress_default_checked source inputSize cap = Inr (LZ4_compress_default source inputSize cap)"
proof (cases "uint (of_int inputSize :: u32) > LZ4_MAX_INPUT_SIZE")
  case True
  then show ?thesis by (simp add: LZ4_compress_default_checked_def LZ4_compress_default_def)
next
  case False
  then have range: "0 \<le> inputSize" "inputSize \<le> LZ4_MAX_INPUT_SIZE" and u: "uint (of_int inputSize :: u32) = inputSize"
    using uint_u32 [OF assms(2,3)] assms(2) by (auto simp: LZ4_MAX_INPUT_SIZE_def split: if_splits)
  define src where "src = take (nat inputSize) source"
  have len: "int (length src) = inputSize" using assms(1) range(1) by (simp add: src_def)
  define olimit where "olimit = (if cap \<ge> LZ4_compressBound inputSize then None else Some (nat cap))"
  define tt where "tt = (if inputSize < int LZ4_64Klimit then ByU16 else ByU32)"
  note defs = Let_def olimit_def [symmetric] tt_def [symmetric] src_def [symmetric] if_False
  have b: "LZ4_compressBound inputSize = inputSize + inputSize div 255 + 16"
    using range(2) by (simp add: LZ4_compressBound_def u)
  have cap: "capacity_ok src olimit (nat cap)"
    using len by (auto simp: capacity_ok_def olimit_def b nat_add_distrib nat_div_distrib)
  have fits: "source_fits src tt" using len by (auto simp: source_fits_def tt_def)
  have "length src < 2 ^ 31 - 100" using len range(2) by (simp add: LZ4_MAX_INPUT_SIZE_def)
  note g = LZ4_compress_generic_safe [OF fits this cap]
  have rd: "readable source 0 (nat inputSize)" using assms(1) by (simp add: readable_def)
  have plain: "LZ4_compress_default source inputSize cap
      = (case LZ4_compress_generic src olimit tt of None \<Rightarrow> (0, []) | Some dst \<Rightarrow> (int (length dst), dst))"
    using False by (simp only: LZ4_compress_default_def defs)
  have checked: "LZ4_compress_default_checked source inputSize cap
      = (case LZ4_compress_generic src olimit tt of None \<Rightarrow> Inr (0, [])
         | Some dst \<Rightarrow> if \<not> length dst < 2 ^ 31 then Inl Int_overflow
             else if dst = [] then Inl Assertion_failed else Inr (int (length dst), dst))"
    using False rd by (simp only: LZ4_compress_default_checked_def defs simp_thms g sum.case)
  have "int (length src) \<le> LZ4_MAX_INPUT_SIZE" using len range(2) by simp
  note written = LZ4_written_int [OF _ fits this]
  show ?thesis
  proof (cases "LZ4_compress_generic src olimit tt")
    case (Some dst)
    then show ?thesis using written [OF Some] by (simp add: plain checked)
  qed (simp add: plain checked)
qed

text \<open>The checks do find something: without the tests for the room a capacity that is too small is
  exceeded, and a source that is shorter than its size is read past its end.\<close>

lemma checks_find_violations:
  "last_literals_checked [] None 0 0 0 = Inl Write_outside"
  "LZ4_compress_default_checked [] 1 20 = Inl Read_outside"
  "find_match_checked (replicate 20 0) ByU32 (\<lambda>h. 0) 1 0 1 (2 ^ 31 - 1) = Inl Int_overflow"
  by (simp_all add: last_literals_checked_def literal_part_def LZ4_compress_default_checked_def readable_def Let_def
      LZ4_compressBound_def LZ4_MAX_INPUT_SIZE_def find_match_checked.simps table_size_def LZ4_getIndexOnHash_def)

text \<open>The program calls it with the size of the text cut down to an \<^verbatim>\<open>int\<close>, whatever the size.\<close>

lemma compress_call_safe:
  "LZ4_compress_default_checked src (to_int32 (length src)) cap
    = Inr (LZ4_compress_default src (to_int32 (length src)) cap)"
proof (rule LZ4_compress_default_safe)
  let ?w = "of_nat (length src) :: 32 word"
  show "- (2 ^ 31) \<le> to_int32 (length src)" "to_int32 (length src) < 2 ^ 31"
    using sint_greater_eq [of ?w] sint_less [of ?w] by (simp_all add: to_int32_def)
  show "to_int32 (length src) \<le> int (length src)"
  proof (cases "length src < 2 ^ 31")
    case False
    then show ?thesis using sint_less [of ?w] by (simp add: to_int32_def)
  qed (simp add: to_int32_small)
qed

text \<open>C21. The memory of the compressor. For every size an \<^verbatim>\<open>int\<close> can hold, up to the length of the
  source, and every capacity, \<^verbatim>\<open>LZ4_compress_default\<close> reads only the source, writes only the
  capacity, although its copies of eight bytes and its lengths of four write too much, stays in
  its hash table and in the range of \<^verbatim>\<open>int\<close>, and all it asserts holds; so it computes what it
  computes with unbounded numbers.\<close>
theorem LZ4_memory_safe:
  assumes "inputSize \<le> int (length source)" and "- (2 ^ 31) \<le> inputSize" and "inputSize < 2 ^ 31"
  shows "LZ4_compress_default_checked source inputSize maxOutputSize
    = Inr (LZ4_compress_default source inputSize maxOutputSize)"
  using assms by (rule LZ4_compress_default_safe)

theorem LZ4_memory_safe_witness:
  "LZ4_compress_default_checked (replicate 30 97) 30 20 = Inr (LZ4_compress_default (replicate 30 97) 30 20)"
  by (rule LZ4_memory_safe) simp_all

end
