(* ===== verification/Spec2Isabelle.thy ===== *)
theory Spec2Isabelle
  imports Log_Threads System Service_Threads Torn_Writes Power_Failure Lifetime Write_Test Given_Store LZ4_Memory
begin

text \<open>
  Taproot is a key-value store: a server keeps one keyspace, a hash table from text to text, writes
  every change to a log, and compacts the log and writes a snapshot at shutdown; a command line
  client talks to it over TCP. This development models all of \<^verbatim>\<open>src/src\<close> and
  \<^verbatim>\<open>src/include/taproot\<close>, one theory for each part, in the order in which the parts use
  each other.

  Foundations. Prelude holds the errors as values (\<open>outcome\<close>: a result, an exception or undefined
  behaviour), lemmas on lists and maps, and two interfaces: \<open>step_invariant\<close> for step relations
  and \<open>journal\<close> for stores that log their commands. Cxx_Std holds what the code uses of the
  C++ library on text. Hash_Table is \<^verbatim>\<open>unordered_map\<close>: a list of pairs in the order of iteration,
  which a parameter \<open>layout\<close> chooses at every insertion. File_System is the disk: directory
  entries, inodes and open streams, with paths that may not be writable.

  Components. Utils and Tokens: \<^verbatim>\<open>utils.cpp\<close>, with the tokenizer as the loop it is. Operations:
  \<^verbatim>\<open>operations.cpp\<close>. Log and Snapshot: \<^verbatim>\<open>log.cpp\<close>, the buffer, the file, compaction and the
  snapshot with its compression; Log_Threads: its threads, as steps. DB_Spec, DB, DB_Correct and
  DB_Properties: \<^verbatim>\<open>db.cpp\<close> and the map it implements. Config: \<^verbatim>\<open>config.cpp\<close>. Framing: messages on a
  stream. Server, Serving, Switching and Accept_Loop: \<^verbatim>\<open>server.cpp\<close>. Client and Cli: \<^verbatim>\<open>client.cpp\<close>
  and \<^verbatim>\<open>cli.cpp\<close>. Interleaving: the threads of several clients. Program: \<^verbatim>\<open>main.cpp\<close>, with the loop of
  \<^verbatim>\<open>Server::run\<close> in which the main thread, the threads of the clients, the flush thread and signals
  take turns. Lifetime: the server object and the detached threads that use it. Write_Test:
  \<^verbatim>\<open>tests/test.cpp\<close>, which ends with a reference to a name that is gone. LZ4: the
  compressor \<^verbatim>\<open>LZ4_compress_default\<close> of the vendored \<^verbatim>\<open>lz4.c\<close>; LZ4_Format: the decoder of its
  block format; LZ4_Match and LZ4_Correct: the one against the other; LZ4_Memory: the compressor
  with every access and every \<^verbatim>\<open>int\<close> checked. Definitions
  have the names of the code; the state of an object is a record, and an operation returns its
  result and the new state.

  What is shown, from the parts to the whole.
  \<^item> DB_Spec says what a command does to a finite map (\<open>effect\<close>), what it answers (\<open>answer\<close>) and what it
    logs (\<open>entries\<close>); DB_Correct and DB_Properties show that \<open>parseCommand\<close> does this for every line,
    on every branch, whatever the order of the table.
  \<^item> Tokens, Snapshot and Config: round trips of the three texts the program reads or writes.
  \<^item> Persistence and Recovery: the invariant \<open>journalled\<close>, that the log with the buffer says what the
    table is, is kept by commands, flushes, restarts and shutdowns; recovery after a crash and
    after a shutdown, over any number of sessions.
  \<^item> LZ4_Match and LZ4_Correct: the comparison by words counts common bytes; what the compressor
    writes is decoded to its input and fits the bound, so the contract that the snapshot asks of
    a compressor (the locale \<open>compressor\<close>) holds for the one that is linked. LZ4_Memory: it stays in
    its memory and in the range of its integers, the reason why theory LZ4 may compute with
    natural numbers.
  \<^item> Torn_Writes: crashes in the middle of a write and at every point of a shutdown; what they cost
    at most, and how the torn line damages the session that follows.
  \<^item> Power_Failure: the disk with what has been synced; a flush is durable, and a shutdown is exactly
    when it does not compact.
  \<^item> Service_Spec: the whole protocol, with listings, statistics, \<^verbatim>\<open>clear\<close> and \<^verbatim>\<open>quit\<close>: every
    response on a connection is a right reply in the state it is sent in.
  \<^item> Lifetime: the destruction of the server is safe exactly when all threads of clients have ended.
  \<^item> Log_Threads: the steps of client threads, flush thread and closing thread refine the atomic
    operations, lose no line, exclude each other and come to an end.
  \<^item> Requests: the server meets no undefined behaviour except by the two known causes, and client
    and server understand each other however the stream is cut.
  \<^item> Accept_Loop: after a signal the main thread has at most three more steps, in whatever order the
    threads go on and whatever accept returns; only accept may keep it waiting.
  \<^item> Program: the program's loop is a run of these threads; executions of the program one after the
    other, each with clients whose turns are interleaved, are one persistent map.
  \<^item> Interleaving: any number of clients, taking turns in any order, see one map that executes their
    commands one at a time. Service_Threads: the same for the whole protocol, as one history of
    requests that explains every response.
  \<^item> System: a session at the keyboard, through client, stream, server, table, log and the
    compressed snapshot to the disk.
  \<^item> Hazards, Given_Store, Serving, Switching, Client, Cli and Accept_Loop also hold the theorems on what goes
    wrong: lost sessions, references to names that are gone, truncated values, lost lines,
    loops that do not end.

  Interfaces are locales: \<open>step_invariant\<close> is interpreted on the steps of the log, of the accept
  loop and of the life of the server, \<open>journal\<close> on the commands, \<open>kv_map\<close> on the hash table, \<open>codec\<close> on the encodings of the
  snapshot, \<open>compressor\<close> on LZ4, \<open>delimiter\<close> on the two end marks of messages.

  Recursion. All loops are structural or have a measure: the text that is left, the segments that are
  left, the attempts that are left, the distance of a position to the end of the source, the room a
  counter has below its bound. The loop of the command line client may run for ever and is a
  partial function into options: theory System shows when it returns, and theory Cli when it
  does not. No definition uses fuel.

  Parameters, because they are not in the sources of the program: the order of the hash table; the value of
  the uninitialised field \<^verbatim>\<open>replaying\<close>, for each session or execution anew; what a blocking accept
  returns, also when the acceptor has been closed; what is a network address, whether the server can listen and
  the client can connect; the segments of the byte streams; the clock. Of the vendored library
  Asio only \<^verbatim>\<open>read_until\<close> is translated: a segment is what one read of the socket returns. The
  compressor is an argument \<open>lz4\<close> of the definitions that lead to a snapshot, so that what holds
  for every compressor is stated for every compressor; LZ4_Correct and System instantiate it.

  Not modelled: of LZ4 the dictionaries, the streams, compression to a given size and the decoders
  for untrusted input, which the program does not use, and machines that are not 64-bit and
  little-endian; output on \<^verbatim>\<open>std::cerr\<close> and the line the server prints when it listens; waiting times;
  an accept that never returns after the acceptor has been closed is a server that is never
  destroyed (Program considers executions that end); exhausted memory and the limit of stream buffers; writes to open files and sockets that fail
  (a write to a file may be cut off by a crash); directory entries that a power failure loses;
  file names with slashes or other names for the same file; memory access by two client
  threads at once, which is a data race in the code and has no meaning in C++: the
  commands of several clients are interleaved as wholes, appending, flushing and closing step by step.
\<close>

end
